(* ===== verification/Prelude.thy ===== *)
theory Prelude
  imports Main "HOL-Library.Word"
begin

text \<open>
  Shared vocabulary of the development: the machine types of the Go sources, results of
  fallible calls, contexts that can be cancelled between two polls, and the generic lemmas
  on results, lists and words that the component theories use.
\<close>

unbundle bit_operations_syntax

section \<open>Types\<close>

type_synonym byte = "8 word"
type_synonym u32 = "32 word"
type_synonym u64 = "64 word"

text \<open>Facts that unfold the loops and combinators below.\<close>

named_theorems result_simps \<open>equations and eliminations for results\<close>
named_theorems transparent_intros \<open>calls whose outcome a context can only replace by its own error\<close>

section \<open>Results\<close>

text \<open>
  A Go call that returns \<open>(value, error)\<close> is a value of \<open>'e + 'a\<close>; \<open>rbind\<close> is the
  \<open>if err != nil { return err }\<close> that follows the call.
\<close>

fun rbind :: "'e + 'a \<Rightarrow> ('a \<Rightarrow> 'e + 'b) \<Rightarrow> 'e + 'b" where
  "rbind (Inl e) f = Inl e"
| "rbind (Inr x) f = f x"

lemma rbind_Inr_iff [result_simps]: "rbind m f = Inr y \<longleftrightarrow> (\<exists>x. m = Inr x \<and> f x = Inr y)"
  by (cases m) auto

lemma rbind_Inl_iff: "rbind m f = Inl e \<longleftrightarrow> m = Inl e \<or> (\<exists>x. m = Inr x \<and> f x = Inl e)"
  by (cases m) auto

lemma rbind_assoc: "rbind (rbind m f) g = rbind m (\<lambda>x. rbind (f x) g)"
  by (cases m) auto

lemma rbind_cong [fundef_cong]:
  "m = m' \<Longrightarrow> (\<And>x. m' = Inr x \<Longrightarrow> f x = g x) \<Longrightarrow> rbind m f = rbind m' g"
  by (cases m') auto

text \<open>\<open>check b e\<close> is \<open>if !b { return e }\<close>.\<close>

definition check :: "bool \<Rightarrow> 'e \<Rightarrow> 'e + unit" where
  "check b e = (if b then Inr () else Inl e)"

lemma check_simps [simp]:
  "check b e = Inr u \<longleftrightarrow> b"
  "check b e = Inl e' \<longleftrightarrow> \<not> b \<and> e' = e"
  "check True e = Inr ()"
  "check False e = Inl e"
  by (auto simp: check_def)

lemma rbind_check [simp]: "rbind (check b e) f = (if b then f () else Inl e)"
  by (simp add: check_def)

text \<open>Rewrapping an error, as \<open>fmt.Errorf\<close> with another sentinel does.\<close>

fun map_error :: "('e \<Rightarrow> 'f) \<Rightarrow> 'e + 'a \<Rightarrow> 'f + 'a" where
  "map_error g (Inl e) = Inl (g e)"
| "map_error g (Inr x) = Inr x"

lemma map_error_Inr_iff [simp]: "map_error g m = Inr x \<longleftrightarrow> m = Inr x"
  by (cases m) auto

section \<open>Contexts\<close>

text \<open>
  A Go context can be cancelled by another goroutine at any moment, and the code only sees
  that when it polls \<open>ctx.Err()\<close>. A context is therefore the list of answers its successive
  polls give; once the list is used up every further poll answers \<open>nil\<close>. Theorems quantify
  over all such lists, that is over all interleavings of cancellation with the call.
\<close>

datatype ctx_error = Canceled | DeadlineExceeded

type_synonym ctx = "ctx_error option list"

fun ctxErr :: "ctx \<Rightarrow> ctx_error option \<times> ctx" where
  "ctxErr [] = (None, [])"
| "ctxErr (a # c) = (a, c)"

text \<open>Calls that poll a context: the result and the polls that are left.\<close>

type_synonym ('e, 'a) cm = "ctx \<Rightarrow> ('e + 'a) \<times> ctx"

definition cret :: "'a \<Rightarrow> ('e, 'a) cm" where
  "cret x = (\<lambda>c. (Inr x, c))"

definition clift :: "'e + 'a \<Rightarrow> ('e, 'a) cm" where
  "clift r = (\<lambda>c. (r, c))"

definition cbind :: "('e, 'a) cm \<Rightarrow> ('a \<Rightarrow> ('e, 'b) cm) \<Rightarrow> ('e, 'b) cm" where
  "cbind m f = (\<lambda>c. case m c of (Inl e, c') \<Rightarrow> (Inl e, c') | (Inr x, c') \<Rightarrow> f x c')"

definition cpoll :: "(ctx_error \<Rightarrow> 'e) \<Rightarrow> ('e, unit) cm" where
  "cpoll ek = (\<lambda>c. case ctxErr c of (None, c') \<Rightarrow> (Inr (), c') | (Some e, c') \<Rightarrow> (Inl (ek e), c'))"

definition cmap_error :: "('e \<Rightarrow> 'f) \<Rightarrow> ('e, 'a) cm \<Rightarrow> ('f, 'a) cm" where
  "cmap_error g m = (\<lambda>c. case m c of (r, c') \<Rightarrow> (map_error g r, c'))"

lemma fst_cmap_error [simp]: "fst (cmap_error g m c) = map_error g (fst (m c))"
  by (simp add: cmap_error_def split: prod.split)

lemma snd_cmap_error [simp]: "snd (cmap_error g m c) = snd (m c)"
  by (simp add: cmap_error_def split: prod.split)

lemma fst_cret [simp]: "fst (cret x c) = Inr x"
  by (simp add: cret_def)

lemma snd_cret [simp]: "snd (cret x c) = c"
  by (simp add: cret_def)

lemma fst_clift [simp]: "fst (clift r c) = r"
  by (simp add: clift_def)

lemma snd_clift [simp]: "snd (clift r c) = c"
  by (simp add: clift_def)

lemma cpoll_Nil [simp]: "cpoll ek [] = (Inr (), [])"
  by (simp add: cpoll_def)

lemma cpoll_cases: "(\<exists>e. fst (cpoll ek c) = Inl (ek e)) \<or> fst (cpoll ek c) = Inr ()"
  by (cases c) (auto simp: cpoll_def split: option.splits)

lemma fst_cbind: "fst (cbind m f c) = rbind (fst (m c)) (\<lambda>x. fst (f x (snd (m c))))"
  by (cases "m c"; cases "fst (m c)") (auto simp: cbind_def)

lemma fst_cbind_Inr [result_simps]:
  "fst (cbind m f c) = Inr y \<longleftrightarrow> (\<exists>x. fst (m c) = Inr x \<and> fst (f x (snd (m c))) = Inr y)"
  by (simp add: fst_cbind rbind_Inr_iff)

lemma cbind_Inr: "m c = (Inr x, c') \<Longrightarrow> cbind m f c = f x c'"
  by (simp add: cbind_def)

lemma cbind_clift_Inr [simp]: "cbind (clift (Inr x)) f = f x"
  by (simp add: cbind_def clift_def fun_eq_iff)

lemma cbind_cret [simp]: "cbind (cret x) f = f x"
  by (simp add: cbind_def cret_def fun_eq_iff)

text \<open>
  A call is \<^emph>\<open>transparent\<close> when a context can only make it fail with the context's own error:
  otherwise the outcome is the one of a context that is never cancelled (the empty list).
\<close>

definition transparent :: "(ctx_error \<Rightarrow> 'e) \<Rightarrow> ('e, 'a) cm \<Rightarrow> bool" where
  "transparent ek m \<longleftrightarrow>
     snd (m []) = [] \<and> (\<forall>c. (\<exists>e. fst (m c) = Inl (ek e)) \<or> fst (m c) = fst (m []))"

lemma transparent_cret [transparent_intros]: "transparent ek (cret x)"
  by (simp add: transparent_def)

lemma transparent_clift [transparent_intros]: "transparent ek (clift r)"
  by (simp add: transparent_def)

lemma transparent_cpoll [transparent_intros]: "transparent ek (cpoll ek)"
  using cpoll_cases[of ek] by (auto simp: transparent_def)

lemma transparent_cbind [transparent_intros]:
  assumes m: "transparent ek m" and f: "\<And>x. transparent ek (f x)"
  shows "transparent ek (cbind m f)"
proof -
  have "(\<exists>e. fst (cbind m f c) = Inl (ek e)) \<or> fst (cbind m f c) = fst (cbind m f [])" for c
  proof (cases "\<exists>e. fst (m c) = Inl (ek e)")
    case True
    then show ?thesis by (auto simp: fst_cbind)
  next
    case False
    with m have same: "fst (m c) = fst (m [])" by (auto simp: transparent_def)
    show ?thesis
    proof (cases "fst (m [])")
      case (Inl e)
      with same show ?thesis by (simp add: fst_cbind)
    next
      case (Inr x)
      have "snd (m []) = []" using m by (simp add: transparent_def)
      with same Inr f[of x] show ?thesis by (simp add: fst_cbind transparent_def)
    qed
  qed
  moreover have "snd (cbind m f []) = []"
    using m f by (cases "m []"; cases "fst (m [])") (auto simp: cbind_def transparent_def)
  ultimately show ?thesis by (simp add: transparent_def)
qed

lemma transparent_if [transparent_intros]:
  "(b \<Longrightarrow> transparent ek m) \<Longrightarrow> (\<not> b \<Longrightarrow> transparent ek n) \<Longrightarrow> transparent ek (if b then m else n)"
  by simp

lemma transparentD:
  "transparent ek m \<Longrightarrow> fst (m c) = Inr x \<Longrightarrow> fst (m []) = Inr x"
  by (metis Inl_Inr_False transparent_def)

lemma transparent_cases:
  assumes "transparent ek m"
  obtains e where "fst (m c) = Inl (ek e)" | "fst (m c) = fst (m [])"
  using assms by (auto simp: transparent_def)

lemma transparent_snd: "transparent ek m \<Longrightarrow> snd (m []) = []"
  by (simp add: transparent_def)

lemma transparent_Nil: "transparent ek m \<Longrightarrow> m [] = (fst (m []), [])"
  by (metis prod.collapse transparent_def)

section \<open>Lists and words\<close>

lemma unat_lt_256: "unat (b :: byte) < 256"
  using unsigned_less[where w = b and 'a = nat] by simp

lemma unat_lt_u32: "unat (w :: u32) < 4294967296"
  using unsigned_less[where w = w and 'a = nat] by simp

lemma unat_lt_u64: "unat (w :: u64) < 18446744073709551616"
  using unsigned_less[where w = w and 'a = nat] by simp

lemma unat_ucast_u32_u64 [simp]: "unat (ucast (w :: u32) :: u64) = unat w"
proof -
  have "unat w < 2 ^ 64" using unat_lt_u32[of w] by simp
  then show ?thesis by (simp add: unsigned_ucast_eq take_bit_eq_mod)
qed

lemma unat_ucast_byte_u64 [simp]: "unat (ucast (b :: byte) :: u64) = unat b"
  using unat_lt_256[of b] by (simp only: unsigned_ucast_eq take_bit_eq_mod) simp

lemma unat_ucast_u64_byte: "unat (ucast (v :: u64) :: byte) = unat v mod 256"
  by (simp only: unsigned_ucast_eq take_bit_eq_mod) simp

lemma append_take_drop_split: "n \<le> length xs \<Longrightarrow> \<exists>ys zs. xs = ys @ zs \<and> length ys = n"
  by (metis append_take_drop_id length_take min.absorb2)

lemma sorted_wrt_nth_Suc:
  "(\<And>i. Suc i < length xs \<Longrightarrow> P (xs ! i) (xs ! Suc i)) \<Longrightarrow> transp P \<Longrightarrow> sorted_wrt P xs"
  by (simp add: sorted_wrt_iff_nth_Suc_transp)

end
