(* ===== verification/Go_Bytes.thy ===== *)
theory Go_Bytes
  imports Prelude
begin

text \<open>
  What the sources use of Go's standard library for bytes: string conversion, the little-endian
  and varint codecs of \<^verbatim>\<open>encoding/binary\<close>, \<^verbatim>\<open>encoding/hex\<close>, \<^verbatim>\<open>unicode/utf8\<close> and the
  decimal conversions of \<^verbatim>\<open>strconv\<close>, with their round trips.
\<close>

section \<open>Strings\<close>

text \<open>
  A Go string is a sequence of bytes and so is an Isabelle string (a list of 8-bit characters);
  \<open>bytes_of\<close> is the conversion \<open>[]byte(s)\<close> and \<open>string_of\<close> the conversion \<open>string(b)\<close>.
\<close>

definition bytes_of :: "string \<Rightarrow> byte list" where
  "bytes_of s = map of_char s"

definition string_of :: "byte list \<Rightarrow> string" where
  "string_of bs = map (\<lambda>b. char_of (unat b)) bs"

lemma of_char_byte: "of_char c = (word_of_nat (of_char c :: nat) :: byte)"
  by (metis of_nat_of_char)

lemma unat_of_char: "unat (of_char c :: byte) = (of_char c :: nat)"
proof -
  have "(of_char c :: nat) < 256" by (rule nat_of_char_less_256)
  then show ?thesis
    by (subst of_char_byte) (simp add: unat_of_nat)
qed

lemma string_of_bytes_of [simp]: "string_of (bytes_of s) = s"
  by (simp add: string_of_def bytes_of_def unat_of_char comp_def)

lemma bytes_of_string_of [simp]: "bytes_of (string_of bs) = bs"
proof -
  have "(of_char (char_of (unat b) :: char) :: byte) = b" for b :: byte
  proof -
    have "(of_char (char_of (unat b) :: char) :: nat) = unat b" using unat_lt_256[of b] by simp
    then show ?thesis by (subst of_char_byte) simp
  qed
  then show ?thesis by (simp add: string_of_def bytes_of_def comp_def)
qed

lemma length_bytes_of [simp]: "length (bytes_of s) = length s"
  by (simp add: bytes_of_def)

lemma length_string_of [simp]: "length (string_of bs) = length bs"
  by (simp add: string_of_def)

lemma bytes_of_inject [simp]: "bytes_of s = bytes_of t \<longleftrightarrow> s = t"
  by (metis string_of_bytes_of)

lemma bytes_of_append [simp]: "bytes_of (s @ t) = bytes_of s @ bytes_of t"
  by (simp add: bytes_of_def)

lemma bytes_of_Nil [simp]: "bytes_of [] = []"
  by (simp add: bytes_of_def)

section \<open>Little-endian integers\<close>

text \<open>
  \<open>le_bytes n w\<close> are the \<open>n\<close> low bytes of \<open>w\<close>, lowest first (\<open>AppendUint32\<close>,
  \<open>AppendUint64\<close>, \<open>PutUint32\<close>); \<open>le_word\<close> is \<open>Uint16\<close>, \<open>Uint32\<close>, \<open>Uint64\<close>.
\<close>

fun le_bytes :: "nat \<Rightarrow> 'a::len word \<Rightarrow> byte list" where
  "le_bytes 0 w = []"
| "le_bytes (Suc n) w = ucast w # le_bytes n (drop_bit 8 w)"

fun le_word :: "byte list \<Rightarrow> 'a::len word" where
  "le_word [] = 0"
| "le_word (b # bs) = ucast b OR push_bit 8 (le_word bs)"

lemma length_le_bytes [simp]: "length (le_bytes n w) = n"
  by (induction n arbitrary: w) auto

lemma le_word_le_bytes: "le_word (le_bytes n w) = take_bit (8 * n) w"
proof (induction n arbitrary: w)
  case 0
  then show ?case by simp
next
  case (Suc n)
  have "(ucast (ucast w :: byte) :: 'a word) OR push_bit 8 (take_bit (8 * n) (drop_bit 8 w))
      = take_bit (8 * Suc n) w"
    by (rule bit_word_eqI) (auto simp: bit_simps)
  with Suc show ?case by simp
qed

lemma take_bit_le_word: "take_bit (8 * length bs) (le_word bs :: 'a::len word) = le_word bs"
proof (induction bs)
  case Nil
  then show ?case by simp
next
  case (Cons b bs)
  have low: "take_bit (8 * Suc (length bs)) (ucast b :: 'a word) = ucast b"
    by (rule bit_word_eqI) (auto simp: bit_simps dest: bit_imp_le_length)
  have "take_bit (8 * Suc (length bs)) (push_bit 8 (le_word bs :: 'a word))
      = push_bit 8 (take_bit (8 * length bs) (le_word bs))"
    by (rule bit_word_eqI) (auto simp: bit_simps)
  with low show ?case by (simp only: length_Cons le_word.simps take_bit_or Cons.IH)
qed

lemma le_bytes_le_word:
  "8 * length bs \<le> LENGTH('a) \<Longrightarrow> le_bytes (length bs) (le_word bs :: 'a::len word) = bs"
proof (induction bs)
  case Nil
  then show ?case by simp
next
  case (Cons b bs)
  let ?w = "le_word bs :: 'a word"
  have head: "ucast (ucast b OR push_bit 8 ?w) = b"
    using Cons.prems by (intro bit_word_eqI) (auto simp: bit_simps)
  have "drop_bit 8 (ucast b OR push_bit 8 ?w) = take_bit (8 * length bs) ?w"
  proof (rule bit_word_eqI)
    fix n assume "n < LENGTH('a)"
    have "bit ?w n \<longleftrightarrow> n < 8 * length bs \<and> bit ?w n"
      using take_bit_le_word[of bs, where 'a = 'a] by (metis bit_take_bit_iff)
    then show "bit (drop_bit 8 (ucast b OR push_bit 8 ?w)) n = bit (take_bit (8 * length bs) ?w) n"
      using Cons.prems by (auto simp: bit_simps dest: bit_imp_le_length)
  qed
  then have tail: "drop_bit 8 (ucast b OR push_bit 8 ?w) = ?w"
    by (simp add: take_bit_le_word)
  from Cons.prems have "le_bytes (length bs) ?w = bs" by (intro Cons.IH) simp
  with head tail show ?case by simp
qed

lemma le_word_le_bytes_u32 [simp]: "le_word (le_bytes 4 (w :: u32)) = w"
  by (simp only: le_word_le_bytes) (simp add: take_bit_word_eq_self)

lemma le_word_le_bytes_u64 [simp]: "le_word (le_bytes 8 (w :: u64)) = w"
  by (simp only: le_word_le_bytes) (simp add: take_bit_word_eq_self)

lemma le_bytes_le_word_u32: "length bs = 4 \<Longrightarrow> le_bytes 4 (le_word bs :: u32) = bs"
  using le_bytes_le_word[of bs, where 'a = 32] by simp

lemma le_bytes_le_word_u64: "length bs = 8 \<Longrightarrow> le_bytes 8 (le_word bs :: u64) = bs"
  using le_bytes_le_word[of bs, where 'a = 64] by simp

section \<open>Unsigned varints\<close>

text \<open>
  \<open>binary.AppendUvarint\<close> and \<open>binary.Uvarint\<close>: seven bits per byte, low group first, the top
  bit set on every byte but the last. \<open>uvarint\<close> returns the value and the number of bytes
  read, 0 when the buffer is too short and a negative number when the value overflows 64 bits.
\<close>

function append_uvarint :: "u64 \<Rightarrow> byte list" where
  "append_uvarint x =
     (if 0x80 \<le> x then (ucast x OR 0x80) # append_uvarint (drop_bit 7 x) else [ucast x])"
  by pat_completeness auto
termination
proof (relation "measure unat")
  fix x :: u64
  assume "0x80 \<le> x"
  then have "0 < unat x" by (simp add: word_le_nat_alt)
  then have "unat x div 128 < unat x" by simp
  then show "(drop_bit 7 x, x) \<in> measure unat"
    by (simp add: drop_bit_eq_div unat_div_distrib)
qed simp

declare append_uvarint.simps [simp del]

fun uvarint_loop :: "nat \<Rightarrow> u64 \<Rightarrow> nat \<Rightarrow> byte list \<Rightarrow> u64 \<times> int" where
  "uvarint_loop i x s [] = (0, 0)"
| "uvarint_loop i x s (b # bs) =
     (if i = 10 then (0, - (int i + 1))
      else if b < 0x80 then
        (if i = 9 \<and> 1 < b then (0, - (int i + 1)) else (x OR push_bit s (ucast b), int i + 1))
      else uvarint_loop (Suc i) (x OR push_bit s (ucast (b AND 0x7f))) (s + 7) bs)"

definition uvarint :: "byte list \<Rightarrow> u64 \<times> int" where
  "uvarint bs = uvarint_loop 0 0 0 bs"

lemma length_append_uvarint_pos: "0 < length (append_uvarint x)"
  by (subst append_uvarint.simps) simp

lemma ucast_low_byte: "x < 0x80 \<Longrightarrow> ucast (ucast x :: byte) = (x :: u64)"
proof -
  assume "x < 0x80"
  then have "unat x < 2 ^ 8" by (simp add: word_less_nat_alt)
  then have "unat (x mod 256) = unat x" by (simp add: unat_mod_distrib)
  then have "take_bit 8 x = x" by (simp add: take_bit_eq_mod word_unat_eq_iff)
  moreover have "ucast (ucast x :: byte) = take_bit 8 x"
    by (rule bit_word_eqI) (auto simp: bit_simps)
  ultimately show ?thesis by simp
qed

lemma uvarint_group: "(ucast ((ucast x OR 0x80 :: byte) AND 0x7f) :: u64) = take_bit 7 x"
proof -
  have "(0x7f :: byte) = mask 7" by (simp add: mask_eq_exp_minus_1)
  moreover have "(ucast ((ucast x OR 0x80 :: byte) AND mask 7) :: u64) = take_bit 7 x"
  proof (rule bit_word_eqI)
    fix n assume "n < LENGTH(64)"
    have "(0x80 :: byte) = push_bit 7 1" by simp
    then show "bit (ucast ((ucast x OR 0x80 :: byte) AND mask 7) :: u64) n = bit (take_bit 7 x) n"
      by (simp only: bit_simps) (auto simp: bit_simps)
  qed
  ultimately show ?thesis by simp
qed

lemma uvarint_high_bit: "\<not> (ucast x OR 0x80 :: byte) < 0x80"
proof -
  have "(0x80 :: byte) \<le> (ucast x OR 0x80)"
    by (metis le_word_or1 or.commute)
  then show ?thesis by simp
qed

lemma uvarint_loop_append:
  assumes "i \<le> 9" "unat y < 2 ^ (64 - 7 * i)"
  shows "uvarint_loop i acc (7 * i) (append_uvarint y @ rest)
       = (acc OR push_bit (7 * i) y, int i + int (length (append_uvarint y)))"
  using assms
proof (induction y arbitrary: i acc rule: append_uvarint.induct)
  case (1 y)
  show ?case
  proof (cases "0x80 \<le> y")
    case True
    have big: "128 \<le> unat y" using True by (simp add: word_le_nat_alt)
    have "i \<noteq> 9"
    proof
      assume "i = 9"
      with "1.prems" have "unat y < 2" by simp
      with big show False by simp
    qed
    then have i: "Suc i \<le> 9" using "1.prems" by simp
    have "unat (drop_bit 7 y) < 2 ^ (64 - 7 * Suc i)"
    proof -
      have "64 - 7 * i = (64 - 7 * Suc i) + 7" using i by simp
      with "1.prems"(2) have "unat y < 2 ^ ((64 - 7 * Suc i) + 7)" by metis
      then have "unat y < 2 ^ (64 - 7 * Suc i) * 128" by (simp only: power_add) simp
      then show ?thesis
        by (simp add: drop_bit_eq_div unat_div_distrib less_mult_imp_div_less)
    qed
    note IH = "1.IH"[OF True i this]
    have merge: "(acc OR push_bit (7 * i) (take_bit 7 y)) OR push_bit (7 * Suc i) (drop_bit 7 y)
        = acc OR push_bit (7 * i) y"
    proof (rule bit_word_eqI)
      fix n assume "n < LENGTH(64)"
      have "bit y (n - 7 * i) \<longleftrightarrow> n - 7 * i < 7 \<and> bit y (n - 7 * i) \<or> bit y (7 + (n - 7 * Suc i))"
        if "7 * Suc i \<le> n" using that by (auto simp: algebra_simps)
      then show "bit ((acc OR push_bit (7 * i) (take_bit 7 y)) OR push_bit (7 * Suc i) (drop_bit 7 y)) n
          = bit (acc OR push_bit (7 * i) y) n"
        using \<open>n < LENGTH(64)\<close>
        by (cases "7 * Suc i \<le> n") (auto simp: bit_or_iff bit_push_bit_iff bit_take_bit_iff bit_drop_bit_eq)
    qed
    have enc: "append_uvarint y = (ucast y OR 0x80) # append_uvarint (drop_bit 7 y)"
      using True by (simp add: append_uvarint.simps[of y])
    have shift: "7 * i + 7 = 7 * Suc i" by simp
    from i have "i \<noteq> 10" by simp
    then show ?thesis
      unfolding enc append_Cons uvarint_loop.simps
      by (simp only: if_False if_True simp_thms uvarint_high_bit uvarint_group shift IH merge)
        simp
  next
    case False
    then have small: "y < 0x80" by simp
    have byte_small: "(ucast y :: byte) < 0x80"
    proof -
      have "unat (ucast y :: byte) = unat y mod 256" by (simp add: unsigned_ucast_eq take_bit_eq_mod)
      with small show ?thesis by (simp add: word_less_nat_alt)
    qed
    have "\<not> (i = 9 \<and> 1 < (ucast y :: byte))"
    proof
      assume a: "i = 9 \<and> 1 < (ucast y :: byte)"
      with "1.prems" have "unat y < 2" by simp
      moreover from a have "1 < unat y mod 256"
        by (simp add: word_less_nat_alt unsigned_ucast_eq take_bit_eq_mod)
      ultimately show False by simp
    qed
    moreover have "append_uvarint y = [ucast y]" using False by (simp add: append_uvarint.simps[of y])
    ultimately show ?thesis using byte_small "1.prems"(1) ucast_low_byte[OF small] by auto
  qed
qed

lemma uvarint_append [simp]:
  "uvarint (append_uvarint y @ rest) = (y, int (length (append_uvarint y)))"
  using uvarint_loop_append[of 0 y 0 rest] unat_lt_u64[of y] by (simp add: uvarint_def)

lemma uvarint_loop_read:
  "uvarint_loop i x s bs = (v, n) \<Longrightarrow> 0 < n \<Longrightarrow> int i < n \<and> n \<le> int i + int (length bs)"
  by (induction i x s bs rule: uvarint_loop.induct) (auto split: if_splits)

lemma uvarint_read: "uvarint bs = (v, n) \<Longrightarrow> 0 < n \<Longrightarrow> n \<le> int (length bs)"
  using uvarint_loop_read[of 0 0 0 bs v n] by (simp add: uvarint_def)

end
