(* ===== verification/Go_Sha256.thy ===== *)
theory Go_Sha256
  imports Go_Bytes
begin

text \<open>
  \<^verbatim>\<open>crypto/sha256\<close>: \<open>sha256.Sum256\<close> after FIPS 180-4, executable, and the double hash the
  Bitcoin formats use. The development proves nothing about its strength: where two different
  inputs with one digest matter, the theorems exhibit the collision.
\<close>

text \<open>
  The constants are what the standard says they are: the first 32 bits behind the point of the
  cube roots of the first 64 primes, and of the square roots of the first eight.
  \<open>root_from k n b r\<close> completes the bits of the integer root below position \<open>b\<close>.
\<close>

fun root_from :: "nat \<Rightarrow> int \<Rightarrow> nat \<Rightarrow> int \<Rightarrow> int" where
  "root_from k n 0 r = r"
| "root_from k n (Suc b) r = (let r' = r + 2 ^ b in root_from k n b (if r' ^ k \<le> n then r' else r))"

definition first_primes :: "int list" where
  "first_primes = filter (\<lambda>p. list_all (\<lambda>d. p mod d \<noteq> 0) [2..p - 1]) [2..311]"

definition sha256_k :: "u32 list" where
  "sha256_k = map (\<lambda>p. word_of_int (root_from 3 (p * 2 ^ 96) 36 0)) first_primes"

definition sha256_init :: "u32 list" where
  "sha256_init = map (\<lambda>p. word_of_int (root_from 2 (p * 2 ^ 64) 37 0)) [2, 3, 5, 7, 11, 13, 17, 19]"

text \<open>Big-endian words, padding and the message schedule.\<close>

definition be_bytes :: "nat \<Rightarrow> 'a::len word \<Rightarrow> byte list" where
  "be_bytes n w = rev (le_bytes n w)"

fun be_words :: "byte list \<Rightarrow> u32 list" where
  "be_words (a # b # c # d # r) = le_word [d, c, b, a] # be_words r"
| "be_words _ = []"

definition sha256_pad :: "byte list \<Rightarrow> byte list" where
  "sha256_pad m =
     m @ [0x80] @ replicate ((119 - length m mod 64) mod 64) 0
       @ be_bytes 8 (word_of_nat (8 * length m) :: u64)"

definition sigma0 :: "u32 \<Rightarrow> u32" where
  "sigma0 x = word_rotr 7 x XOR word_rotr 18 x XOR drop_bit 3 x"

definition sigma1 :: "u32 \<Rightarrow> u32" where
  "sigma1 x = word_rotr 17 x XOR word_rotr 19 x XOR drop_bit 10 x"

text \<open>The schedule keeps the last sixteen words, newest last.\<close>

fun sha256_schedule :: "nat \<Rightarrow> u32 list \<Rightarrow> u32 list" where
  "sha256_schedule 0 w = w"
| "sha256_schedule (Suc n) w =
     hd w # sha256_schedule n (tl w @ [sigma1 (w ! 14) + w ! 9 + sigma0 (w ! 1) + w ! 0])"

fun sha256_rounds :: "u32 list \<Rightarrow> u32 list \<Rightarrow> u32 list \<Rightarrow> u32 list" where
  "sha256_rounds (k # ks) (w # ws) [a, b, c, d, e, f, g, h] =
     (let t1 = h + (word_rotr 6 e XOR word_rotr 11 e XOR word_rotr 25 e)
                 + ((e AND f) XOR (NOT e AND g)) + k + w;
          t2 = (word_rotr 2 a XOR word_rotr 13 a XOR word_rotr 22 a)
                 + ((a AND b) XOR (a AND c) XOR (b AND c))
      in sha256_rounds ks ws [t1 + t2, a, b, c, d + t1, e, f, g])"
| "sha256_rounds _ _ st = st"

definition sha256_block :: "byte list \<Rightarrow> u32 list \<Rightarrow> u32 list" where
  "sha256_block blk st = map2 (+) st (sha256_rounds sha256_k (sha256_schedule 48 (be_words blk)) st)"

function sha256_blocks :: "byte list \<Rightarrow> u32 list \<Rightarrow> u32 list" where
  "sha256_blocks m st = (if m = [] then st else sha256_blocks (drop 64 m) (sha256_block (take 64 m) st))"
  by pat_completeness auto
termination
  by (relation "measure (\<lambda>(m, st). length m)") auto

declare sha256_blocks.simps [simp del]

definition sha256 :: "byte list \<Rightarrow> byte list" where
  "sha256 m = concat (map (be_bytes 4) (sha256_blocks (sha256_pad m) sha256_init))"

text \<open>The digest has 32 bytes, the only property of the function used below.\<close>

lemma length_be_bytes [simp]: "length (be_bytes n w) = n"
  by (simp add: be_bytes_def)

lemma length_sha256_rounds: "length (sha256_rounds ks ws st) = length st"
  by (induction ks ws st rule: sha256_rounds.induct) (auto simp: Let_def)

lemma length_sha256_blocks: "length (sha256_blocks m st) = length st"
proof (induction m st rule: sha256_blocks.induct)
  case (1 m st)
  then show ?case
    by (subst sha256_blocks.simps) (simp add: sha256_block_def length_sha256_rounds)
qed

lemma length_sha256 [simp]: "length (sha256 m) = 32"
proof -
  have "length (concat (map (be_bytes 4) ws)) = 4 * length ws" for ws :: "u32 list"
    by (induction ws) auto
  then show ?thesis by (simp add: sha256_def length_sha256_blocks sha256_init_def)
qed

definition sha256d :: "byte list \<Rightarrow> byte list" where
  "sha256d m = sha256 (sha256 m)"

lemma length_sha256d [simp]: "length (sha256d m) = 32"
  by (simp add: sha256d_def)

text \<open>Two different inputs with the same digest.\<close>

definition collision :: "(byte list \<Rightarrow> byte list) \<Rightarrow> byte list \<Rightarrow> byte list \<Rightarrow> bool" where
  "collision f a b \<longleftrightarrow> a \<noteq> b \<and> f a = f b"

lemma collisionI: "f a = f b \<Longrightarrow> a = b \<or> collision f a b"
  by (auto simp: collision_def)

lemma sha256d_collision:
  "collision sha256d a b \<Longrightarrow> collision sha256 a b \<or> collision sha256 (sha256 a) (sha256 b)"
  by (auto simp: collision_def sha256d_def)

end
