(* ===== verification/Go_Text.thy ===== *)
theory Go_Text
  imports Go_Bytes
begin

text \<open>
  What the sources use of Go's text codecs: \<^verbatim>\<open>encoding/hex\<close>, \<^verbatim>\<open>unicode/utf8\<close> and the decimal
  conversions of \<^verbatim>\<open>strconv\<close>, with their round trips and canonical forms.
\<close>

section \<open>Hexadecimal\<close>

text \<open>The digit table of \<open>hex.EncodeToString\<close> and the inverse of \<open>hex.Decode\<close>.\<close>

definition hex_digit :: "nat \<Rightarrow> char" where
  "hex_digit n = char_of (if n < 10 then 48 + n else 87 + n)"

definition is_lower_hex :: "char \<Rightarrow> bool" where
  "is_lower_hex c =
     (let n = of_char c :: nat in 48 \<le> n \<and> n \<le> 57 \<or> 97 \<le> n \<and> n \<le> 102)"

definition from_hex_char :: "char \<Rightarrow> nat option" where
  "from_hex_char c =
     (let n = of_char c :: nat in
      if 48 \<le> n \<and> n \<le> 57 then Some (n - 48)
      else if 97 \<le> n \<and> n \<le> 102 then Some (n - 87)
      else if 65 \<le> n \<and> n \<le> 70 then Some (n - 55)
      else None)"

primrec hex_encode :: "byte list \<Rightarrow> string" where
  "hex_encode [] = []"
| "hex_encode (b # bs) = hex_digit (unat b div 16) # hex_digit (unat b mod 16) # hex_encode bs"

text \<open>\<open>None\<close> stands for the errors of \<open>hex.Decode\<close> (odd length or a foreign character).\<close>

fun hex_decode :: "string \<Rightarrow> byte list option" where
  "hex_decode [] = Some []"
| "hex_decode [c] = None"
| "hex_decode (c # d # s) =
     (case (from_hex_char c, from_hex_char d, hex_decode s) of
        (Some h, Some l, Some bs) \<Rightarrow> Some (word_of_nat (16 * h + l) # bs)
      | _ \<Rightarrow> None)"

lemma from_hex_digit [simp]: "n < 16 \<Longrightarrow> from_hex_char (hex_digit n) = Some n"
  by (auto simp: from_hex_char_def hex_digit_def Let_def)

lemma is_lower_hex_digit [simp]: "n < 16 \<Longrightarrow> is_lower_hex (hex_digit n)"
  by (auto simp: is_lower_hex_def hex_digit_def Let_def)

lemma is_lower_hexE:
  assumes "is_lower_hex c"
  obtains n where "n < 16" "from_hex_char c = Some n" "hex_digit n = c"
proof -
  let ?m = "of_char c :: nat"
  let ?n = "if ?m \<le> 57 then ?m - 48 else ?m - 87"
  have "hex_digit ?n = char_of ?m"
    using assms by (auto simp: hex_digit_def is_lower_hex_def Let_def)
  then have "hex_digit ?n = c" by simp
  moreover have "?n < 16" "from_hex_char c = Some ?n"
    using assms by (auto simp: is_lower_hex_def from_hex_char_def Let_def)
  ultimately show thesis using that by blast
qed

lemma high_nibble [simp]: "unat (b :: byte) div 16 < 16"
  using unat_lt_256[of b] by (simp add: less_mult_imp_div_less)

lemma length_hex_encode [simp]: "length (hex_encode bs) = 2 * length bs"
  by (induction bs) auto

lemma hex_encode_lower: "c \<in> set (hex_encode bs) \<Longrightarrow> is_lower_hex c"
proof (induction bs)
  case Nil
  then show ?case by simp
next
  case (Cons b bs)
  then show ?case by auto
qed

lemma hex_decode_encode [simp]: "hex_decode (hex_encode bs) = Some bs"
proof (induction bs)
  case Nil
  then show ?case by simp
next
  case (Cons b bs)
  have "16 * (unat b div 16) + unat b mod 16 = unat b" by simp
  with Cons show ?case by simp
qed

lemma hex_encode_decode:
  "(\<And>c. c \<in> set s \<Longrightarrow> is_lower_hex c) \<Longrightarrow> even (length s) \<Longrightarrow>
     \<exists>bs. hex_decode s = Some bs \<and> hex_encode bs = s \<and> 2 * length bs = length s"
proof (induction s rule: hex_decode.induct)
  case 1
  then show ?case by auto
next
  case (2 c)
  then show ?case by simp
next
  case (3 c d s)
  obtain h where h: "h < 16" "from_hex_char c = Some h" "hex_digit h = c"
    using "3.prems"(1)[of c] is_lower_hexE by (metis list.set_intros(1))
  obtain l where l: "l < 16" "from_hex_char d = Some l" "hex_digit l = d"
    using "3.prems"(1)[of d] is_lower_hexE by (metis list.set_intros)
  obtain bs where bs: "hex_decode s = Some bs" "hex_encode bs = s" "2 * length bs = length s"
    using "3.IH" "3.prems" by auto
  have "unat (word_of_nat (16 * h + l) :: byte) = 16 * h + l"
    using h(1) l(1) by (simp only: unat_of_nat) simp
  with h l bs show ?case by simp
qed

lemma hex_encode_inject [simp]: "hex_encode a = hex_encode b \<longleftrightarrow> a = b"
  by (metis hex_decode_encode option.inject)

section \<open>UTF-8\<close>

text \<open>
  \<open>utf8.Valid\<close>: the well-formed byte sequences of RFC 3629, so no surrogates, no overlong forms
  and nothing above U+10FFFF.
\<close>

definition utf8_cont :: "byte \<Rightarrow> bool" where
  "utf8_cont b \<longleftrightarrow> 0x80 \<le> b \<and> b \<le> 0xBF"

fun utf8_valid :: "byte list \<Rightarrow> bool" where
  "utf8_valid [] = True"
| "utf8_valid (a # r) =
     (if a < 0x80 then utf8_valid r
      else if 0xC2 \<le> a \<and> a \<le> 0xDF then
        (case r of b # r' \<Rightarrow> utf8_cont b \<and> utf8_valid r' | [] \<Rightarrow> False)
      else if 0xE0 \<le> a \<and> a \<le> 0xEF then
        (case r of b # c # r' \<Rightarrow>
           (if a = 0xE0 then 0xA0 \<le> b \<and> b \<le> 0xBF
            else if a = 0xED then 0x80 \<le> b \<and> b \<le> 0x9F else utf8_cont b)
           \<and> utf8_cont c \<and> utf8_valid r'
         | _ \<Rightarrow> False)
      else if 0xF0 \<le> a \<and> a \<le> 0xF4 then
        (case r of b # c # d # r' \<Rightarrow>
           (if a = 0xF0 then 0x90 \<le> b \<and> b \<le> 0xBF
            else if a = 0xF4 then 0x80 \<le> b \<and> b \<le> 0x8F else utf8_cont b)
           \<and> utf8_cont c \<and> utf8_cont d \<and> utf8_valid r'
         | _ \<Rightarrow> False)
      else False)"

lemma utf8_valid_ascii: "(\<And>b. b \<in> set bs \<Longrightarrow> b < 0x80) \<Longrightarrow> utf8_valid bs"
  by (induction bs) auto

section \<open>Decimal text\<close>

text \<open>\<open>strconv.Itoa\<close> and \<open>strconv.FormatUint(_, 10)\<close>.\<close>

definition is_digit :: "char \<Rightarrow> bool" where
  "is_digit c = (let n = of_char c :: nat in 48 \<le> n \<and> n \<le> 57)"

definition digit_value :: "char \<Rightarrow> nat" where
  "digit_value c = of_char c - 48"

fun format_uint :: "nat \<Rightarrow> string" where
  "format_uint n =
     (if n < 10 then [char_of (48 + n)] else format_uint (n div 10) @ [char_of (48 + n mod 10)])"

declare format_uint.simps [simp del]

text \<open>
  \<open>strconv.ParseUint(s, 10, bits)\<close>: the loop stops at the first character that is no digit
  or at the first prefix above the largest value.
\<close>

datatype parse_error = ErrSyntax | ErrRange

fun parse_uint_loop :: "nat \<Rightarrow> nat \<Rightarrow> string \<Rightarrow> parse_error + nat" where
  "parse_uint_loop max_val n [] = Inr n"
| "parse_uint_loop max_val n (c # s) =
     (if \<not> is_digit c then Inl ErrSyntax
      else if max_val < n * 10 + digit_value c then Inl ErrRange
      else parse_uint_loop max_val (n * 10 + digit_value c) s)"

definition parse_uint :: "nat \<Rightarrow> string \<Rightarrow> parse_error + nat" where
  "parse_uint bits s = (if s = [] then Inl ErrSyntax else parse_uint_loop (2 ^ bits - 1) 0 s)"

definition decimal_value :: "nat \<Rightarrow> string \<Rightarrow> nat" where
  "decimal_value n s = foldl (\<lambda>a c. a * 10 + digit_value c) n s"

lemma decimal_value_ge: "n \<le> decimal_value n s"
proof (induction s arbitrary: n)
  case Nil
  then show ?case by (simp add: decimal_value_def)
next
  case (Cons c s)
  have "n \<le> n * 10 + digit_value c" by simp
  also have "\<dots> \<le> decimal_value (n * 10 + digit_value c) s" by (rule Cons.IH)
  finally show ?case by (simp add: decimal_value_def)
qed

lemma parse_uint_loop_iff:
  "n \<le> max_val \<Longrightarrow> parse_uint_loop max_val n s = Inr v \<longleftrightarrow>
     list_all is_digit s \<and> v = decimal_value n s \<and> v \<le> max_val"
proof (induction s arbitrary: n)
  case Nil
  then show ?case by (auto simp: decimal_value_def)
next
  case (Cons c s)
  let ?n = "n * 10 + digit_value c"
  have step: "decimal_value n (c # s) = decimal_value ?n s" by (simp add: decimal_value_def)
  show ?case
  proof (cases "max_val < ?n")
    case True
    with decimal_value_ge[of ?n s] step show ?thesis by auto
  next
    case False
    with Cons.IH[of ?n] step show ?thesis by auto
  qed
qed

lemma parse_uint_iff:
  "parse_uint bits s = Inr v \<longleftrightarrow>
     s \<noteq> [] \<and> list_all is_digit s \<and> v = decimal_value 0 s \<and> v < 2 ^ bits"
proof -
  have "0 < (2 :: nat) ^ bits" by simp
  then have "v \<le> 2 ^ bits - 1 \<longleftrightarrow> v < 2 ^ bits" by linarith
  then show ?thesis by (simp add: parse_uint_def parse_uint_loop_iff)
qed

lemma digit_char [simp]: "n < 10 \<Longrightarrow> is_digit (char_of (48 + n))" "n < 10 \<Longrightarrow> digit_value (char_of (48 + n)) = n"
  by (auto simp: is_digit_def digit_value_def Let_def)

lemma char_digit: "is_digit c \<Longrightarrow> char_of (48 + digit_value c) = c"
  by (auto simp: is_digit_def digit_value_def Let_def)

lemma digit_value_less: "is_digit c \<Longrightarrow> digit_value c < 10"
  by (auto simp: is_digit_def digit_value_def Let_def)

lemma format_uint_digits: "list_all is_digit (format_uint n)"
  by (induction n rule: format_uint.induct) (subst format_uint.simps, auto)

lemma format_uint_value [simp]: "decimal_value 0 (format_uint n) = n"
proof (induction n rule: format_uint.induct)
  case (1 n)
  show ?case
  proof (cases "n < 10")
    case True
    then show ?thesis by (subst format_uint.simps) (simp add: decimal_value_def)
  next
    case False
    with 1 have "decimal_value 0 (format_uint (n div 10)) = n div 10" by simp
    with False show ?thesis by (subst format_uint.simps) (simp add: decimal_value_def)
  qed
qed

lemma format_uint_not_Nil [simp]: "format_uint n \<noteq> []"
  by (subst format_uint.simps) simp

lemma parse_format_uint: "n < 2 ^ bits \<Longrightarrow> parse_uint bits (format_uint n) = Inr n"
  by (simp add: parse_uint_iff format_uint_digits)

lemma format_uint_inject [simp]: "format_uint m = format_uint n \<longleftrightarrow> m = n"
  by (metis format_uint_value)

text \<open>A digit string without a leading zero is the text of its value.\<close>

definition canonical_decimal :: "string \<Rightarrow> bool" where
  "canonical_decimal s \<longleftrightarrow>
     s \<noteq> [] \<and> list_all is_digit s \<and> (length s = 1 \<or> hd s \<noteq> CHR ''0'')"

lemma decimal_value_pos:
  assumes "list_all is_digit s" "s \<noteq> []" "hd s \<noteq> CHR ''0''"
  shows "0 < decimal_value 0 s"
proof -
  obtain c t where s: "s = c # t" using assms(2) by (cases s) auto
  have "digit_value c \<noteq> 0"
  proof
    assume "digit_value c = 0"
    moreover have "is_digit c" using assms(1) s by simp
    ultimately have "c = char_of (48 + (0::nat))" using char_digit by metis
    also have "\<dots> = CHR ''0''" by (simp add: char_of_eq_iff)
    finally have "c = CHR ''0''" .
    with assms(3) s show False by simp
  qed
  with decimal_value_ge[of "digit_value c" t] s show ?thesis by (simp add: decimal_value_def)
qed

lemma format_decimal_value: "canonical_decimal s \<Longrightarrow> format_uint (decimal_value 0 s) = s"
proof (induction s rule: rev_induct)
  case Nil
  then show ?case by (simp add: canonical_decimal_def)
next
  case (snoc c t)
  have c: "is_digit c" "digit_value c < 10"
    using snoc.prems digit_value_less by (auto simp: canonical_decimal_def)
  have val: "decimal_value 0 (t @ [c]) = decimal_value 0 t * 10 + digit_value c"
    by (simp add: decimal_value_def)
  show ?case
  proof (cases "t = []")
    case True
    then show ?thesis using c char_digit[of c]
      by (subst format_uint.simps) (simp add: decimal_value_def)
  next
    case False
    with snoc.prems have t: "list_all is_digit t" "hd t \<noteq> CHR ''0''"
      by (auto simp: canonical_decimal_def)
    then have "0 < decimal_value 0 t" using False decimal_value_pos by blast
    then have "\<not> decimal_value 0 (t @ [c]) < 10" using val by simp
    moreover have "format_uint (decimal_value 0 t) = t"
      using snoc.IH t False by (auto simp: canonical_decimal_def)
    moreover have "decimal_value 0 (t @ [c]) div 10 = decimal_value 0 t"
      "decimal_value 0 (t @ [c]) mod 10 = digit_value c" using val c(2) by simp_all
    ultimately show ?thesis using c(1) char_digit by (subst format_uint.simps) simp
  qed
qed

lemma length_format_uint: "n < 10 ^ k \<Longrightarrow> 0 < k \<Longrightarrow> length (format_uint n) \<le> k"
proof (induction k arbitrary: n)
  case 0
  then show ?case by simp
next
  case (Suc k)
  show ?case
  proof (cases "n < 10")
    case True
    then show ?thesis by (subst format_uint.simps) simp
  next
    case False
    then have k: "0 < k" using Suc.prems by (cases k) auto
    have "n div 10 < 10 ^ k" using Suc.prems by (simp add: less_mult_imp_div_less mult.commute)
    with False Suc.IH[of "n div 10"] k show ?thesis by (subst format_uint.simps) simp
  qed
qed

lemma format_uint_hd: "10 \<le> n \<Longrightarrow> hd (format_uint n) \<noteq> CHR ''0''"
proof (induction n rule: format_uint.induct)
  case (1 n)
  show ?case
  proof (cases "n div 10 < 10")
    case True
    with 1(2) have nz: "0 < n div 10" by simp
    have "format_uint n = [char_of (48 + n div 10), char_of (48 + n mod 10)]"
      using True 1(2) by (subst format_uint.simps, subst format_uint.simps) simp
    moreover have "(char_of (48 + n div 10) :: char) \<noteq> CHR ''0''"
    proof
      assume "(char_of (48 + n div 10) :: char) = CHR ''0''"
      then have "digit_value (char_of (48 + n div 10)) = digit_value CHR ''0''" by (rule arg_cong)
      also have "\<dots> = 0" by code_simp
      finally show False using digit_char(2)[OF True] nz by linarith
    qed
    ultimately show ?thesis by simp
  next
    case False
    with 1 show ?thesis by (subst format_uint.simps) simp
  qed
qed

lemma canonical_format_uint: "canonical_decimal (format_uint n)"
proof (cases "n < 10")
  case True
  then show ?thesis
    using format_uint_digits[of n] by (subst (asm) format_uint.simps, subst format_uint.simps) (simp add: canonical_decimal_def)
next
  case False
  then show ?thesis
    using format_uint_digits[of n] format_uint_hd[of n] by (simp add: canonical_decimal_def)
qed

section \<open>Length-framed fields\<close>

text \<open>
  A field is written as the decimal length of its bytes, a colon and the bytes, so that a
  sequence of fields can be read back from its concatenation.
\<close>

definition frame :: "string \<Rightarrow> string" where
  "frame f = format_uint (length f) @ CHR '':'' # f"

lemma colon_no_digit [simp]: "\<not> is_digit CHR '':''"
  by code_simp

lemma digits_colon_eq:
  "list_all is_digit a \<Longrightarrow> list_all is_digit b \<Longrightarrow>
     a @ CHR '':'' # s = b @ CHR '':'' # t \<longleftrightarrow> a = b \<and> s = t"
proof (induction a arbitrary: b)
  case Nil
  then show ?case by (cases b) auto
next
  case (Cons c a)
  then show ?case by (cases b) auto
qed

lemma frame_append_eq: "frame f @ s = frame g @ t \<longleftrightarrow> f = g \<and> s = t"
  using digits_colon_eq[OF format_uint_digits format_uint_digits, of "length f" "f @ s" "length g" "g @ t"]
  by (auto simp: frame_def)

lemma frame_not_Nil [simp]: "frame f \<noteq> []"
  by (simp add: frame_def)

lemma frames_inject: "concat (map frame fs) = concat (map frame gs) \<longleftrightarrow> fs = gs"
proof (induction fs arbitrary: gs)
  case Nil
  then show ?case by (cases gs) auto
next
  case (Cons f fs)
  then show ?case by (cases gs) (auto simp: frame_append_eq)
qed

end
