(* ===== verification/Basm_Hash.thy ===== *)
theory Basm_Hash
  imports Go_Sha256 Go_Text
begin

text \<open>
  \<^verbatim>\<open>pkg/core/basm/hash.go\<close> and \<^verbatim>\<open>errors.go\<close>: hashes and their text form, the BASM Merkle root of
  a list of leaves, and the step of the topic anchor chain. Error messages are dropped: an error
  is the sentinel that \<open>errors.Is\<close> finds in it.
\<close>

section \<open>Errors and hashes\<close>

datatype basm_error =
    ErrInvalidHash
  | ErrInvalidInput
  | ErrLimitExceeded
  | ErrInconsistent
  | ErrNoncontiguous
  | CtxError ctx_error
  | HexError
  | IndexPanic

type_synonym hash = "byte list"

abbreviation wf_hash :: "hash \<Rightarrow> bool" where
  "wf_hash h \<equiv> length h = 32"

definition zero_hash :: hash where
  "zero_hash = replicate 32 0"

lemma length_zero_hash [simp]: "length zero_hash = 32"
  by (simp add: zero_hash_def)

text \<open>\<open>ParseHash\<close> and \<open>String\<close>: display order is the reverse of internal order.\<close>

definition ParseHash :: "string \<Rightarrow> basm_error + hash" where
  "ParseHash s =
     (if length s \<noteq> 32 * 2 then Inl ErrInvalidHash
      else if \<not> list_all is_lower_hex s then Inl ErrInvalidHash
      else case hex_decode s of
        None \<Rightarrow> Inl HexError
      | Some display \<Rightarrow> Inr (map (\<lambda>i. display ! (32 - 1 - i)) [0..<32]))"

definition HashString :: "hash \<Rightarrow> string" where
  "HashString h = hex_encode (map (\<lambda>i. h ! (32 - 1 - i)) [0..<32])"

definition MarshalText :: "hash \<Rightarrow> byte list" where
  "MarshalText h = bytes_of (HashString h)"

text \<open>The receiver is \<open>None\<close> for a nil pointer; the result is the new value behind it.\<close>

definition UnmarshalText :: "hash option \<Rightarrow> byte list \<Rightarrow> basm_error + hash" where
  "UnmarshalText h text = (case h of None \<Rightarrow> Inl ErrInvalidInput | Some _ \<Rightarrow> ParseHash (string_of text))"

lemma map_nth_rev: "length xs = 32 \<Longrightarrow> map (\<lambda>i. xs ! (32 - 1 - i)) [0..<32] = rev xs"
  by (rule nth_equalityI) (auto simp: rev_nth)

lemma HashString_rev: "wf_hash h \<Longrightarrow> HashString h = hex_encode (rev h)"
  by (simp only: HashString_def map_nth_rev)

lemma ParseHash_HashString: "wf_hash h \<Longrightarrow> ParseHash (HashString h) = Inr h"
  using map_nth_rev[of "rev h"]
  by (simp add: HashString_rev ParseHash_def list_all_iff hex_encode_lower del: upt_rec_numeral)

lemma ParseHash_Inr:
  assumes "ParseHash s = Inr h"
  shows "wf_hash h \<and> HashString h = s"
proof -
  have len: "length s = 64" and low: "\<And>c. c \<in> set s \<Longrightarrow> is_lower_hex c"
    using assms by (auto simp: ParseHash_def list_all_iff split: if_splits)
  obtain bs where bs: "hex_decode s = Some bs" "hex_encode bs = s" "2 * length bs = length s"
    using hex_encode_decode[of s] low len by auto
  then have "length bs = 32" using len by simp
  then have "h = rev bs" using assms bs len low map_nth_rev[of bs]
    by (simp add: ParseHash_def list_all_iff del: upt_rec_numeral)
  with bs \<open>length bs = 32\<close> show ?thesis by (simp add: HashString_rev)
qed

section \<open>Merkle root\<close>

definition doubleSHA256 :: "byte list \<Rightarrow> hash" where
  "doubleSHA256 input = (let first = sha256 input in sha256 first)"

definition hashPair :: "hash \<Rightarrow> hash \<Rightarrow> hash" where
  "hashPair left right = doubleSHA256 (left @ right)"

definition HashTACStep :: "hash \<Rightarrow> hash \<Rightarrow> hash \<Rightarrow> hash" where
  "HashTACStep previous blockHash root = doubleSHA256 (previous @ blockHash @ root)"

text \<open>
  The layer loop: \<open>left\<close> runs over the even positions, polls the context every 1024 positions
  and pairs the last node of an odd layer with itself.
\<close>

function hashMerkleLayer_from :: "hash list \<Rightarrow> nat \<Rightarrow> (basm_error, hash list) cm" where
  "hashMerkleLayer_from layer left =
     (if left < length layer then
        cbind (if left mod 1024 = 0 then cpoll CtxError else cret ()) (\<lambda>_.
          let right = (if left + 1 = length layer then left else left + 1) in
          cbind (hashMerkleLayer_from layer (left + 2)) (\<lambda>nxt.
            cret (hashPair (layer ! left) (layer ! right) # nxt)))
      else cret [])"
  by pat_completeness auto
termination
  by (relation "measure (\<lambda>(layer, left). length layer - left)") auto

declare hashMerkleLayer_from.simps [simp del]

definition hashMerkleLayer :: "hash list \<Rightarrow> (basm_error, hash list) cm" where
  "hashMerkleLayer layer = hashMerkleLayer_from layer 0"

text \<open>The pairs of a layer by structural recursion: the reference for the loop above.\<close>

fun pair_layer :: "hash list \<Rightarrow> hash list" where
  "pair_layer [] = []"
| "pair_layer [x] = [hashPair x x]"
| "pair_layer (x # y # xs) = hashPair x y # pair_layer xs"

lemma length_pair_layer [simp]: "length (pair_layer xs) = (length xs + 1) div 2"
  by (induction xs rule: pair_layer.induct) auto

lemma transparent_hashMerkleLayer_from [transparent_intros]:
  "transparent CtxError (hashMerkleLayer_from layer left)"
proof (induction layer left rule: hashMerkleLayer_from.induct)
  case (1 layer left)
  show ?case
  proof (cases "left < length layer")
    case True
    have IH: "transparent CtxError (hashMerkleLayer_from layer (left + 2))"
      using "1.IH"[OF True] by blast
    show ?thesis
      by (subst hashMerkleLayer_from.simps)
        (simp only: True if_True Let_def, intro transparent_cbind transparent_if transparent_cret
          transparent_cpoll IH)
  next
    case False
    then show ?thesis by (subst hashMerkleLayer_from.simps) (simp add: transparent_cret)
  qed
qed

lemma drop_two_nth: "Suc n < length xs \<Longrightarrow> drop n xs = xs ! n # xs ! Suc n # drop (Suc (Suc n)) xs"
  by (metis Cons_nth_drop_Suc Suc_lessD)

lemma hashMerkleLayer_from_Nil:
  "hashMerkleLayer_from layer left [] = (Inr (pair_layer (drop left layer)), [])"
proof (induction layer left rule: hashMerkleLayer_from.induct)
  case (1 layer left)
  show ?case
  proof (cases "left < length layer")
    case False
    then show ?thesis by (subst hashMerkleLayer_from.simps) (simp add: cret_def)
  next
    case True
    have poll: "(if left mod 1024 = 0 then cpoll CtxError else cret ()) [] = (Inr (), [])"
      by (simp add: cret_def)
    have rest: "hashMerkleLayer_from layer (left + 2) [] = (Inr (pair_layer (drop (left + 2) layer)), [])"
      using "1.IH"[OF True] by (simp add: cret_def)
    show ?thesis
    proof (cases "left + 1 = length layer")
      case True
      then have "drop left layer = [layer ! left]"
        by (metis Cons_nth_drop_Suc Suc_eq_plus1 drop_all le_refl lessI)
      with True poll rest show ?thesis
        by (subst hashMerkleLayer_from.simps) (simp add: cbind_Inr Let_def cret_def)
    next
      case False
      with True have "drop left layer = layer ! left # layer ! (left + 1) # drop (left + 2) layer"
        using drop_two_nth[of left layer] by simp
      with True False poll rest show ?thesis
        by (subst hashMerkleLayer_from.simps) (simp add: cbind_Inr Let_def cret_def)
    qed
  qed
qed

lemma hashMerkleLayer_Inr:
  "fst (hashMerkleLayer layer c) = Inr nxt \<Longrightarrow> nxt = pair_layer layer"
  using transparentD[OF transparent_hashMerkleLayer_from, of layer 0 c]
  by (simp add: hashMerkleLayer_def hashMerkleLayer_from_Nil)

lemma hashMerkleLayer_pairD:
  "(Inr nxt, c') = hashMerkleLayer layer c \<Longrightarrow> nxt = pair_layer layer"
  "hashMerkleLayer layer c = (Inr nxt, c') \<Longrightarrow> nxt = pair_layer layer"
  using hashMerkleLayer_Inr[of layer c nxt] by (metis fst_conv)+

text \<open>The outer loop. The last branch is the index panic an empty layer would cause.\<close>

function hashMerkleRoot :: "hash list \<Rightarrow> (basm_error, hash) cm" where
  "hashMerkleRoot layer c =
     (if 1 < length layer then
        (case cpoll CtxError c of
           (Inl e, c1) \<Rightarrow> (Inl e, c1)
         | (Inr _, c1) \<Rightarrow>
             (case hashMerkleLayer layer c1 of
                (Inl e, c2) \<Rightarrow> (Inl e, c2)
              | (Inr nxt, c2) \<Rightarrow> hashMerkleRoot nxt c2))
      else (case layer of [] \<Rightarrow> (Inl IndexPanic, c) | h # _ \<Rightarrow> (Inr h, c)))"
  by pat_completeness auto
termination
  by (relation "measure (\<lambda>(layer, c). length layer)") (auto dest!: hashMerkleLayer_pairD)

declare hashMerkleRoot.simps [simp del]

definition validateMerkleLeaves :: "bool \<Rightarrow> hash list \<Rightarrow> u32 \<Rightarrow> (basm_error, unit) cm" where
  "validateMerkleLeaves ctx_nil leaves maxLeaves =
     (if maxLeaves = 0 then clift (Inl ErrInvalidInput)
      else if unat maxLeaves < length leaves then clift (Inl ErrLimitExceeded)
      else if ctx_nil then clift (Inl ErrInvalidInput)
      else cpoll CtxError)"

definition Root :: "bool \<Rightarrow> hash list \<Rightarrow> u32 \<Rightarrow> (basm_error, hash) cm" where
  "Root ctx_nil leaves maxLeaves =
     cbind (validateMerkleLeaves ctx_nil leaves maxLeaves) (\<lambda>_.
       case leaves of
         [] \<Rightarrow> cret zero_hash
       | [h] \<Rightarrow> cret h
       | _ \<Rightarrow> hashMerkleRoot leaves)"

section \<open>The reference tree\<close>

function merkle :: "hash list \<Rightarrow> hash" where
  "merkle [] = zero_hash"
| "merkle [x] = x"
| "merkle (x # y # xs) = merkle (pair_layer (x # y # xs))"
  by pat_completeness auto
termination
  by (relation "measure length") auto

lemma merkle_pair: "1 < length xs \<Longrightarrow> merkle xs = merkle (pair_layer xs)"
  by (cases xs rule: pair_layer.cases) auto

lemma transparent_hashMerkleRoot [transparent_intros]: "transparent CtxError (hashMerkleRoot layer)"
proof (induction layer rule: merkle.induct)
  case 1
  show ?case by (auto simp: transparent_def hashMerkleRoot.simps)
next
  case (2 x)
  show ?case by (auto simp: transparent_def hashMerkleRoot.simps)
next
  case (3 x y xs)
  let ?l = "x # y # xs"
  have "hashMerkleRoot ?l = cbind (cpoll CtxError) (\<lambda>_. cbind (hashMerkleLayer ?l) (\<lambda>nxt.
      if nxt = pair_layer ?l then hashMerkleRoot nxt else clift (Inl IndexPanic)))"
  proof
    fix c
    show "hashMerkleRoot ?l c = cbind (cpoll CtxError) (\<lambda>_. cbind (hashMerkleLayer ?l) (\<lambda>nxt.
        if nxt = pair_layer ?l then hashMerkleRoot nxt else clift (Inl IndexPanic))) c"
      by (subst hashMerkleRoot.simps) (auto simp: cbind_def split: prod.splits sum.splits dest: hashMerkleLayer_pairD(2))
  qed
  then show ?case
    using 3 by (auto simp: hashMerkleLayer_def intro!: transparent_intros)
qed

lemma hashMerkleRoot_Nil: "layer \<noteq> [] \<Longrightarrow> hashMerkleRoot layer [] = (Inr (merkle layer), [])"
proof (induction layer rule: merkle.induct)
  case 1
  then show ?case by simp
next
  case (2 x)
  show ?case by (simp add: hashMerkleRoot.simps)
next
  case (3 x y xs)
  have "pair_layer (x # y # xs) \<noteq> []" by simp
  with 3 show ?case
    by (subst hashMerkleRoot.simps)
      (simp add: hashMerkleLayer_def hashMerkleLayer_from_Nil del: pair_layer.simps)
qed

lemma transparent_validateMerkleLeaves [transparent_intros]:
  "transparent CtxError (validateMerkleLeaves ctx_nil leaves maxLeaves)"
  by (auto simp: validateMerkleLeaves_def intro!: transparent_intros)

lemma transparent_Root [transparent_intros]: "transparent CtxError (Root ctx_nil leaves maxLeaves)"
  by (auto simp: Root_def intro!: transparent_intros split: list.splits)

lemma Root_Nil:
  "fst (Root ctx_nil leaves maxLeaves []) =
     (if maxLeaves = 0 then Inl ErrInvalidInput
      else if unat maxLeaves < length leaves then Inl ErrLimitExceeded
      else if ctx_nil then Inl ErrInvalidInput else Inr (merkle leaves))"
  by (auto simp: Root_def validateMerkleLeaves_def fst_cbind hashMerkleRoot_Nil
      split: list.splits)

lemma Root_Inr:
  assumes "fst (Root ctx_nil leaves maxLeaves c) = Inr h"
  shows "h = merkle leaves \<and> length leaves \<le> unat maxLeaves"
  using transparentD[OF transparent_Root assms] by (auto simp: Root_Nil split: if_splits)

section \<open>Binding\<close>

text \<open>
  Two lists of the same length with the same root are equal, or the computation of the two roots
  has hashed two different inputs to one value. The collision is among the inputs that the two
  computations hash, which \<open>merkle_inputs\<close> lists.
\<close>

fun layer_inputs :: "hash list \<Rightarrow> byte list list" where
  "layer_inputs [] = []"
| "layer_inputs [x] = [x @ x]"
| "layer_inputs (x # y # xs) = (x @ y) # layer_inputs xs"

function merkle_inputs :: "hash list \<Rightarrow> byte list list" where
  "merkle_inputs [] = []"
| "merkle_inputs [x] = []"
| "merkle_inputs (x # y # xs) = layer_inputs (x # y # xs) @ merkle_inputs (pair_layer (x # y # xs))"
  by pat_completeness auto
termination
  by (relation "measure length") (auto simp del: pair_layer.simps)

definition collides :: "byte list list \<Rightarrow> byte list list \<Rightarrow> bool" where
  "collides ps qs \<longleftrightarrow> (\<exists>p \<in> set ps. \<exists>q \<in> set qs. collision sha256d p q)"

lemma collides_mono: "collides ps qs \<Longrightarrow> set ps \<subseteq> set ps' \<Longrightarrow> set qs \<subseteq> set qs' \<Longrightarrow> collides ps' qs'"
  by (auto simp: collides_def)

lemma merkle_inputs_pair: "1 < length xs \<Longrightarrow> merkle_inputs xs = layer_inputs xs @ merkle_inputs (pair_layer xs)"
  by (cases xs rule: pair_layer.cases) auto

lemma doubleSHA256_sha256d: "doubleSHA256 m = sha256d m"
  by (simp add: doubleSHA256_def sha256d_def Let_def)

lemma length_hashPair [simp]: "length (hashPair a b) = 32"
  by (simp add: hashPair_def doubleSHA256_sha256d)

lemma length_HashTACStep [simp]: "length (HashTACStep a b c) = 32"
  by (simp add: HashTACStep_def doubleSHA256_sha256d)

lemma hashPair_eq:
  assumes "hashPair a b = hashPair c d" "length a = length c"
  shows "a = c \<and> b = d \<or> collision sha256d (a @ b) (c @ d)"
  using assms collisionI[of sha256d "a @ b" "c @ d"]
  by (auto simp: hashPair_def doubleSHA256_sha256d)

lemma pair_layer_eq:
  assumes "pair_layer xs = pair_layer ys" "length xs = length ys" "list_all wf_hash xs" "list_all wf_hash ys"
  shows "xs = ys \<or> collides (layer_inputs xs) (layer_inputs ys)"
  using assms
proof (induction xs arbitrary: ys rule: pair_layer.induct)
  case 1
  then show ?case by simp
next
  case (2 x)
  then obtain y where "ys = [y]" by (cases ys) auto
  with 2 show ?case using hashPair_eq[of x x y y] by (auto simp: collides_def)
next
  case (3 x x' xs)
  then obtain y y' zs where ys: "ys = y # y' # zs" by (cases ys rule: pair_layer.cases) auto
  with 3 have "xs = zs \<or> collides (layer_inputs xs) (layer_inputs zs)" by auto
  with 3 ys show ?case using hashPair_eq[of x x' y y'] by (auto simp: collides_def)
qed

lemma wf_pair_layer: "list_all wf_hash (pair_layer xs)"
  by (induction xs rule: pair_layer.induct) auto

lemma merkle_binding:
  assumes "merkle xs = merkle ys" "length xs = length ys" "list_all wf_hash xs" "list_all wf_hash ys"
  shows "xs = ys \<or> collides (merkle_inputs xs) (merkle_inputs ys)"
  using assms
proof (induction xs arbitrary: ys rule: merkle.induct)
  case 1
  then show ?case by simp
next
  case (2 x)
  then obtain y where "ys = [y]" by (cases ys) auto
  with 2 show ?case by simp
next
  case (3 x x' xs)
  let ?xs = "x # x' # xs"
  have long: "1 < length ?xs" "1 < length ys" using 3 by simp_all
  have "merkle ?xs = merkle (pair_layer ?xs)" "merkle ys = merkle (pair_layer ys)"
    using long by (simp_all only: merkle_pair)
  with 3 have "pair_layer ?xs = pair_layer ys \<or> collides (merkle_inputs (pair_layer ?xs)) (merkle_inputs (pair_layer ys))"
    by (intro "3.IH") (auto simp: wf_pair_layer simp del: pair_layer.simps)
  moreover have "?xs = ys \<or> collides (layer_inputs ?xs) (layer_inputs ys)" if "pair_layer ?xs = pair_layer ys"
    using pair_layer_eq[OF that] "3.prems" by blast
  ultimately show ?case
    using merkle_inputs_pair[OF long(1)] merkle_inputs_pair[OF long(2)]
    by (auto intro: collides_mono simp del: pair_layer.simps layer_inputs.simps merkle_inputs.simps)
qed

text \<open>
  An odd last leaf and the same leaf twice have one root: the reason why the admitted lists that
  the root commits to must not contain a transaction twice.
\<close>

lemma pair_layer_odd_dup: "odd (length (xs @ [x])) \<Longrightarrow> pair_layer (xs @ [x]) = pair_layer (xs @ [x, x])"
  by (induction xs rule: pair_layer.induct) auto

lemma merkle_odd_dup: "xs \<noteq> [] \<Longrightarrow> even (length xs) \<Longrightarrow> merkle (xs @ [x]) = merkle (xs @ [x, x])"
  using pair_layer_odd_dup[of xs x] by (cases xs) (simp_all add: merkle_pair)

section \<open>Properties\<close>

text \<open>The display form of a hash parses back to it, and \<open>ParseHash\<close> accepts nothing else.\<close>

theorem ParseHash_iff: "ParseHash s = Inr h \<longleftrightarrow> wf_hash h \<and> HashString h = s"
  using ParseHash_Inr ParseHash_HashString by blast

text \<open>
  C24: \<open>Root\<close> is the Bitcoin Merkle root with its guards in their order, whatever the context answers;
  a cancelled context can only replace the answer by the context's error.
\<close>

theorem Root_correct:
  "fst (Root ctx_nil leaves maxLeaves c) =
     (if maxLeaves = 0 then Inl ErrInvalidInput
      else if unat maxLeaves < length leaves then Inl ErrLimitExceeded
      else if ctx_nil then Inl ErrInvalidInput else Inr (merkle leaves)) \<or>
   (\<exists>e. fst (Root ctx_nil leaves maxLeaves c) = Inl (CtxError e))"
  using transparent_cases[OF transparent_Root, of ctx_nil leaves maxLeaves c] Root_Nil by metis

text \<open>
  Two leaf lists of the same length with the same accepted root are equal, unless the two root
  computations exhibit a SHA256d collision among the inputs they hash.
\<close>

theorem Root_binding:
  assumes "fst (Root nil1 xs m1 c1) = Inr h" "fst (Root nil2 ys m2 c2) = Inr h" "length xs = length ys"
    and "list_all wf_hash xs" "list_all wf_hash ys"
  shows "xs = ys \<or> collides (merkle_inputs xs) (merkle_inputs ys)"
  using assms Root_Inr[OF assms(1)] Root_Inr[OF assms(2)] by (intro merkle_binding) auto

theorem Root_binding_witness:
  "[zero_hash] = [zero_hash] \<or> collides (merkle_inputs [zero_hash]) (merkle_inputs [zero_hash])"
  by (rule Root_binding[of False "[zero_hash]" 1 "[]" zero_hash False "[zero_hash]" 1 "[]"])
    (simp_all add: Root_Nil)

end
