(* ===== verification/Basm_Values.thy ===== *)
theory Basm_Values
  imports Basm_Hash
begin

text \<open>
  \<^verbatim>\<open>pkg/core/basm/values.go\<close> and \<^verbatim>\<open>chain.go\<close>: the local limits, topic block anchors, admitted
  lists and their validation, height ranges, and the immutable topic anchor chain (TAC).
\<close>

section \<open>Limits and anchors\<close>

definition MaxSafeJSONInteger :: u64 where
  "MaxSafeJSONInteger = push_bit 53 1 - 1"

record Limits =
  MaxAdmitted :: u32
  MaxRange :: u32
  MaxJSONBytes :: u32
  MaxTopicBytes :: u32

definition DefaultLimits :: Limits where
  "DefaultLimits =
     \<lparr>MaxAdmitted = 100000, MaxRange = 1024, MaxJSONBytes = push_bit 20 16, MaxTopicBytes = 256\<rparr>"

definition Limits_validate :: "Limits \<Rightarrow> basm_error + unit" where
  "Limits_validate l =
     (if MaxAdmitted l = 0 \<or> MaxRange l = 0 \<or> MaxJSONBytes l = 0 \<or> MaxTopicBytes l = 0
      then Inl ErrInvalidInput else Inr ())"

record TopicBlockAnchor =
  Topic :: string
  BlockHeight :: u32
  BlockHash :: hash
  BASMRoot :: hash
  AdmittedCount :: u64

definition validateTopic :: "string \<Rightarrow> u32 \<Rightarrow> basm_error + unit" where
  "validateTopic topic maxBytes =
     (if length topic = 0 \<or> unat maxBytes < length topic \<or> \<not> utf8_valid (bytes_of topic)
      then Inl ErrInvalidInput else Inr ())"

definition AnchorValidate :: "TopicBlockAnchor \<Rightarrow> Limits \<Rightarrow> basm_error + unit" where
  "AnchorValidate a limits =
     rbind (Limits_validate limits) (\<lambda>_.
     rbind (validateTopic (Topic a) (MaxTopicBytes limits)) (\<lambda>_.
       if ucast (MaxAdmitted limits) < AdmittedCount a then Inl ErrLimitExceeded
       else if AdmittedCount a = 0 \<and> BASMRoot a \<noteq> zero_hash then Inl ErrInconsistent
       else Inr ()))"

lemma Limits_validate_Inr [simp]:
  "Limits_validate l = Inr u \<longleftrightarrow>
     MaxAdmitted l \<noteq> 0 \<and> MaxRange l \<noteq> 0 \<and> MaxJSONBytes l \<noteq> 0 \<and> MaxTopicBytes l \<noteq> 0"
  by (auto simp: Limits_validate_def)

lemma validateTopic_Inr [simp]:
  "validateTopic t m = Inr u \<longleftrightarrow> t \<noteq> [] \<and> length t \<le> unat m \<and> utf8_valid (bytes_of t)"
  by (auto simp: validateTopic_def)

lemma AnchorValidate_Inr:
  "AnchorValidate a l = Inr u \<longleftrightarrow>
     Limits_validate l = Inr () \<and> validateTopic (Topic a) (MaxTopicBytes l) = Inr () \<and>
     AdmittedCount a \<le> ucast (MaxAdmitted l) \<and> (AdmittedCount a = 0 \<longrightarrow> BASMRoot a = zero_hash)"
  by (auto simp: AnchorValidate_def rbind_Inr_iff not_less)

section \<open>Admitted lists\<close>

record AdmittedTxRef =
  TxID :: hash
  BlockIndex :: u64

definition admittedListBounds ::
  "bool \<Rightarrow> AdmittedTxRef list \<Rightarrow> u64 \<Rightarrow> Limits \<Rightarrow> (basm_error, unit) cm" where
  "admittedListBounds ctx_nil admitted blockTxCount limits =
     cbind (clift (Limits_validate limits)) (\<lambda>_.
       if ctx_nil then clift (Inl ErrInvalidInput)
       else cbind (cpoll CtxError) (\<lambda>_.
         if blockTxCount = 0 \<or> MaxSafeJSONInteger < blockTxCount then clift (Inl ErrInvalidInput)
         else if unat (MaxAdmitted limits) < length admitted then clift (Inl ErrLimitExceeded)
         else cret ()))"

definition checkAdmittedEntry ::
  "nat \<Rightarrow> AdmittedTxRef \<Rightarrow> u64 \<Rightarrow> u64 \<Rightarrow> hash set \<Rightarrow> (basm_error, unit) cm" where
  "checkAdmittedEntry i ref previousIndex blockTxCount seen =
     cbind (if i mod 256 = 0 then cpoll CtxError else cret ()) (\<lambda>_.
       if blockTxCount \<le> BlockIndex ref then clift (Inl ErrInconsistent)
       else if 0 < i \<and> BlockIndex ref \<le> previousIndex then clift (Inl ErrInconsistent)
       else if TxID ref \<in> seen then clift (Inl ErrInconsistent)
       else cret ())"

text \<open>The loop of \<open>admittedLeaves\<close> from entry \<open>i\<close> on.\<close>

fun admittedLeaves_from ::
  "nat \<Rightarrow> u64 \<Rightarrow> hash set \<Rightarrow> u64 \<Rightarrow> AdmittedTxRef list \<Rightarrow> (basm_error, hash list) cm" where
  "admittedLeaves_from i previousIndex seen blockTxCount [] = cret []"
| "admittedLeaves_from i previousIndex seen blockTxCount (ref # admitted) =
     cbind (checkAdmittedEntry i ref previousIndex blockTxCount seen) (\<lambda>_.
     cbind (admittedLeaves_from (Suc i) (BlockIndex ref) (insert (TxID ref) seen) blockTxCount admitted)
       (\<lambda>leaves. cret (TxID ref # leaves)))"

definition admittedLeaves :: "AdmittedTxRef list \<Rightarrow> u64 \<Rightarrow> (basm_error, hash list) cm" where
  "admittedLeaves admitted blockTxCount = admittedLeaves_from 0 0 {} blockTxCount admitted"

definition ValidateAdmittedList ::
  "bool \<Rightarrow> AdmittedTxRef list \<Rightarrow> u64 \<Rightarrow> Limits \<Rightarrow> (basm_error, hash) cm" where
  "ValidateAdmittedList ctx_nil admitted blockTxCount limits =
     cbind (admittedListBounds ctx_nil admitted blockTxCount limits) (\<lambda>_.
     cbind (admittedLeaves admitted blockTxCount) (\<lambda>leaves.
       Root ctx_nil leaves (MaxAdmitted limits)))"

definition ValidateAnchorList ::
  "bool \<Rightarrow> TopicBlockAnchor \<Rightarrow> AdmittedTxRef list \<Rightarrow> u64 \<Rightarrow> Limits \<Rightarrow> (basm_error, unit) cm" where
  "ValidateAnchorList ctx_nil anchor admitted blockTxCount limits =
     cbind (clift (AnchorValidate anchor limits)) (\<lambda>_.
       if unat (AdmittedCount anchor) \<noteq> length admitted then clift (Inl ErrInconsistent)
       else cbind (ValidateAdmittedList ctx_nil admitted blockTxCount limits) (\<lambda>root.
         if root \<noteq> BASMRoot anchor then clift (Inl ErrInconsistent) else cret ()))"

text \<open>What an accepted list is, without the loop.\<close>

definition admitted_list_ok :: "AdmittedTxRef list \<Rightarrow> u64 \<Rightarrow> bool" where
  "admitted_list_ok admitted n \<longleftrightarrow>
     (\<forall>r \<in> set admitted. BlockIndex r < n) \<and>
     sorted_wrt (<) (map BlockIndex admitted) \<and> distinct (map TxID admitted)"

lemma transparent_checkAdmittedEntry [transparent_intros]:
  "transparent CtxError (checkAdmittedEntry i ref p n seen)"
  by (auto simp: checkAdmittedEntry_def intro!: transparent_intros)

lemma transparent_admittedLeaves_from [transparent_intros]:
  "transparent CtxError (admittedLeaves_from i p seen n admitted)"
  by (induction admitted arbitrary: i p seen) (auto intro!: transparent_intros)

lemma transparent_admittedListBounds [transparent_intros]:
  "transparent CtxError (admittedListBounds ctx_nil admitted n limits)"
  by (auto simp: admittedListBounds_def intro!: transparent_intros)

lemma transparent_ValidateAdmittedList [transparent_intros]:
  "transparent CtxError (ValidateAdmittedList ctx_nil admitted n limits)"
  by (auto simp: ValidateAdmittedList_def admittedLeaves_def intro!: transparent_intros)

lemma transparent_ValidateAnchorList [transparent_intros]:
  "transparent CtxError (ValidateAnchorList ctx_nil anchor admitted n limits)"
  by (auto simp: ValidateAnchorList_def intro!: transparent_intros)

lemma checkAdmittedEntry_Nil:
  "checkAdmittedEntry i ref p n seen [] =
     (if BlockIndex ref < n \<and> (0 < i \<longrightarrow> p < BlockIndex ref) \<and> TxID ref \<notin> seen
      then (Inr (), []) else (Inl ErrInconsistent, []))"
proof -
  have "(if i mod 256 = 0 then cpoll CtxError else cret ()) [] = (Inr (), [])" by (simp add: cret_def)
  then show ?thesis
    by (auto simp: checkAdmittedEntry_def cbind_Inr clift_def cret_def not_less)
qed

lemma admittedLeaves_from_Nil:
  "fst (admittedLeaves_from i p seen n admitted []) = Inr leaves \<longleftrightarrow>
     leaves = map TxID admitted \<and> (\<forall>r \<in> set admitted. BlockIndex r < n) \<and>
     sorted_wrt (<) ((if 0 < i then [p] else []) @ map BlockIndex admitted) \<and>
     distinct (map TxID admitted) \<and> TxID ` set admitted \<inter> seen = {}"
proof (induction admitted arbitrary: i p seen leaves)
  case Nil
  then show ?case by auto
next
  case (Cons r admitted)
  have tail: "fst (admittedLeaves_from (Suc i) (BlockIndex r) (insert (TxID r) seen) n admitted []) = Inr ls \<longleftrightarrow>
      ls = map TxID admitted \<and> (\<forall>r \<in> set admitted. BlockIndex r < n) \<and>
      sorted_wrt (<) (BlockIndex r # map BlockIndex admitted) \<and>
      distinct (map TxID admitted) \<and> TxID ` set admitted \<inter> insert (TxID r) seen = {}" for ls
    using Cons.IH[of "Suc i" "BlockIndex r" "insert (TxID r) seen" ls] by simp
  show ?case
    unfolding admittedLeaves_from.simps fst_cbind rbind_Inr_iff
    by (simp add: checkAdmittedEntry_Nil tail) (auto dest: less_trans)
qed

lemma ValidateAdmittedList_Nil:
  "fst (ValidateAdmittedList ctx_nil admitted n limits []) = Inr root \<longleftrightarrow>
     Limits_validate limits = Inr () \<and> \<not> ctx_nil \<and> n \<noteq> 0 \<and> n \<le> MaxSafeJSONInteger \<and>
     length admitted \<le> unat (MaxAdmitted limits) \<and> admitted_list_ok admitted n \<and>
     root = merkle (map TxID admitted)"
proof -
  have bounds_iff: "fst (admittedListBounds ctx_nil admitted n limits []) = Inr u \<longleftrightarrow>
      Limits_validate limits = Inr () \<and> \<not> ctx_nil \<and> n \<noteq> 0 \<and> n \<le> MaxSafeJSONInteger \<and>
      length admitted \<le> unat (MaxAdmitted limits)" for u
    by (auto simp: admittedListBounds_def fst_cbind rbind_Inr_iff not_less)
  note no_polls_left = transparent_snd[OF transparent_admittedListBounds]
    transparent_snd[OF transparent_admittedLeaves_from]
  show ?thesis
    unfolding ValidateAdmittedList_def fst_cbind rbind_Inr_iff bounds_iff admittedLeaves_def
    by (auto simp: admittedLeaves_from_Nil no_polls_left Root_Nil admitted_list_ok_def split: if_splits)
qed

lemma ValidateAdmittedList_Inr:
  assumes "fst (ValidateAdmittedList ctx_nil admitted n limits c) = Inr root"
  shows "admitted_list_ok admitted n \<and> length admitted \<le> unat (MaxAdmitted limits) \<and>
    root = merkle (map TxID admitted)"
  using transparentD[OF transparent_ValidateAdmittedList assms]
  by (simp add: ValidateAdmittedList_Nil)

lemma ValidateAnchorList_Nil:
  "fst (ValidateAnchorList ctx_nil anchor admitted n limits []) = Inr u \<longleftrightarrow>
     AnchorValidate anchor limits = Inr () \<and> unat (AdmittedCount anchor) = length admitted \<and>
     fst (ValidateAdmittedList ctx_nil admitted n limits []) = Inr (BASMRoot anchor)"
  by (auto simp: ValidateAnchorList_def fst_cbind rbind_Inr_iff)

lemma ValidateAnchorList_Inr:
  assumes "fst (ValidateAnchorList ctx_nil anchor admitted n limits c) = Inr u"
  shows "AnchorValidate anchor limits = Inr () \<and> unat (AdmittedCount anchor) = length admitted \<and>
    admitted_list_ok admitted n \<and> merkle (map TxID admitted) = BASMRoot anchor"
  using transparentD[OF transparent_ValidateAnchorList assms]
  by (auto simp: ValidateAnchorList_Nil ValidateAdmittedList_Nil)

section \<open>Height ranges\<close>

definition ValidateRange :: "u32 \<Rightarrow> u32 \<Rightarrow> u32 \<Rightarrow> basm_error + u32" where
  "ValidateRange fromHeight toHeight maxHeights =
     (if maxHeights = 0 \<or> toHeight < fromHeight then Inl ErrInvalidInput
      else let count = (ucast toHeight - ucast fromHeight + 1 :: u64) in
        if ucast maxHeights < count then Inl ErrLimitExceeded else Inr (ucast count))"

lemma range_count:
  assumes "fromHeight \<le> toHeight"
  shows "unat (ucast (toHeight :: u32) - ucast (fromHeight :: u32) + 1 :: u64) = unat toHeight - unat fromHeight + 1"
proof -
  have le: "(ucast fromHeight :: u64) \<le> ucast toHeight"
    using assms by (simp add: word_le_nat_alt)
  have sub: "unat (ucast toHeight - ucast fromHeight :: u64) = unat toHeight - unat fromHeight"
    using le by (simp add: unat_sub)
  have "unat toHeight - unat fromHeight + 1 < 18446744073709551616"
    using unat_lt_u32[of toHeight] by linarith
  then show ?thesis by (subst unat_word_ariths) (simp add: sub)
qed

lemma ValidateRange_Inr:
  "ValidateRange f t m = Inr k \<longleftrightarrow>
     f \<le> t \<and> unat t - unat f + 1 \<le> unat m \<and> unat k = unat t - unat f + 1"
proof (cases "f \<le> t")
  case False
  then show ?thesis by (auto simp: ValidateRange_def not_le)
next
  case True
  let ?c = "ucast t - ucast f + 1 :: u64"
  note c = range_count[OF True]
  have "ucast m < ?c \<longleftrightarrow> unat m < unat t - unat f + 1"
    by (simp only: word_less_nat_alt c) simp
  moreover have "unat (ucast ?c :: u32) = unat t - unat f + 1" if "unat t - unat f + 1 \<le> unat m"
  proof -
    have "unat t - unat f + 1 < 2 ^ 32" using that unat_lt_u32[of m] by simp
    then show ?thesis by (simp only: unsigned_ucast_eq c) (simp add: take_bit_eq_mod)
  qed
  ultimately show ?thesis
    using True by (auto simp: ValidateRange_def Let_def word_unat_eq_iff split: if_splits)
qed

section \<open>The topic anchor chain\<close>

record Chain =
  chain_topic :: string
  chain_genesis :: u32
  chain_limits :: Limits
  chain_height :: u32
  chain_tac :: hash
  hasTip :: bool

definition NewChain :: "string \<Rightarrow> u32 \<Rightarrow> Limits \<Rightarrow> basm_error + Chain" where
  "NewChain t genesisHeight l =
     rbind (Limits_validate l) (\<lambda>_.
     rbind (validateTopic t (MaxTopicBytes l)) (\<lambda>_.
       Inr \<lparr>chain_topic = t, chain_genesis = genesisHeight, chain_limits = l, chain_height = 0, chain_tac = zero_hash, hasTip = False\<rparr>))"

text \<open>An error leaves the caller with the chain it had, which the model keeps by not returning one.\<close>

definition Append :: "Chain \<Rightarrow> TopicBlockAnchor \<Rightarrow> basm_error + Chain" where
  "Append c anchor =
     rbind (AnchorValidate anchor (chain_limits c)) (\<lambda>_.
       if Topic anchor \<noteq> chain_topic c then Inl ErrNoncontiguous
       else if hasTip c \<and> chain_height c = 0xFFFFFFFF then Inl ErrNoncontiguous
       else let expected = (if hasTip c then chain_height c + 1 else chain_genesis c) in
         if BlockHeight anchor \<noteq> expected then Inl ErrNoncontiguous
         else Inr (c\<lparr>chain_tac := HashTACStep (chain_tac c) (BlockHash anchor) (BASMRoot anchor),
                     chain_height := BlockHeight anchor, hasTip := True\<rparr>))"

definition Tip :: "Chain \<Rightarrow> u32 \<times> hash \<times> bool" where
  "Tip c = (chain_height c, chain_tac c, hasTip c)"

fun append_all :: "Chain \<Rightarrow> TopicBlockAnchor list \<Rightarrow> basm_error + Chain" where
  "append_all c [] = Inr c"
| "append_all c (a # as) = rbind (Append c a) (\<lambda>c'. append_all c' as)"

fun tac_from :: "hash \<Rightarrow> TopicBlockAnchor list \<Rightarrow> hash" where
  "tac_from t [] = t"
| "tac_from t (a # as) = tac_from (HashTACStep t (BlockHash a) (BASMRoot a)) as"

text \<open>The height the next anchor must have, as a number that may exceed 32 bits.\<close>

definition next_height :: "Chain \<Rightarrow> nat" where
  "next_height c = (if hasTip c then unat (chain_height c) + 1 else unat (chain_genesis c))"

lemma Append_Inr:
  "Append c a = Inr c' \<longleftrightarrow>
     AnchorValidate a (chain_limits c) = Inr () \<and> Topic a = chain_topic c \<and> unat (BlockHeight a) = next_height c \<and>
     c' = c\<lparr>chain_tac := HashTACStep (chain_tac c) (BlockHash a) (BASMRoot a), chain_height := BlockHeight a, hasTip := True\<rparr>"
proof -
  have "h \<noteq> 0xFFFFFFFF \<and> b = h + 1 \<longleftrightarrow> unat b = unat h + 1" for h b :: u32
  proof (cases "h = 0xFFFFFFFF")
    case True
    with unat_lt_u32[of b] show ?thesis by simp
  next
    case False
    have "unat h \<noteq> 4294967295" using False by (auto simp: word_unat_eq_iff)
    then have "unat (h + 1) = unat h + 1"
      using unat_lt_u32[of h] by (subst unat_word_ariths) simp
    with False show ?thesis by (auto simp: word_unat_eq_iff)
  qed
  then show ?thesis
    by (auto simp: Append_def rbind_Inr_iff next_height_def Let_def word_unat_eq_iff[of _ "chain_genesis c"]
        less_imp_neq[OF unat_lt_u32] split: if_splits)
qed

lemma Append_next_height: "Append c a = Inr c' \<Longrightarrow> next_height c' = Suc (next_height c)"
  by (auto simp: Append_Inr next_height_def)

lemma append_all_Inr:
  "append_all c as = Inr c' \<Longrightarrow>
     chain_topic c' = chain_topic c \<and> chain_genesis c' = chain_genesis c \<and> chain_limits c' = chain_limits c \<and>
     chain_tac c' = tac_from (chain_tac c) as \<and> next_height c' = next_height c + length as \<and>
     (\<forall>a \<in> set as. Topic a = chain_topic c \<and> AnchorValidate a (chain_limits c) = Inr ()) \<and>
     (\<forall>i < length as. unat (BlockHeight (as ! i)) = next_height c + i)"
proof (induction as arbitrary: c)
  case Nil
  then show ?case by simp
next
  case (Cons a as)
  then obtain d where d: "Append c a = Inr d" "append_all d as = Inr c'"
    by (auto simp: rbind_Inr_iff)
  note IH = Cons.IH[OF d(2)] and nh = Append_next_height[OF d(1)]
  have dc: "chain_topic d = chain_topic c" "chain_genesis d = chain_genesis c" "chain_limits d = chain_limits c"
    "chain_tac d = HashTACStep (chain_tac c) (BlockHash a) (BASMRoot a)"
    using d(1) by (auto simp: Append_Inr)
  have "unat (BlockHeight ((a # as) ! i)) = next_height c + i" if "i < length (a # as)" for i
    using that IH nh d(1) by (cases i) (auto simp: Append_Inr)
  with IH nh dc d(1) show ?case by (auto simp: Append_Inr)
qed

lemma append_all_tip:
  "append_all c as = Inr c' \<Longrightarrow> as \<noteq> [] \<Longrightarrow> hasTip c' \<and> chain_height c' = BlockHeight (last as)"
proof (induction as arbitrary: c)
  case Nil
  then show ?case by simp
next
  case (Cons a as)
  then obtain d where "Append c a = Inr d" "append_all d as = Inr c'" by (auto simp: rbind_Inr_iff)
  with Cons show ?case by (cases "as = []") (auto simp: Append_Inr)
qed

text \<open>Equal chain values over lists of the same length mean equal histories, or a hash collision.\<close>

lemma tac_from_snoc: "tac_from t (as @ [a]) = HashTACStep (tac_from t as) (BlockHash a) (BASMRoot a)"
  by (induction as arbitrary: t) auto

lemma length_tac_from: "length t = 32 \<Longrightarrow> length (tac_from t as) = 32"
  by (induction as arbitrary: t) auto

fun tac_inputs :: "hash \<Rightarrow> TopicBlockAnchor list \<Rightarrow> byte list list" where
  "tac_inputs t [] = []"
| "tac_inputs t (a # as) =
     (t @ BlockHash a @ BASMRoot a) # tac_inputs (HashTACStep t (BlockHash a) (BASMRoot a)) as"

lemma tac_inputs_snoc: "tac_inputs t (as @ [a]) = tac_inputs t as @ [tac_from t as @ BlockHash a @ BASMRoot a]"
  by (induction as arbitrary: t) auto

lemma tac_binding:
  assumes "tac_from t as = tac_from t bs" "length as = length bs" "length t = 32"
    and "\<And>a. a \<in> set as \<union> set bs \<Longrightarrow> wf_hash (BlockHash a) \<and> wf_hash (BASMRoot a)"
  shows "map (\<lambda>a. (BlockHash a, BASMRoot a)) as = map (\<lambda>a. (BlockHash a, BASMRoot a)) bs \<or>
    collides (tac_inputs t as) (tac_inputs t bs)"
  using assms
proof (induction as arbitrary: bs rule: rev_induct)
  case Nil
  then show ?case by simp
next
  case (snoc a as)
  then obtain b bs' where bs: "bs = bs' @ [b]" by (cases bs rule: rev_cases) auto
  let ?p = "tac_from t as @ BlockHash a @ BASMRoot a" and ?q = "tac_from t bs' @ BlockHash b @ BASMRoot b"
  have "sha256d ?p = sha256d ?q"
    using snoc.prems(1) bs by (simp add: tac_from_snoc HashTACStep_def doubleSHA256_sha256d)
  then consider "?p = ?q" | "collision sha256d ?p ?q" using collisionI by blast
  then show ?case
  proof cases
    case 1
    have w: "length (BlockHash a) = length (BlockHash b)"
      using snoc.prems(4)[of a] snoc.prems(4)[of b] bs by simp
    from 1 have "tac_from t as = tac_from t bs'" "BlockHash a = BlockHash b" "BASMRoot a = BASMRoot b"
      using w by (auto simp: length_tac_from snoc.prems(3))
    moreover have "map (\<lambda>a. (BlockHash a, BASMRoot a)) as = map (\<lambda>a. (BlockHash a, BASMRoot a)) bs' \<or>
        collides (tac_inputs t as) (tac_inputs t bs')"
      using snoc.prems bs \<open>tac_from t as = tac_from t bs'\<close> by (intro snoc.IH) auto
    ultimately show ?thesis using bs by (auto simp: tac_inputs_snoc intro: collides_mono)
  next
    case 2
    then show ?thesis using bs by (auto simp: tac_inputs_snoc collides_def)
  qed
qed

section \<open>Properties\<close>

text \<open>
  C5: without a cancellation, a list is accepted for an anchor exactly when the anchor is valid, the
  counts agree, the entries are in strictly increasing block order inside the block, no
  transaction occurs twice, and the anchor's root is the Merkle root of the transaction ids.
\<close>

theorem ValidateAnchorList_iff:
  "fst (ValidateAnchorList ctx_nil anchor admitted n l []) = Inr () \<longleftrightarrow>
     \<not> ctx_nil \<and> AnchorValidate anchor l = Inr () \<and> n \<noteq> 0 \<and> n \<le> MaxSafeJSONInteger \<and>
     unat (AdmittedCount anchor) = length admitted \<and> length admitted \<le> unat (MaxAdmitted l) \<and>
     admitted_list_ok admitted n \<and> BASMRoot anchor = merkle (map TxID admitted)"
  by (auto simp: ValidateAnchorList_Nil ValidateAdmittedList_Nil AnchorValidate_Inr)

text \<open>
  C6: an anchor commits to its admitted list. Two lists that are accepted for one anchor have the
  same transaction ids in the same order, or the acceptance exhibits a SHA256d collision.
\<close>

theorem anchor_commits_to_list:
  assumes "fst (ValidateAnchorList nil1 anchor as n1 l1 c1) = Inr u" "fst (ValidateAnchorList nil2 anchor bs n2 l2 c2) = Inr v"
    and "\<forall>r \<in> set (as @ bs). wf_hash (TxID r)"
  shows "map TxID as = map TxID bs \<or> collides (merkle_inputs (map TxID as)) (merkle_inputs (map TxID bs))"
  using assms ValidateAnchorList_Inr[OF assms(1)] ValidateAnchorList_Inr[OF assms(2)]
  by (intro merkle_binding) (auto simp: list_all_iff)

definition demo_anchor :: TopicBlockAnchor where
  "demo_anchor = \<lparr>Topic = ''tm_demo'', BlockHeight = 7, BlockHash = zero_hash, BASMRoot = replicate 32 1, AdmittedCount = 1\<rparr>"

definition demo_refs :: "AdmittedTxRef list" where
  "demo_refs = [\<lparr>TxID = replicate 32 1, BlockIndex = 3\<rparr>]"

lemma demo_accepted: "fst (ValidateAnchorList False demo_anchor demo_refs 4 DefaultLimits []) = Inr ()"
proof -
  have "validateTopic ''tm_demo'' 256 = Inr ()" by code_simp
  then have "AnchorValidate demo_anchor DefaultLimits = Inr ()"
    by (simp add: AnchorValidate_Inr demo_anchor_def DefaultLimits_def)
  moreover have "(4 :: u64) \<le> MaxSafeJSONInteger" by code_simp
  ultimately show ?thesis
    by (simp add: ValidateAnchorList_Nil ValidateAdmittedList_Nil admitted_list_ok_def)
       (simp add: demo_refs_def demo_anchor_def DefaultLimits_def)
qed

theorem anchor_commits_to_list_witness:
  "map TxID demo_refs = map TxID demo_refs \<or> collides (merkle_inputs (map TxID demo_refs)) (merkle_inputs (map TxID demo_refs))"
  by (rule anchor_commits_to_list[OF demo_accepted demo_accepted]) (simp add: demo_refs_def)

text \<open>A range is accepted exactly when it is not empty and not too long, and the count is exact: nothing wraps.\<close>

theorem ValidateRange_iff:
  "ValidateRange f t m = Inr k \<longleftrightarrow> f \<le> t \<and> unat t - unat f + 1 \<le> unat m \<and> unat k = unat t - unat f + 1"
  by (rule ValidateRange_Inr)

text \<open>
  C8: a chain built from its genesis accepts anchors of its own topic at consecutive heights only,
  never past the last 32-bit height, and its tip holds the chained hash of all of them.
\<close>

theorem chain_contiguous:
  assumes "NewChain t g l = Inr c" "append_all c as = Inr c'"
  shows "(\<forall>i < length as. Topic (as ! i) = t \<and> unat (BlockHeight (as ! i)) = unat g + i) \<and>
    unat g + length as \<le> 2 ^ 32 \<and>
    Tip c' = (if as = [] then 0 else BlockHeight (last as), tac_from zero_hash as, as \<noteq> [])"
proof -
  have c: "chain_topic c = t" "next_height c = unat g" "chain_tac c = zero_hash" "\<not> hasTip c" "chain_height c = 0"
    using assms(1) by (auto simp: NewChain_def rbind_Inr_iff next_height_def)
  note all = append_all_Inr[OF assms(2)]
  have "unat g + length as \<le> 2 ^ 32"
  proof (cases as rule: rev_cases)
    case Nil
    then show ?thesis using unat_lt_u32[of g] by simp
  next
    case (snoc xs a)
    then have "unat (BlockHeight a) = unat g + length xs" using all c(2) by (auto simp: nth_append)
    then show ?thesis using snoc unat_lt_u32[of "BlockHeight a"] by simp
  qed
  moreover have "Tip c' = (if as = [] then 0 else BlockHeight (last as), tac_from zero_hash as, as \<noteq> [])"
    using append_all_tip[OF assms(2)] all c assms(2) by (cases "as = []") (auto simp: Tip_def)
  ultimately show ?thesis using all c by auto
qed

lemma demo_chain:
  "\<exists>c c'. NewChain ''tm_demo'' 7 DefaultLimits = Inr c \<and> append_all c [demo_anchor] = Inr c'"
proof -
  have top: "validateTopic ''tm_demo'' 256 = Inr ()" by code_simp
  then have val: "AnchorValidate demo_anchor DefaultLimits = Inr ()"
    by (simp add: AnchorValidate_Inr demo_anchor_def DefaultLimits_def)
  let ?c = "\<lparr>chain_topic = ''tm_demo'', chain_genesis = 7, chain_limits = DefaultLimits, chain_height = 0,
    chain_tac = zero_hash, hasTip = False\<rparr>"
  have new: "NewChain ''tm_demo'' 7 DefaultLimits = Inr ?c"
    using top by (simp add: NewChain_def rbind_Inr_iff DefaultLimits_def)
  have "next_height ?c = 7" by (simp add: next_height_def)
  then have "\<exists>c'. append_all ?c [demo_anchor] = Inr c'"
    using val by (simp add: rbind_Inr_iff Append_Inr demo_anchor_def)
  with new show ?thesis by blast
qed

theorem chain_contiguous_witness:
  "\<exists>c c'. NewChain ''tm_demo'' 7 DefaultLimits = Inr c \<and> append_all c [demo_anchor] = Inr c' \<and>
     fst (Tip c') = 7"
proof -
  obtain c c' where c: "NewChain ''tm_demo'' 7 DefaultLimits = Inr c" "append_all c [demo_anchor] = Inr c'"
    using demo_chain by blast
  have "fst (Tip c') = 7"
    using chain_contiguous[OF c] by (simp add: demo_anchor_def)
  with c show ?thesis by blast
qed

text \<open>
  Two chains over the same topic and genesis, of the same length and with the same chain value,
  have the same block hashes and roots, or their computation exhibits a SHA256d collision.
\<close>

theorem chain_binding:
  assumes "NewChain t g l = Inr c" "append_all c as = Inr c1" "append_all c bs = Inr c2"
    and "length as = length bs" "fst (snd (Tip c1)) = fst (snd (Tip c2))"
    and "\<forall>a \<in> set (as @ bs). wf_hash (BlockHash a) \<and> wf_hash (BASMRoot a)"
  shows "map (\<lambda>a. (BlockHash a, BASMRoot a)) as = map (\<lambda>a. (BlockHash a, BASMRoot a)) bs \<or>
    collides (tac_inputs zero_hash as) (tac_inputs zero_hash bs)"
proof -
  have "chain_tac c = zero_hash" using assms(1) by (auto simp: NewChain_def rbind_Inr_iff)
  then have "tac_from zero_hash as = tac_from zero_hash bs"
    using append_all_Inr[OF assms(2)] append_all_Inr[OF assms(3)] assms(5) by (simp add: Tip_def)
  then show ?thesis using assms(4,6) by (intro tac_binding) auto
qed

theorem chain_binding_witness:
  "\<exists>c c'. NewChain ''tm_demo'' 7 DefaultLimits = Inr c \<and> append_all c [demo_anchor] = Inr c' \<and>
     (map (\<lambda>a. (BlockHash a, BASMRoot a)) [demo_anchor] = map (\<lambda>a. (BlockHash a, BASMRoot a)) [demo_anchor] \<or>
      collides (tac_inputs zero_hash [demo_anchor]) (tac_inputs zero_hash [demo_anchor]))"
proof -
  obtain c c' where c: "NewChain ''tm_demo'' 7 DefaultLimits = Inr c" "append_all c [demo_anchor] = Inr c'"
    using demo_chain by blast
  have "map (\<lambda>a. (BlockHash a, BASMRoot a)) [demo_anchor] = map (\<lambda>a. (BlockHash a, BASMRoot a)) [demo_anchor] \<or>
      collides (tac_inputs zero_hash [demo_anchor]) (tac_inputs zero_hash [demo_anchor])"
    by (rule chain_binding[OF c c(2)]) (simp_all add: demo_anchor_def)
  with c show ?thesis by blast
qed

end
