(* ===== verification/Wire_Reader.thy ===== *)
theory Wire_Reader
  imports Basm_Values
begin

text \<open>
  The bounded reader of \<^verbatim>\<open>pkg/core/basm/wire.go\<close> and Bitcoin's CompactSize integers. The locales
  state what the parsers built on the reader rely on: a reader step accepts exactly the inputs that
  start with an encoding of its language, and it stops right after it.
\<close>

section \<open>The reader\<close>

record reader =
  rd_data :: "byte list"
  rd_pos :: nat

text \<open>Every position the code reaches is inside the data (\<open>rd_pos \<le> length rd_data\<close>, kept below).\<close>

definition remaining :: "reader \<Rightarrow> nat" where
  "remaining r = length (rd_data r) - rd_pos r"

definition read_byte :: "reader \<Rightarrow> basm_error + (byte \<times> reader)" where
  "read_byte r =
     (if remaining r < 1 then Inl ErrInvalidInput
      else Inr (rd_data r ! rd_pos r, r\<lparr>rd_pos := rd_pos r + 1\<rparr>))"

definition read_bytes :: "u64 \<Rightarrow> reader \<Rightarrow> basm_error + (byte list \<times> reader)" where
  "read_bytes n r =
     (if remaining r < unat n then Inl ErrInvalidInput
      else let end_pos = rd_pos r + unat n in
        Inr (take (unat n) (drop (rd_pos r) (rd_data r)), r\<lparr>rd_pos := end_pos\<rparr>))"

text \<open>The switch on the prefix of \<open>compactSize\<close> chooses a width and the least value it may carry.\<close>

definition compact_tail :: "u64 \<Rightarrow> u64 \<Rightarrow> reader \<Rightarrow> basm_error + (u64 \<times> reader)" where
  "compact_tail width minimum r =
     rbind (read_bytes width r) (\<lambda>(encoded, r').
       let value = (le_word encoded :: u64) in
       if value < minimum then Inl ErrInvalidInput else Inr (value, r'))"

definition compactSize :: "reader \<Rightarrow> basm_error + (u64 \<times> reader)" where
  "compactSize r =
     rbind (read_byte r) (\<lambda>(prefix, r').
       if prefix = 0xfd then compact_tail 2 0xfd r'
       else if prefix = 0xfe then compact_tail 4 0x10000 r'
       else if prefix = 0xff then compact_tail 8 0x100000000 r'
       else Inr (ucast prefix, r'))"

definition appendCompactSize :: "byte list \<Rightarrow> u64 \<Rightarrow> byte list" where
  "appendCompactSize dst value =
     (if value < 0xfd then dst @ [ucast value]
      else if value \<le> 0xFFFF then dst @ 0xfd # le_bytes 2 value
      else if value \<le> 0xFFFFFFFF then dst @ 0xfe # le_bytes 4 value
      else dst @ 0xff # le_bytes 8 value)"

abbreviation compact :: "u64 \<Rightarrow> byte list" where
  "compact v \<equiv> appendCompactSize [] v"

lemma appendCompactSize_eq: "appendCompactSize dst v = dst @ compact v"
  by (simp add: appendCompactSize_def)

section \<open>Positions\<close>

text \<open>The reader in front of \<open>post\<close>, behind \<open>pre\<close>.\<close>

definition reader_at :: "byte list \<Rightarrow> byte list \<Rightarrow> reader" where
  "reader_at pre post = \<lparr>rd_data = pre @ post, rd_pos = length pre\<rparr>"

lemma reader_at_start: "\<lparr>rd_data = d, rd_pos = 0\<rparr> = reader_at [] d"
  by (simp add: reader_at_def)

lemma remaining_reader_at [simp]: "remaining (reader_at pre post) = length post"
  by (simp add: remaining_def reader_at_def)

lemma read_byte_reader_at:
  "read_byte (reader_at pre inp) = Inr (b, r) \<longleftrightarrow>
     (\<exists>post. inp = b # post \<and> r = reader_at (pre @ [b]) post)"
  by (cases inp) (auto simp: read_byte_def reader_at_def remaining_def)

lemma read_bytes_reader_at:
  "read_bytes n (reader_at pre inp) = Inr (bs, r) \<longleftrightarrow>
     (\<exists>post. inp = bs @ post \<and> length bs = unat n \<and> r = reader_at (pre @ bs) post)"
proof (cases "unat n \<le> length inp")
  case True
  then have eq: "read_bytes n (reader_at pre inp) =
      Inr (take (unat n) inp, reader_at (pre @ take (unat n) inp) (drop (unat n) inp))"
    unfolding read_bytes_def reader_at_def remaining_def Let_def by simp
  show ?thesis
  proof
    assume "read_bytes n (reader_at pre inp) = Inr (bs, r)"
    with eq have "bs = take (unat n) inp" "r = reader_at (pre @ bs) (drop (unat n) inp)" by simp_all
    with True show "\<exists>post. inp = bs @ post \<and> length bs = unat n \<and> r = reader_at (pre @ bs) post"
      by (intro exI[of _ "drop (unat n) inp"]) simp
  next
    assume "\<exists>post. inp = bs @ post \<and> length bs = unat n \<and> r = reader_at (pre @ bs) post"
    with eq show "read_bytes n (reader_at pre inp) = Inr (bs, r)" by auto
  qed
next
  case False
  then show ?thesis by (auto simp: read_bytes_def)
qed

lemma read_bytes_short: "length inp < unat n \<Longrightarrow> read_bytes n (reader_at pre inp) = Inl ErrInvalidInput"
  by (simp add: read_bytes_def)

lemma read_bytes_append:
  "length bs = unat n \<Longrightarrow> read_bytes n (reader_at pre (bs @ post)) = Inr (bs, reader_at (pre @ bs) post)"
  by (simp add: read_bytes_reader_at)

section \<open>CompactSize\<close>

lemma le_word_lt: "unat (le_word bs :: u64) < 2 ^ (8 * length bs)" if "length bs \<le> 8"
proof -
  have "unat (take_bit (8 * length bs) (le_word bs :: u64)) = take_bit (8 * length bs) (unat (le_word bs :: u64))"
    by (simp add: unsigned_take_bit_eq)
  then show ?thesis by (simp add: take_bit_le_word) (metis take_bit_nat_less_exp)
qed

lemma le_word_le_bytes_lt:
  assumes "unat v < 2 ^ (8 * n)" shows "le_word (le_bytes n v) = (v :: u64)"
proof -
  have "unat (take_bit (8 * n) v) = unat v"
    using assms by (simp add: unsigned_take_bit_eq take_bit_nat_eq_self)
  then show ?thesis by (simp add: le_word_le_bytes word_unat_eq_iff)
qed

lemma length_compact_pos: "0 < length (compact v)"
  by (simp add: appendCompactSize_def)

lemma compact_tail_reader_at:
  assumes "unat w \<le> 8"
  shows "compact_tail w m (reader_at pre inp) = Inr (v, r) \<longleftrightarrow>
    (\<exists>post. inp = le_bytes (unat w) v @ post \<and> m \<le> v \<and> unat v < 2 ^ (8 * unat w) \<and>
       r = reader_at (pre @ le_bytes (unat w) v) post)"
proof -
  have "length bs = unat w \<and> v = le_word bs \<longleftrightarrow> bs = le_bytes (unat w) v \<and> unat v < 2 ^ (8 * unat w)" for bs
    using assms le_word_lt[of bs] le_bytes_le_word[of bs, where 'a = 64]
      le_word_le_bytes_lt[of v "unat w"] by auto
  then show ?thesis
    by (auto simp: compact_tail_def rbind_Inr_iff Let_def read_bytes_reader_at not_less)
       (metis not_less)+
qed

lemma byte_u64 [simp]: "ucast (ucast (b :: byte) :: u64) = b"
  using unat_lt_256[of b] by (simp add: word_unat_eq_iff unat_ucast_u64_byte)

lemma ucast_byte_u64: "v < 0xfd \<Longrightarrow> ucast (ucast v :: byte) = (v :: u64) \<and> (ucast v :: byte) < 0xfd"
  by (simp add: word_unat_eq_iff word_less_nat_alt unat_ucast_u64_byte)

lemma compactSize_enc:
  "compactSize (reader_at pre (compact v @ post)) = Inr (v, reader_at (pre @ compact v) post)"
proof -
  have first: "read_byte (reader_at pre (b # inp)) = Inr (b, reader_at (pre @ [b]) inp)" for b inp
    by (simp add: read_byte_reader_at)
  have v16: "v \<le> 0xFFFF \<Longrightarrow> unat v < 65536" and v32: "v \<le> 0xFFFFFFFF \<Longrightarrow> unat v < 4294967296"
    by (simp_all add: word_le_nat_alt)
  have tail: "compact_tail w m (reader_at (pre @ [p]) (le_bytes (unat w) v @ post))
      = Inr (v, reader_at (pre @ p # le_bytes (unat w) v) post)"
    if "unat w \<le> 8" "m \<le> v" "unat v < 2 ^ (8 * unat w)" for w m p
    using compact_tail_reader_at[of w m "pre @ [p]" "le_bytes (unat w) v @ post" v] that by simp
  show ?thesis
    using tail[of 2 "0xfd" "0xfd"] tail[of 4 "0x10000" "0xfe"] tail[of 8 "0x100000000" "0xff"]
      ucast_byte_u64[of v] v16 v32 unat_lt_u64[of v]
    by (auto simp: appendCompactSize_def compactSize_def first word_le_nat_alt word_less_nat_alt
        not_less not_le)
qed

lemma compactSize_dec:
  assumes "compactSize (reader_at pre inp) = Inr (v, r)"
  shows "\<exists>post. inp = compact v @ post \<and> r = reader_at (pre @ compact v) post"
proof -
  obtain b s where b: "inp = b # s"
    and next': "(if b = 0xfd then compact_tail 2 0xfd (reader_at (pre @ [b]) s)
       else if b = 0xfe then compact_tail 4 0x10000 (reader_at (pre @ [b]) s)
       else if b = 0xff then compact_tail 8 0x100000000 (reader_at (pre @ [b]) s)
       else Inr (ucast b, reader_at (pre @ [b]) s)) = Inr (v, r)"
    using assms by (auto simp: compactSize_def rbind_Inr_iff read_byte_reader_at)
  consider "b = 0xfd" | "b = 0xfe" | "b = 0xff" | "b \<noteq> 0xfd" "b \<noteq> 0xfe" "b \<noteq> 0xff" by blast
  then show ?thesis
  proof cases
    case 1
    with next' have "compact_tail 2 0xfd (reader_at (pre @ [b]) s) = Inr (v, r)" by simp
    then show ?thesis unfolding b using 1
      by (subst (asm) compact_tail_reader_at)
         (auto simp: appendCompactSize_def word_le_nat_alt word_less_nat_alt)
  next
    case 2
    with next' have "compact_tail 4 0x10000 (reader_at (pre @ [b]) s) = Inr (v, r)" by simp
    then show ?thesis unfolding b using 2
      by (subst (asm) compact_tail_reader_at)
         (auto simp: appendCompactSize_def word_le_nat_alt word_less_nat_alt)
  next
    case 3
    with next' have "compact_tail 8 0x100000000 (reader_at (pre @ [b]) s) = Inr (v, r)" by simp
    then show ?thesis unfolding b using 3
      by (subst (asm) compact_tail_reader_at)
         (auto simp: appendCompactSize_def word_le_nat_alt word_less_nat_alt)
  next
    case 4
    then have "unat b \<noteq> 253" "unat b \<noteq> 254" "unat b \<noteq> 255" by (auto simp: word_unat_eq_iff)
    with unat_lt_256[of b] have "unat b < 253" by linarith
    then have "(ucast b :: u64) < 0xfd" by (simp add: word_less_nat_alt unat_ucast_byte_u64)
    with 4 next' b show ?thesis by (auto simp: appendCompactSize_def byte_u64)
  qed
qed

end
