(* ===== verification/Basm_Wire.thy ===== *)
theory Basm_Wire
  imports Wire_Reader
begin

text \<open>
  \<^verbatim>\<open>pkg/core/basm/wire.go\<close>: the binary form of anchors and the bounded preflight of raw
  transactions and BUMP proofs. The preflight functions are shown to accept exactly the byte
  strings of a grammar that is stated without a reader.
\<close>

section \<open>Steps that skip one encoding\<close>

text \<open>
  The interface the loops rely on: a step accepts an input exactly when it starts with a word of
  \<open>lang\<close>, and then stands right behind that word.
\<close>

fun skip_times :: "(reader \<Rightarrow> basm_error + reader) \<Rightarrow> nat \<Rightarrow> reader \<Rightarrow> basm_error + reader" where
  "skip_times skip 0 r = Inr r"
| "skip_times skip (Suc n) r = rbind (skip r) (skip_times skip n)"

locale wire_skipper =
  fixes lang :: "byte list set"
    and skip :: "reader \<Rightarrow> basm_error + reader"
  assumes skip_iff: "skip (reader_at pre inp) = Inr r \<longleftrightarrow>
    (\<exists>bs post. bs \<in> lang \<and> inp = bs @ post \<and> r = reader_at (pre @ bs) post)"
begin

lemma skip_append: "bs \<in> lang \<Longrightarrow> skip (reader_at pre (bs @ post)) = Inr (reader_at (pre @ bs) post)"
  by (auto simp: skip_iff)

lemma skip_all_iff: "(\<exists>r. skip (reader_at [] d) = Inr r \<and> remaining r = 0) \<longleftrightarrow> d \<in> lang"
  unfolding skip_iff by (auto intro!: exI[of _ "reader_at d []"])

lemma skip_times_iff:
  "skip_times skip n (reader_at pre inp) = Inr r \<longleftrightarrow>
     (\<exists>ws post. length ws = n \<and> set ws \<subseteq> lang \<and> inp = concat ws @ post \<and> r = reader_at (pre @ concat ws) post)"
proof (induction n arbitrary: pre inp)
  case 0
  then show ?case by auto
next
  case (Suc n)
  show ?case
  proof
    assume "skip_times skip (Suc n) (reader_at pre inp) = Inr r"
    then obtain w mid where w: "w \<in> lang" "inp = w @ mid"
      and rest: "skip_times skip n (reader_at (pre @ w) mid) = Inr r"
      by (auto simp: rbind_Inr_iff skip_iff)
    from rest obtain ws post where "length ws = n" "set ws \<subseteq> lang" "mid = concat ws @ post"
      "r = reader_at ((pre @ w) @ concat ws) post"
      unfolding Suc.IH by blast
    with w show "\<exists>ws post. length ws = Suc n \<and> set ws \<subseteq> lang \<and> inp = concat ws @ post \<and>
        r = reader_at (pre @ concat ws) post"
      by (intro exI[of _ "w # ws"] exI[of _ post]) simp
  next
    assume "\<exists>ws post. length ws = Suc n \<and> set ws \<subseteq> lang \<and> inp = concat ws @ post \<and>
        r = reader_at (pre @ concat ws) post"
    then obtain w ws post where ws: "length ws = n" "w \<in> lang" "set ws \<subseteq> lang"
      "inp = w @ concat ws @ post" "r = reader_at (pre @ w @ concat ws) post"
      by (auto simp: length_Suc_conv)
    have "skip_times skip n (reader_at (pre @ w) (concat ws @ post)) = Inr r"
      unfolding Suc.IH using ws by (intro exI[of _ ws] exI[of _ post]) simp
    with ws show "skip_times skip (Suc n) (reader_at pre inp) = Inr r"
      by (simp add: skip_append)
  qed
qed

end

text \<open>Steps in sequence skip the concatenated language.\<close>

lemma wire_skipper_seq:
  assumes "wire_skipper L1 s1" "wire_skipper L2 s2"
  shows "wire_skipper {a @ b | a b. a \<in> L1 \<and> b \<in> L2} (\<lambda>r. rbind (s1 r) s2)"
proof
  fix pre inp r
  show "rbind (s1 (reader_at pre inp)) s2 = Inr r \<longleftrightarrow>
      (\<exists>bs post. bs \<in> {a @ b | a b. a \<in> L1 \<and> b \<in> L2} \<and> inp = bs @ post \<and> r = reader_at (pre @ bs) post)"
  proof
    assume "rbind (s1 (reader_at pre inp)) s2 = Inr r"
    then obtain a mid where a: "a \<in> L1" "inp = a @ mid" "s2 (reader_at (pre @ a) mid) = Inr r"
      by (auto simp: rbind_Inr_iff wire_skipper.skip_iff[OF assms(1)])
    from a(3) obtain b post where "b \<in> L2" "mid = b @ post" "r = reader_at ((pre @ a) @ b) post"
      unfolding wire_skipper.skip_iff[OF assms(2)] by blast
    with a show "\<exists>bs post. bs \<in> {a @ b | a b. a \<in> L1 \<and> b \<in> L2} \<and> inp = bs @ post \<and> r = reader_at (pre @ bs) post"
      by (intro exI[of _ "a @ b"] exI[of _ post]) auto
  next
    assume "\<exists>bs post. bs \<in> {a @ b | a b. a \<in> L1 \<and> b \<in> L2} \<and> inp = bs @ post \<and> r = reader_at (pre @ bs) post"
    then obtain a b post where ab: "a \<in> L1" "b \<in> L2" "inp = a @ b @ post" "r = reader_at ((pre @ a) @ b) post"
      by auto
    then show "rbind (s1 (reader_at pre inp)) s2 = Inr r"
      by (simp add: wire_skipper.skip_append[OF assms(1)] wire_skipper.skip_append[OF assms(2)]
          del: append_assoc)
  qed
qed

definition skip_bytes :: "u64 \<Rightarrow> reader \<Rightarrow> basm_error + reader" where
  "skip_bytes n r = rbind (read_bytes n r) (\<lambda>(_, r'). Inr r')"

lemma wire_skipper_bytes: "wire_skipper {bs. length bs = unat n} (skip_bytes n)"
  by unfold_locales (auto simp: skip_bytes_def rbind_Inr_iff read_bytes_reader_at)

lemma rbind_skip_bytes: "rbind (skip_bytes n r) f = rbind (read_bytes n r) (\<lambda>(_, r'). f r')"
  by (cases "read_bytes n r") (auto simp: skip_bytes_def)

lemma concat_length_ge: "(\<And>w. w \<in> set ws \<Longrightarrow> k \<le> length w) \<Longrightarrow> k * length ws \<le> length (concat ws)"
  by (induction ws) (fastforce simp: add_le_mono)+

section \<open>Scripts, inputs and outputs\<close>

definition skipWireScript :: "reader \<Rightarrow> basm_error + reader" where
  "skipWireScript r =
     rbind (compactSize r) (\<lambda>(len, r1).
       if remaining r1 < unat len then Inl ErrInvalidInput
       else rbind (read_bytes len r1) (\<lambda>(_, r2). Inr r2))"

definition skipRawTransactionInput :: "reader \<Rightarrow> basm_error + reader" where
  "skipRawTransactionInput r =
     rbind (read_bytes 36 r) (\<lambda>(_, r1).
     rbind (skipWireScript r1) (\<lambda>r2.
     rbind (read_bytes 4 r2) (\<lambda>(_, r3). Inr r3)))"

definition skipRawTransactionInputs :: "reader \<Rightarrow> basm_error + reader" where
  "skipRawTransactionInputs r =
     rbind (read_bytes 4 r) (\<lambda>(_, r1).
     rbind (compactSize r1) (\<lambda>(inputCount, r2).
       if inputCount = 0 \<or> remaining r2 div 41 < unat inputCount then Inl ErrInvalidInput
       else skip_times skipRawTransactionInput (unat inputCount) r2))"

definition skipRawTransactionOutput :: "reader \<Rightarrow> basm_error + reader" where
  "skipRawTransactionOutput r = rbind (read_bytes 8 r) (\<lambda>(_, r1). skipWireScript r1)"

definition skipRawTransactionOutputs :: "reader \<Rightarrow> basm_error + reader" where
  "skipRawTransactionOutputs r =
     rbind (compactSize r) (\<lambda>(outputCount, r1).
       if outputCount = 0 \<or> remaining r1 div 9 < unat outputCount then Inl ErrInvalidInput
       else skip_times skipRawTransactionOutput (unat outputCount) r1)"

definition preflightRawTransaction :: "byte list \<Rightarrow> basm_error + unit" where
  "preflightRawTransaction d =
     rbind (skipRawTransactionInputs \<lparr>rd_data = d, rd_pos = 0\<rparr>) (\<lambda>r1.
     rbind (skipRawTransactionOutputs r1) (\<lambda>r2.
     rbind (read_bytes 4 r2) (\<lambda>(_, r3).
       if remaining r3 \<noteq> 0 then Inl ErrInvalidInput else Inr ())))"

text \<open>The grammar: a count or a length is the canonical CompactSize of the number it stands for.\<close>

definition compact_len :: "nat \<Rightarrow> byte list" where
  "compact_len n = compact (word_of_nat n)"

definition wire_script :: "byte list set" where
  "wire_script = {compact_len (length s) @ s | s. length s < 2 ^ 64}"

definition wire_input :: "byte list set" where
  "wire_input = {op @ script @ sq | op script sq. length op = 36 \<and> script \<in> wire_script \<and> length sq = 4}"

definition wire_output :: "byte list set" where
  "wire_output = {value @ script | value script. length value = 8 \<and> script \<in> wire_script}"

text \<open>A nonempty counted list.\<close>

definition counted :: "byte list set \<Rightarrow> byte list set" where
  "counted L = {compact_len (length ws) @ concat ws | ws. set ws \<subseteq> L \<and> ws \<noteq> [] \<and> length ws < 2 ^ 64}"

definition raw_transaction :: "byte list set" where
  "raw_transaction =
     {version @ ins @ outs @ locktime | version ins outs locktime.
        length version = 4 \<and> ins \<in> counted wire_input \<and> outs \<in> counted wire_output \<and> length locktime = 4}"

lemma unat_word_of_nat_u64: "n < 2 ^ 64 \<Longrightarrow> unat (word_of_nat n :: u64) = n"
  by (simp add: unat_of_nat)

lemma compact_len_unat: "compact_len (unat v) = compact v"
  by (simp add: compact_len_def)

lemma compactSize_at_iff:
  "compactSize (reader_at pre inp) = Inr (v, r) \<longleftrightarrow>
     (\<exists>post. inp = compact v @ post \<and> r = reader_at (pre @ compact v) post)"
  using compactSize_dec compactSize_enc by auto

lemma skipWireScript_iff:
  "skipWireScript (reader_at pre inp) = Inr r \<longleftrightarrow>
     (\<exists>bs post. bs \<in> wire_script \<and> inp = bs @ post \<and> r = reader_at (pre @ bs) post)"
proof -
  have "skipWireScript (reader_at pre inp) =
      rbind (compactSize (reader_at pre inp)) (\<lambda>(len, r). skip_bytes len r)"
    by (cases "compactSize (reader_at pre inp)") (auto simp: skipWireScript_def skip_bytes_def read_bytes_def)
  then have step: "skipWireScript (reader_at pre inp) = Inr r \<longleftrightarrow>
      (\<exists>v mid. inp = compact v @ mid \<and> skip_bytes v (reader_at (pre @ compact v) mid) = Inr r)"
    by (auto simp: rbind_Inr_iff compactSize_at_iff)
  have "skipWireScript (reader_at pre inp) = Inr r \<longleftrightarrow>
      (\<exists>v s post. inp = compact v @ s @ post \<and> length s = unat v \<and> r = reader_at (pre @ compact v @ s) post)"
    unfolding step wire_skipper.skip_iff[OF wire_skipper_bytes] by auto
  also have "\<dots> \<longleftrightarrow> (\<exists>bs post. bs \<in> wire_script \<and> inp = bs @ post \<and> r = reader_at (pre @ bs) post)"
  proof
    assume "\<exists>v s post. inp = compact v @ s @ post \<and> length s = unat v \<and> r = reader_at (pre @ compact v @ s) post"
    then obtain v s post where v: "inp = compact v @ s @ post" "length s = unat v"
      "r = reader_at (pre @ compact v @ s) post" by blast
    then have "compact v @ s \<in> wire_script"
      using unat_lt_u64[of v] by (auto simp: wire_script_def simp flip: compact_len_unat intro!: exI[of _ s])
    with v show "\<exists>bs post. bs \<in> wire_script \<and> inp = bs @ post \<and> r = reader_at (pre @ bs) post"
      by (intro exI[of _ "compact v @ s"] exI[of _ post]) simp
  next
    assume "\<exists>bs post. bs \<in> wire_script \<and> inp = bs @ post \<and> r = reader_at (pre @ bs) post"
    then obtain s post where "length s < 2 ^ 64" "inp = compact_len (length s) @ s @ post"
      "r = reader_at (pre @ compact_len (length s) @ s) post" by (auto simp: wire_script_def)
    then show "\<exists>v s post. inp = compact v @ s @ post \<and> length s = unat v \<and> r = reader_at (pre @ compact v @ s) post"
      by (intro exI[of _ "word_of_nat (length s)"] exI[of _ s] exI[of _ post])
        (simp add: compact_len_def unat_word_of_nat_u64)
  qed
  finally show ?thesis .
qed

interpretation tx_script: wire_skipper wire_script skipWireScript
  by unfold_locales (rule skipWireScript_iff)

interpretation tx_in: wire_skipper wire_input skipRawTransactionInput
proof -
  have "skipRawTransactionInput =
      (\<lambda>r. rbind (skip_bytes 36 r) (\<lambda>r. rbind (skipWireScript r) (skip_bytes 4)))"
    by (simp add: fun_eq_iff skipRawTransactionInput_def rbind_skip_bytes flip: skip_bytes_def)
  moreover have "wire_input = {a @ b | a b. a \<in> {bs. length bs = unat (36 :: u64)} \<and>
      b \<in> {c @ d | c d. c \<in> wire_script \<and> d \<in> {bs. length bs = unat (4 :: u64)}}}"
    by (auto simp: wire_input_def)
  ultimately show "wire_skipper wire_input skipRawTransactionInput"
    using wire_skipper_seq[OF wire_skipper_bytes[of 36]
        wire_skipper_seq[OF tx_script.wire_skipper_axioms wire_skipper_bytes[of 4]]]
    by argo
qed

interpretation tx_out: wire_skipper wire_output skipRawTransactionOutput
proof -
  have "skipRawTransactionOutput = (\<lambda>r. rbind (skip_bytes 8 r) skipWireScript)"
    by (simp add: fun_eq_iff skipRawTransactionOutput_def rbind_skip_bytes)
  moreover have "wire_output = {a @ b | a b. a \<in> {bs. length bs = unat (8 :: u64)} \<and> b \<in> wire_script}"
    by (auto simp: wire_output_def)
  ultimately show "wire_skipper wire_output skipRawTransactionOutput"
    using wire_skipper_seq[OF wire_skipper_bytes[of 8] tx_script.wire_skipper_axioms] by argo
qed

lemma wire_input_length: "w \<in> wire_input \<Longrightarrow> 41 \<le> length w"
  using length_compact_pos by (fastforce simp: wire_input_def wire_script_def compact_len_def Suc_le_eq)

lemma wire_output_length: "w \<in> wire_output \<Longrightarrow> 9 \<le> length w"
  using length_compact_pos by (fastforce simp: wire_output_def wire_script_def compact_len_def Suc_le_eq)

text \<open>Items are at least \<open>k\<close> bytes long, so the guard on the count rejects no encoding.\<close>

lemma wire_skipper_counted:
  assumes sk: "wire_skipper L skip" and long: "\<And>w. w \<in> L \<Longrightarrow> k \<le> length w" and k: "0 < k"
  shows "wire_skipper (counted L) (\<lambda>r. rbind (compactSize r) (\<lambda>(n, r1).
    if n = 0 \<or> remaining r1 div k < unat n then Inl ErrInvalidInput else skip_times skip (unat n) r1))"
    (is "wire_skipper _ ?f")
proof
  fix pre inp r
  show "?f (reader_at pre inp) = Inr r \<longleftrightarrow>
    (\<exists>bs post. bs \<in> counted L \<and> inp = bs @ post \<and> r = reader_at (pre @ bs) post)"
  proof
    assume "?f (reader_at pre inp) = Inr r"
    then obtain n mid where n: "n \<noteq> 0" "inp = compact n @ mid"
      "skip_times skip (unat n) (reader_at (pre @ compact n) mid) = Inr r"
      by (auto simp: rbind_Inr_iff compactSize_at_iff split: if_splits)
    from n(3) obtain ws post where ws: "length ws = unat n" "set ws \<subseteq> L" "mid = concat ws @ post"
      "r = reader_at ((pre @ compact n) @ concat ws) post"
      unfolding wire_skipper.skip_times_iff[OF sk] by blast
    have "ws \<noteq> []" using ws(1) n(1) by (auto simp: unat_eq_0)
    then have "compact n @ concat ws \<in> counted L"
      using ws(1,2) unat_lt_u64[of n] unfolding counted_def
      by (auto intro!: exI[of _ ws] simp: compact_len_unat)
    with n(2) ws(3,4) show "\<exists>bs post. bs \<in> counted L \<and> inp = bs @ post \<and> r = reader_at (pre @ bs) post"
      by (intro exI[of _ "compact n @ concat ws"] exI[of _ post]) simp
  next
    assume "\<exists>bs post. bs \<in> counted L \<and> inp = bs @ post \<and> r = reader_at (pre @ bs) post"
    then obtain ws post where ws: "set ws \<subseteq> L" "ws \<noteq> []" "length ws < 2 ^ 64"
      and inp: "inp = compact_len (length ws) @ concat ws @ post"
      and r: "r = reader_at (pre @ compact_len (length ws) @ concat ws) post"
      by (auto simp: counted_def)
    let ?n = "word_of_nat (length ws) :: u64"
    have un: "unat ?n = length ws" using ws(3) by (rule unat_word_of_nat_u64)
    then have n0: "?n \<noteq> 0" using ws(2) by (metis length_0_conv unat_0)
    have "k * length ws \<le> length (concat ws)" using long ws(1) by (intro concat_length_ge) blast
    then have guard: "\<not> length (concat ws @ post) div k < unat ?n"
      using k un by (simp add: not_less less_eq_div_iff_mult_less_eq mult.commute)
    have "skip_times skip (unat ?n) (reader_at (pre @ compact ?n) (concat ws @ post)) = Inr r"
      unfolding wire_skipper.skip_times_iff[OF sk] using ws(1) r un
      by (intro exI[of _ ws] exI[of _ post]) (simp add: compact_len_def)
    then show "?f (reader_at pre inp) = Inr r"
      using guard n0 by (simp add: inp compact_len_def compactSize_enc)
  qed
qed

interpretation tx_ins: wire_skipper "{v @ w | v w. v \<in> {bs. length bs = unat (4 :: u64)} \<and> w \<in> counted wire_input}"
  skipRawTransactionInputs
proof -
  have "skipRawTransactionInputs = (\<lambda>r. rbind (skip_bytes 4 r) (\<lambda>r. rbind (compactSize r) (\<lambda>(n, r1).
      if n = 0 \<or> remaining r1 div 41 < unat n then Inl ErrInvalidInput
      else skip_times skipRawTransactionInput (unat n) r1)))"
    by (simp add: fun_eq_iff skipRawTransactionInputs_def rbind_skip_bytes)
  then show "wire_skipper {v @ w | v w. v \<in> {bs. length bs = unat (4 :: u64)} \<and> w \<in> counted wire_input}
      skipRawTransactionInputs"
    using wire_skipper_seq[OF wire_skipper_bytes[of 4]
        wire_skipper_counted[OF tx_in.wire_skipper_axioms wire_input_length]] by simp
qed

interpretation tx_outs: wire_skipper "counted wire_output" skipRawTransactionOutputs
  using wire_skipper_counted[OF tx_out.wire_skipper_axioms wire_output_length]
  unfolding skipRawTransactionOutputs_def[abs_def] by simp

lemma preflightRawTransaction_iff: "preflightRawTransaction d = Inr () \<longleftrightarrow> d \<in> raw_transaction"
proof -
  let ?skip = "\<lambda>r. rbind (skipRawTransactionInputs r) (\<lambda>r1. rbind (skipRawTransactionOutputs r1) (skip_bytes 4))"
  have "preflightRawTransaction d = Inr () \<longleftrightarrow> (\<exists>r. ?skip (reader_at [] d) = Inr r \<and> remaining r = 0)"
    by (auto simp: preflightRawTransaction_def reader_at_start rbind_Inr_iff skip_bytes_def split: if_splits)
  also have "\<dots> \<longleftrightarrow> d \<in> {a @ b | a b.
      a \<in> {v @ w | v w. v \<in> {bs. length bs = unat (4 :: u64)} \<and> w \<in> counted wire_input} \<and>
      b \<in> {a @ b | a b. a \<in> counted wire_output \<and> b \<in> {bs. length bs = unat (4 :: u64)}}}"
    by (rule wire_skipper.skip_all_iff[OF wire_skipper_seq[OF tx_ins.wire_skipper_axioms
        wire_skipper_seq[OF tx_outs.wire_skipper_axioms wire_skipper_bytes]]])
  also have "\<dots> \<longleftrightarrow> d \<in> raw_transaction"
    unfolding raw_transaction_def by (simp add: Bex_def) (metis append.assoc)
  finally show ?thesis .
qed

section \<open>Sizes and transaction identities\<close>

definition validateWireSize :: "byte list \<Rightarrow> u32 \<Rightarrow> basm_error + unit" where
  "validateWireSize d maxBytes =
     (if maxBytes = 0 then Inl ErrInvalidInput
      else if unat maxBytes < length d then Inl ErrLimitExceeded
      else Inr ())"

text \<open>
  \<open>newTransactionFromBytes\<close> and \<open>txBytes\<close> stand for the SDK's transaction parser and serializer;
  a parse error of the SDK is passed on.
\<close>

definition RawTransactionID ::
  "(byte list \<Rightarrow> basm_error + 'tx) \<Rightarrow> ('tx \<Rightarrow> byte list) \<Rightarrow> byte list \<Rightarrow> u32 \<Rightarrow> basm_error + hash" where
  "RawTransactionID newTransactionFromBytes txBytes d maxBytes =
     rbind (validateWireSize d maxBytes) (\<lambda>_.
     rbind (preflightRawTransaction d) (\<lambda>_.
     rbind (newTransactionFromBytes d) (\<lambda>tx.
       if txBytes tx \<noteq> d then Inl ErrInvalidInput
       else Inr (sha256 (sha256 d)))))"

lemma RawTransactionID_Inr:
  "RawTransactionID parse txBytes d maxBytes = Inr h \<longleftrightarrow>
     maxBytes \<noteq> 0 \<and> length d \<le> unat maxBytes \<and> d \<in> raw_transaction \<and>
     (\<exists>tx. parse d = Inr tx \<and> txBytes tx = d) \<and> h = sha256d d"
  by (auto simp: RawTransactionID_def rbind_Inr_iff validateWireSize_def sha256d_def
      simp flip: preflightRawTransaction_iff)

section \<open>Anchors\<close>

definition EncodeAnchorBinary :: "TopicBlockAnchor \<Rightarrow> Limits \<Rightarrow> basm_error + byte list" where
  "EncodeAnchorBinary anchor limits =
     rbind (AnchorValidate anchor limits) (\<lambda>_.
       let capacity = length (Topic anchor) + 9 + 4 + 32 * 2 + 9 in
       if 2 ^ 63 - 1 < capacity then Inl ErrLimitExceeded
       else let
         result = appendCompactSize [] (word_of_nat (length (Topic anchor)));
         result = result @ bytes_of (Topic anchor);
         result = result @ le_bytes 4 (BlockHeight anchor);
         result = result @ BlockHash anchor;
         result = result @ BASMRoot anchor
       in Inr (appendCompactSize result (AdmittedCount anchor)))"

definition DecodeAnchorBinary :: "byte list \<Rightarrow> Limits \<Rightarrow> basm_error + TopicBlockAnchor" where
  "DecodeAnchorBinary d limits =
     rbind (Limits_validate limits) (\<lambda>_.
     rbind (compactSize \<lparr>rd_data = d, rd_pos = 0\<rparr>) (\<lambda>(topicLength, r1).
       if topicLength = 0 \<or> unat (MaxTopicBytes limits) < unat topicLength \<or> remaining r1 < unat topicLength
       then Inl ErrLimitExceeded
       else
     rbind (read_bytes topicLength r1) (\<lambda>(topicBytes, r2).
       if \<not> utf8_valid topicBytes then Inl ErrInvalidInput
       else
     rbind (read_bytes 4 r2) (\<lambda>(heightBytes, r3).
     rbind (read_bytes 32 r3) (\<lambda>(blockHash, r4).
     rbind (read_bytes 32 r4) (\<lambda>(root, r5).
     rbind (compactSize r5) (\<lambda>(count, r6).
       if remaining r6 \<noteq> 0 then Inl ErrInvalidInput
       else let anchor = \<lparr>Topic = string_of topicBytes, BlockHeight = le_word heightBytes,
                 BlockHash = blockHash, BASMRoot = root, AdmittedCount = count\<rparr> in
     rbind (AnchorValidate anchor limits) (\<lambda>_. Inr anchor))))))))"

lemma EncodeAnchorBinary_Inr:
  "EncodeAnchorBinary a l = Inr d \<longleftrightarrow>
     AnchorValidate a l = Inr () \<and>
     d = compact_len (length (Topic a)) @ bytes_of (Topic a) @ le_bytes 4 (BlockHeight a) @
         BlockHash a @ BASMRoot a @ compact (AdmittedCount a)"
proof -
  have "length (Topic a) + 9 + 4 + 32 * 2 + 9 \<le> 2 ^ 63 - 1" if "AnchorValidate a l = Inr ()"
    using that unat_lt_u32[of "MaxTopicBytes l"] by (auto simp: AnchorValidate_Inr)
  then show ?thesis
    by (auto simp: EncodeAnchorBinary_def rbind_Inr_iff Let_def compact_len_def
        appendCompactSize_eq[of "_ @ _"] not_less)
qed

lemma DecodeAnchorBinary_EncodeAnchorBinary:
  assumes enc: "EncodeAnchorBinary a l = Inr d" and wf: "wf_hash (BlockHash a)" "wf_hash (BASMRoot a)"
  shows "DecodeAnchorBinary d l = Inr a"
proof -
  let ?n = "word_of_nat (length (Topic a)) :: u64"
  from enc have val: "AnchorValidate a l = Inr ()" and d: "d = compact ?n @ bytes_of (Topic a) @
      le_bytes 4 (BlockHeight a) @ BlockHash a @ BASMRoot a @ compact (AdmittedCount a)"
    by (simp_all add: EncodeAnchorBinary_Inr compact_len_def)
  from val have topic: "Topic a \<noteq> []" "length (Topic a) \<le> unat (MaxTopicBytes l)" "utf8_valid (bytes_of (Topic a))"
    and lim: "Limits_validate l = Inr ()" by (simp_all add: AnchorValidate_Inr)
  have un: "unat ?n = length (Topic a)"
    using topic(2) unat_lt_u32[of "MaxTopicBytes l"] by (intro unat_word_of_nat_u64) simp
  then have n0: "?n \<noteq> 0" using topic(1) by (metis length_0_conv unat_0)
  note last = compactSize_enc[of _ _ "[]", simplified]
  have eta: "\<lparr>Topic = Topic a, BlockHeight = BlockHeight a, BlockHash = BlockHash a,
      BASMRoot = BASMRoot a, AdmittedCount = AdmittedCount a\<rparr> = a" by simp
  show ?thesis
    using topic un n0 wf val lim
    by (simp add: d DecodeAnchorBinary_def reader_at_start compactSize_enc read_bytes_append last Let_def eta
        del: Limits_validate_Inr)
qed

lemma DecodeAnchorBinary_Inr:
  assumes "DecodeAnchorBinary d l = Inr a"
  shows "EncodeAnchorBinary a l = Inr d \<and> wf_hash (BlockHash a) \<and> wf_hash (BASMRoot a)"
proof -
  from assms obtain n tb hb bh rt cnt where "d = compact n @ tb @ hb @ bh @ rt @ compact cnt"
    "length tb = unat n" "length hb = 4" "length bh = 32" "length rt = 32"
    "AnchorValidate a l = Inr ()"
    "a = \<lparr>Topic = string_of tb, BlockHeight = le_word hb, BlockHash = bh, BASMRoot = rt, AdmittedCount = cnt\<rparr>"
    unfolding DecodeAnchorBinary_def reader_at_start
    by (auto simp: rbind_Inr_iff compactSize_at_iff read_bytes_reader_at Let_def simp del: append_assoc
        split: if_splits)
  then show ?thesis
    by (simp add: EncodeAnchorBinary_Inr compact_len_def le_bytes_le_word_u32)
qed

section \<open>Properties\<close>

text \<open>
  C23: the anchor codec is a bijection between the valid anchors and the accepted byte strings: a
  string decodes to an anchor exactly when it is the encoding of that anchor.
\<close>

theorem anchor_codec:
  "DecodeAnchorBinary d l = Inr a \<longleftrightarrow>
     EncodeAnchorBinary a l = Inr d \<and> wf_hash (BlockHash a) \<and> wf_hash (BASMRoot a)"
  using DecodeAnchorBinary_Inr DecodeAnchorBinary_EncodeAnchorBinary by blast

text \<open>
  A transaction id is returned exactly for the byte strings of the standard transaction grammar
  within the size limit that the parser reproduces, and it is the double hash of those very bytes.
\<close>

theorem RawTransactionID_iff:
  "RawTransactionID newTransactionFromBytes txBytes d maxBytes = Inr h \<longleftrightarrow>
     maxBytes \<noteq> 0 \<and> length d \<le> unat maxBytes \<and> d \<in> raw_transaction \<and>
     (\<exists>tx. newTransactionFromBytes d = Inr tx \<and> txBytes tx = d) \<and> h = sha256d d"
  by (rule RawTransactionID_Inr)

end
