(* ===== verification/Basm_Bump.thy ===== *)
theory Basm_Bump
  imports Basm_Wire
begin

text \<open>
  The BUMP preflight of \<^verbatim>\<open>pkg/core/basm/wire.go\<close> and \<open>ParseBoundedMerklePath\<close>. A BUMP is a
  block height, a tree height and, for each level, a counted list of items; the preflight accepts
  exactly the encodings of the well-formed ones.
\<close>

section \<open>The preflight\<close>

definition validBUMPPosition :: "u64 \<Rightarrow> u64 \<Rightarrow> bool" where
  "validBUMPPosition offset level =
     (if 64 \<le> level then offset = 0 else offset \<le> drop_bit (unat level) 0xFFFFFFFFFFFFFFFF)"

definition readBUMPTreeHeight :: "reader \<Rightarrow> basm_error + (u64 \<times> reader)" where
  "readBUMPTreeHeight r =
     rbind (compactSize r) (\<lambda>(blockHeight, r1).
       if 0xFFFFFFFF < blockHeight then Inl ErrInvalidInput
       else rbind (read_byte r1) (\<lambda>(treeHeightByte, r2).
         let treeHeight = (ucast treeHeightByte :: u64) in
         if treeHeight = 0 \<or> 64 < treeHeight \<or> remaining r2 < unat treeHeight then Inl ErrInvalidInput
         else Inr (treeHeight, r2)))"

text \<open>The map \<open>seenOffsets\<close> is threaded through; the item index only labels error messages.\<close>

definition preflightMerkleItem ::
  "u64 \<Rightarrow> u64 set \<Rightarrow> reader \<Rightarrow> basm_error + (bool \<times> u64 set \<times> reader)" where
  "preflightMerkleItem level seenOffsets r =
     rbind (compactSize r) (\<lambda>(offset, r1).
       if \<not> validBUMPPosition offset level then Inl ErrInvalidInput
       else if offset \<in> seenOffsets then Inl ErrInvalidInput
       else let seenOffsets = insert offset seenOffsets in
     rbind (read_byte r1) (\<lambda>(flags, r2).
       if flags AND NOT 3 \<noteq> 0 \<or> flags = 3 then Inl ErrInvalidInput
       else if flags AND 1 \<noteq> 0 \<and> offset mod 2 = 0 then Inl ErrInvalidInput
       else if flags AND 1 \<noteq> 0 then Inr (False, seenOffsets, r2)
       else rbind (read_bytes 32 r2) (\<lambda>(_, r3). Inr (True, seenOffsets, r3))))"

fun preflightMerkleItems ::
  "nat \<Rightarrow> u64 \<Rightarrow> u64 set \<Rightarrow> bool \<Rightarrow> reader \<Rightarrow> basm_error + (bool \<times> reader)" where
  "preflightMerkleItems 0 level seenOffsets levelHasHash r = Inr (levelHasHash, r)"
| "preflightMerkleItems (Suc n) level seenOffsets levelHasHash r =
     rbind (preflightMerkleItem level seenOffsets r) (\<lambda>(hasHash, seenOffsets, r').
       preflightMerkleItems n level seenOffsets (hasHash \<or> levelHasHash) r')"

definition preflightMerkleLevel :: "u64 \<Rightarrow> reader \<Rightarrow> basm_error + reader" where
  "preflightMerkleLevel level r =
     rbind (compactSize r) (\<lambda>(count, r1).
       if remaining r1 div 2 < unat count then Inl ErrInvalidInput
       else rbind (preflightMerkleItems (unat count) level {} False r1) (\<lambda>(levelHasHash, r2).
         if level = 0 \<and> \<not> levelHasHash then Inl ErrInvalidInput else Inr r2))"

text \<open>The level loop: \<open>n\<close> levels from \<open>level\<close> on.\<close>

fun preflightMerkleLevels :: "nat \<Rightarrow> u64 \<Rightarrow> reader \<Rightarrow> basm_error + reader" where
  "preflightMerkleLevels 0 level r = Inr r"
| "preflightMerkleLevels (Suc n) level r =
     rbind (preflightMerkleLevel level r) (\<lambda>r'. preflightMerkleLevels n (level + 1) r')"

definition preflightMerklePath :: "byte list \<Rightarrow> basm_error + unit" where
  "preflightMerklePath d =
     rbind (readBUMPTreeHeight \<lparr>rd_data = d, rd_pos = 0\<rparr>) (\<lambda>(treeHeight, r1).
     rbind (preflightMerkleLevels (unat treeHeight) 0 r1) (\<lambda>r2.
       if remaining r2 \<noteq> 0 then Inl ErrInvalidInput else Inr ()))"

text \<open>\<open>newMerklePathFromReader\<close> stands for the SDK's BUMP parser.\<close>

definition ParseBoundedMerklePath ::
  "(byte list \<Rightarrow> basm_error + 'path) \<Rightarrow> byte list \<Rightarrow> u32 \<Rightarrow> basm_error + 'path" where
  "ParseBoundedMerklePath newMerklePathFromReader d maxBytes =
     rbind (validateWireSize d maxBytes) (\<lambda>_.
     rbind (preflightMerklePath d) (\<lambda>_.
     rbind (newMerklePathFromReader d) (\<lambda>path. Inr path)))"

section \<open>The abstract syntax and its encoding\<close>

text \<open>An item carries a hash (a client transaction id or not) or duplicates its left sibling.\<close>

datatype bump_mark = Duplicate | Hash_Item bool hash

record bump_item =
  bump_offset :: u64
  bump_mark :: bump_mark

record bump =
  bump_height :: u64
  bump_levels :: "bump_item list list"

fun mark_flags :: "bump_mark \<Rightarrow> byte" where
  "mark_flags Duplicate = 1"
| "mark_flags (Hash_Item txid h) = (if txid then 2 else 0)"

fun mark_hash :: "bump_mark \<Rightarrow> byte list" where
  "mark_hash Duplicate = []"
| "mark_hash (Hash_Item txid h) = h"

fun is_hash_item :: "bump_item \<Rightarrow> bool" where
  "is_hash_item it = (bump_mark it \<noteq> Duplicate)"

definition encode_item :: "bump_item \<Rightarrow> byte list" where
  "encode_item it = compact (bump_offset it) @ [mark_flags (bump_mark it)] @ mark_hash (bump_mark it)"

definition encode_level :: "bump_item list \<Rightarrow> byte list" where
  "encode_level its = compact_len (length its) @ concat (map encode_item its)"

definition encode_bump :: "bump \<Rightarrow> byte list" where
  "encode_bump b = compact (bump_height b) @ [word_of_nat (length (bump_levels b))] @
     concat (map encode_level (bump_levels b))"

text \<open>A position of level \<open>l\<close> of a tree with at most \<open>2 ^ 64\<close> leaves.\<close>

definition item_ok :: "nat \<Rightarrow> bump_item \<Rightarrow> bool" where
  "item_ok l it \<longleftrightarrow> unat (bump_offset it) * 2 ^ l < 2 ^ 64 \<and>
     (case bump_mark it of Duplicate \<Rightarrow> odd (unat (bump_offset it)) | Hash_Item _ h \<Rightarrow> wf_hash h)"

definition level_ok :: "nat \<Rightarrow> bump_item list \<Rightarrow> bool" where
  "level_ok l its \<longleftrightarrow> length its < 2 ^ 64 \<and> list_all (item_ok l) its \<and> distinct (map bump_offset its) \<and>
     (l = 0 \<longrightarrow> list_ex is_hash_item its)"

definition bump_ok :: "bump \<Rightarrow> bool" where
  "bump_ok b \<longleftrightarrow> unat (bump_height b) < 2 ^ 32 \<and> 0 < length (bump_levels b) \<and> length (bump_levels b) \<le> 64 \<and>
     (\<forall>l < length (bump_levels b). level_ok l (bump_levels b ! l))"

section \<open>Items\<close>

lemma validBUMPPosition_iff:
  assumes "l < 64"
  shows "validBUMPPosition off (word_of_nat l) \<longleftrightarrow> unat off * 2 ^ l < 2 ^ 64"
proof -
  have l: "unat (word_of_nat l :: u64) = l" using assms by (intro unat_word_of_nat_u64) simp
  have "unat (drop_bit l (0xFFFFFFFFFFFFFFFF :: u64)) = (2 ^ 64 - 1) div 2 ^ l"
    unfolding unat_drop_bit_eq by (simp add: drop_bit_eq_div)
  moreover have "unat off \<le> (2 ^ 64 - 1) div 2 ^ l \<longleftrightarrow> unat off * 2 ^ l < 2 ^ 64"
    by (simp add: less_eq_div_iff_mult_less_eq) linarith
  ultimately show ?thesis
    using assms l by (simp add: validBUMPPosition_def word_le_nat_alt)
qed

lemma word_nat_cast: "word_of_nat (unat b) = (b :: byte)"
  by simp

lemma valid_flags_all:
  "list_all (\<lambda>n. let b = (word_of_nat n :: byte) in
      (b AND NOT 3 \<noteq> 0 \<or> b = 3) = (b \<noteq> 0 \<and> b \<noteq> 1 \<and> b \<noteq> 2)) [0..<256]"
  by code_simp

lemma valid_flags: "(b AND NOT 3 \<noteq> 0 \<or> b = 3) \<longleftrightarrow> b \<noteq> 0 \<and> b \<noteq> 1 \<and> b \<noteq> (2 :: byte)"
proof -
  have "unat b \<in> set [0..<256]" using unat_lt_256[of b] by simp
  with valid_flags_all have "(word_of_nat (unat b) AND NOT (3 :: byte) \<noteq> 0 \<or> word_of_nat (unat b) = (3 :: byte)) \<longleftrightarrow>
      word_of_nat (unat b) \<noteq> (0 :: byte) \<and> word_of_nat (unat b) \<noteq> (1 :: byte) \<and> word_of_nat (unat b) \<noteq> (2 :: byte)"
    unfolding list_all_iff Let_def by blast
  then show ?thesis by (simp only: word_nat_cast)
qed

lemma even_offset: "off mod 2 = 0 \<longleftrightarrow> even (unat (off :: u64))"
  by (simp add: word_unat_eq_iff unat_mod even_iff_mod_2_eq_zero)

lemma odd_flag: "b AND 1 \<noteq> 0 \<longleftrightarrow> b = 1" if "b = 0 \<or> b = 1 \<or> b = (2 :: byte)"
  using that by auto

lemma preflightMerkleItem_alt:
  "preflightMerkleItem level seen r =
     rbind (compactSize r) (\<lambda>(offset, r1).
       if \<not> validBUMPPosition offset level \<or> offset \<in> seen then Inl ErrInvalidInput
       else rbind (read_byte r1) (\<lambda>(flags, r2).
         if flags \<noteq> 0 \<and> flags \<noteq> 1 \<and> flags \<noteq> 2 \<or> flags = 1 \<and> even (unat offset) then Inl ErrInvalidInput
         else if flags = 1 then Inr (False, insert offset seen, r2)
         else rbind (read_bytes 32 r2) (\<lambda>(_, r3). Inr (True, insert offset seen, r3))))"
  unfolding preflightMerkleItem_def valid_flags even_offset Let_def
  by (rule rbind_cong[OF refl]) (auto intro!: rbind_cong simp: odd_flag split: if_splits)

lemma preflightMerkleItem_enc:
  assumes "l < 64" "item_ok l it" "bump_offset it \<notin> seen"
  shows "preflightMerkleItem (word_of_nat l) seen (reader_at pre (encode_item it @ post)) =
    Inr (is_hash_item it, insert (bump_offset it) seen, reader_at (pre @ encode_item it) post)"
proof -
  have first: "read_byte (reader_at pre (b # inp)) = Inr (b, reader_at (pre @ [b]) inp)" for pre b inp
    by (simp add: read_byte_reader_at)
  show ?thesis
    using assms validBUMPPosition_iff[of l "bump_offset it"]
    by (cases "bump_mark it")
       (auto simp: preflightMerkleItem_alt encode_item_def compactSize_enc first item_ok_def read_bytes_append)
qed

lemma preflightMerkleItem_dec:
  assumes "preflightMerkleItem (word_of_nat l) seen (reader_at pre inp) = Inr (hh, seen', r)" and l: "l < 64"
  shows "\<exists>it post. item_ok l it \<and> bump_offset it \<notin> seen \<and> inp = encode_item it @ post \<and> hh = is_hash_item it \<and>
    seen' = insert (bump_offset it) seen \<and> r = reader_at (pre @ encode_item it) post"
proof -
  from assms(1) obtain off flags mid where inp: "inp = compact off @ flags # mid"
    and off: "validBUMPPosition off (word_of_nat l)" "off \<notin> seen" "seen' = insert off seen"
    and flags: "flags = 0 \<or> flags = 1 \<or> flags = 2" "flags = 1 \<longrightarrow> odd (unat off)"
    and rest: "(if flags = 1 then Inr (False, seen', reader_at (pre @ compact off @ [flags]) mid)
      else rbind (read_bytes 32 (reader_at (pre @ compact off @ [flags]) mid)) (\<lambda>(_, r3). Inr (True, seen', r3)))
      = Inr (hh, seen', r)"
    by (auto simp: preflightMerkleItem_alt rbind_Inr_iff compactSize_at_iff read_byte_reader_at split: if_splits)
  have pos: "unat off * 2 ^ l < 2 ^ 64" using off(1) validBUMPPosition_iff[OF l] by blast
  show ?thesis
  proof (cases "flags = 1")
    case True
    let ?it = "\<lparr>bump_offset = off, bump_mark = Duplicate\<rparr>"
    show ?thesis
      using True rest inp pos flags off
      by (intro exI[of _ ?it] exI[of _ mid]) (simp add: item_ok_def encode_item_def)
  next
    case False
    with rest obtain h post where h: "mid = h @ post" "wf_hash h" "hh = True"
      "r = reader_at ((pre @ compact off @ [flags]) @ h) post"
      by (auto simp: rbind_Inr_iff read_bytes_reader_at)
    let ?it = "\<lparr>bump_offset = off, bump_mark = Hash_Item (flags = 2) h\<rparr>"
    show ?thesis
      using False h inp pos flags off
      by (intro exI[of _ ?it] exI[of _ post]) (auto simp: item_ok_def encode_item_def)
  qed
qed

lemma encode_item_length: "2 \<le> length (encode_item it)"
  using length_compact_pos[of "bump_offset it"] by (simp add: encode_item_def del: length_greater_0_conv)

section \<open>Levels\<close>

lemma preflightMerkleItems_enc:
  assumes "l < 64" "list_all (item_ok l) its" "distinct (map bump_offset its)" "bump_offset ` set its \<inter> seen = {}"
  shows "preflightMerkleItems (length its) (word_of_nat l) seen hh
      (reader_at pre (concat (map encode_item its) @ post)) =
    Inr (hh \<or> list_ex is_hash_item its, reader_at (pre @ concat (map encode_item its)) post)"
  using assms
proof (induction its arbitrary: seen hh pre)
  case Nil
  then show ?case by simp
next
  case (Cons it its)
  then show ?case
    by (auto simp: preflightMerkleItem_enc simp del: is_hash_item.simps)
qed

lemma preflightMerkleItems_dec:
  assumes "preflightMerkleItems n (word_of_nat l) seen hh (reader_at pre inp) = Inr (hh', r)" and l: "l < 64"
  shows "\<exists>its post. length its = n \<and> list_all (item_ok l) its \<and> distinct (map bump_offset its) \<and>
    bump_offset ` set its \<inter> seen = {} \<and> inp = concat (map encode_item its) @ post \<and>
    hh' = (hh \<or> list_ex is_hash_item its) \<and> r = reader_at (pre @ concat (map encode_item its)) post"
  using assms(1)
proof (induction n arbitrary: seen hh pre inp)
  case 0
  then show ?case by (intro exI[of _ "[]"] exI[of _ inp]) simp
next
  case (Suc n)
  from Suc.prems obtain h1 seen1 r1 where
    item: "preflightMerkleItem (word_of_nat l) seen (reader_at pre inp) = Inr (h1, seen1, r1)"
    and rest: "preflightMerkleItems n (word_of_nat l) seen1 (h1 \<or> hh) r1 = Inr (hh', r)"
    by (auto simp: rbind_Inr_iff)
  from preflightMerkleItem_dec[OF item l] obtain it mid where it: "item_ok l it" "bump_offset it \<notin> seen"
    "inp = encode_item it @ mid" "h1 = is_hash_item it" "seen1 = insert (bump_offset it) seen"
    "r1 = reader_at (pre @ encode_item it) mid" by blast
  from Suc.IH[OF rest[unfolded it(6)]] obtain its post where its: "length its = n" "list_all (item_ok l) its"
    "distinct (map bump_offset its)" "bump_offset ` set its \<inter> seen1 = {}" "mid = concat (map encode_item its) @ post"
    "hh' = ((h1 \<or> hh) \<or> list_ex is_hash_item its)"
    "r = reader_at ((pre @ encode_item it) @ concat (map encode_item its)) post" by blast
  have "bump_offset it \<notin> bump_offset ` set its" using its(4) it(5) by blast
  then show ?case
    using it its by (intro exI[of _ "it # its"] exI[of _ post]) (auto simp del: is_hash_item.simps)
qed

lemma preflightMerkleLevel_enc:
  assumes "l < 64" "level_ok l its"
  shows "preflightMerkleLevel (word_of_nat l) (reader_at pre (encode_level its @ post)) =
    Inr (reader_at (pre @ encode_level its) post)"
proof -
  let ?n = "word_of_nat (length its) :: u64"
  have un: "unat ?n = length its" using assms by (intro unat_word_of_nat_u64) (simp add: level_ok_def)
  have "2 * length (map encode_item its) \<le> length (concat (map encode_item its))"
    by (rule concat_length_ge) (auto simp: encode_item_length)
  then have guard: "\<not> length (concat (map encode_item its) @ post) div 2 < unat ?n" by (simp add: un)
  have l0: "(word_of_nat l :: u64) = 0 \<longleftrightarrow> l = 0"
    using assms(1) unat_word_of_nat_u64[of l] by (auto simp: word_unat_eq_iff)
  show ?thesis
    using assms guard preflightMerkleItems_enc[of l its "{}" False "pre @ compact ?n" post] l0
    by (auto simp: preflightMerkleLevel_def encode_level_def compact_len_def compactSize_enc un level_ok_def
        simp del: length_append)
qed

lemma preflightMerkleLevel_dec:
  assumes "preflightMerkleLevel (word_of_nat l) (reader_at pre inp) = Inr r" and l: "l < 64"
  shows "\<exists>its post. level_ok l its \<and> inp = encode_level its @ post \<and> r = reader_at (pre @ encode_level its) post"
proof -
  have l0: "(word_of_nat l :: u64) = 0 \<longleftrightarrow> l = 0"
    using l unat_word_of_nat_u64[of l] by (auto simp: word_unat_eq_iff)
  from assms(1) obtain n mid hh where inp: "inp = compact n @ mid"
    and items: "preflightMerkleItems (unat n) (word_of_nat l) {} False (reader_at (pre @ compact n) mid) = Inr (hh, r)"
    and hh: "l = 0 \<longrightarrow> hh"
    by (auto simp: preflightMerkleLevel_def rbind_Inr_iff compactSize_at_iff l0 split: if_splits)
  from preflightMerkleItems_dec[OF items l] obtain its post where its: "length its = unat n"
    "list_all (item_ok l) its" "distinct (map bump_offset its)" "mid = concat (map encode_item its) @ post"
    "hh = list_ex is_hash_item its" "r = reader_at ((pre @ compact n) @ concat (map encode_item its)) post" by auto
  then show ?thesis
    using inp hh unat_lt_u64[of n]
    by (intro exI[of _ its] exI[of _ post]) (simp add: level_ok_def encode_level_def compact_len_unat)
qed

section \<open>Paths\<close>

lemma preflightMerkleLevels_enc:
  assumes "l + length ls \<le> 64" "\<And>i. i < length ls \<Longrightarrow> level_ok (l + i) (ls ! i)"
  shows "preflightMerkleLevels (length ls) (word_of_nat l) (reader_at pre (concat (map encode_level ls) @ post)) =
    Inr (reader_at (pre @ concat (map encode_level ls)) post)"
  using assms
proof (induction ls arbitrary: l pre)
  case Nil
  then show ?case by simp
next
  case (Cons its ls)
  have head: "level_ok l its" using Cons.prems(2)[of 0] by simp
  have tail: "level_ok (Suc l + i) (ls ! i)" if "i < length ls" for i
    using Cons.prems(2)[of "Suc i"] that by simp
  have "preflightMerkleLevels (length ls) (word_of_nat (Suc l))
      (reader_at (pre @ encode_level its) (concat (map encode_level ls) @ post)) =
    Inr (reader_at ((pre @ encode_level its) @ concat (map encode_level ls)) post)"
    by (rule Cons.IH) (use Cons.prems(1) tail in auto)
  then show ?case
    using Cons.prems(1) head by (simp add: preflightMerkleLevel_enc add.commute)
qed

lemma preflightMerkleLevels_dec:
  assumes "preflightMerkleLevels n (word_of_nat l) (reader_at pre inp) = Inr r" "l + n \<le> 64"
  shows "\<exists>ls post. length ls = n \<and> (\<forall>i < n. level_ok (l + i) (ls ! i)) \<and>
    inp = concat (map encode_level ls) @ post \<and> r = reader_at (pre @ concat (map encode_level ls)) post"
  using assms
proof (induction n arbitrary: l pre inp)
  case 0
  then show ?case by (intro exI[of _ "[]"] exI[of _ inp]) simp
next
  case (Suc n)
  from Suc.prems(1) obtain r1 where lev: "preflightMerkleLevel (word_of_nat l) (reader_at pre inp) = Inr r1"
    and rest: "preflightMerkleLevels n (word_of_nat (Suc l)) r1 = Inr r"
    by (auto simp: rbind_Inr_iff add.commute)
  have "l < 64" using Suc.prems(2) by simp
  from preflightMerkleLevel_dec[OF lev this] obtain its mid where its: "level_ok l its"
    "inp = encode_level its @ mid" "r1 = reader_at (pre @ encode_level its) mid" by blast
  have "Suc l + n \<le> 64" using Suc.prems(2) by simp
  from Suc.IH[OF rest[unfolded its(3)] this] obtain ls post where ls: "length ls = n"
    "\<forall>i < n. level_ok (Suc l + i) (ls ! i)" "mid = concat (map encode_level ls) @ post"
    "r = reader_at ((pre @ encode_level its) @ concat (map encode_level ls)) post" by blast
  have "\<forall>i < Suc n. level_ok (l + i) ((its # ls) ! i)"
    using its(1) ls(2) by (auto simp: less_Suc_eq_0_disj)
  then show ?case
    using its ls by (intro exI[of _ "its # ls"] exI[of _ post]) simp
qed

lemma length_encode_level: "0 < length (encode_level its)"
  using length_compact_pos by (simp add: encode_level_def compact_len_def)

lemma unat_byte_u64_small: "n \<le> 64 \<Longrightarrow> unat (ucast (word_of_nat n :: byte) :: u64) = n"
  by (simp add: unat_of_nat)

lemma preflightMerklePath_enc:
  assumes "bump_ok b" shows "preflightMerklePath (encode_bump b) = Inr ()"
proof -
  let ?ls = "bump_levels b" and ?n = "length (bump_levels b)"
  let ?w = "ucast (word_of_nat ?n :: byte) :: u64"
  have n: "0 < ?n" "?n \<le> 64" and ok: "\<forall>l < ?n. level_ok l (?ls ! l)" and h: "unat (bump_height b) < 2 ^ 32"
    using assms by (auto simp: bump_ok_def)
  have un: "unat ?w = ?n" by (rule unat_byte_u64_small[OF n(2)])
  have first: "read_byte (reader_at pre (b # inp)) = Inr (b, reader_at (pre @ [b]) inp)" for pre b inp
    by (simp add: read_byte_reader_at)
  have "1 * length (map encode_level ?ls) \<le> length (concat (map encode_level ?ls))"
    by (rule concat_length_ge) (use length_encode_level in \<open>auto simp: Suc_le_eq\<close>)
  then have guard: "\<not> (?w = 0 \<or> 64 < ?w \<or> length (concat (map encode_level ?ls)) < unat ?w)"
    using n un by (simp add: word_unat_eq_iff[of ?w] word_less_nat_alt)
  have height: "\<not> 0xFFFFFFFF < bump_height b" using h by (simp add: word_less_nat_alt)
  have "preflightMerkleLevels ?n 0 (reader_at (compact (bump_height b) @ [word_of_nat ?n]) (concat (map encode_level ?ls)))
      = Inr (reader_at ((compact (bump_height b) @ [word_of_nat ?n]) @ concat (map encode_level ?ls)) [])"
    using preflightMerkleLevels_enc[of 0 ?ls _ "[]"] n ok by simp
  then show ?thesis
    using guard height un
    by (simp add: preflightMerklePath_def readBUMPTreeHeight_def encode_bump_def reader_at_start compactSize_enc
        first Let_def del: length_concat)
qed

lemma preflightMerklePath_dec:
  assumes "preflightMerklePath d = Inr ()" shows "\<exists>b. bump_ok b \<and> d = encode_bump b"
proof -
  from assms obtain h t mid r where d: "d = compact h @ t # mid" and h: "\<not> 0xFFFFFFFF < h"
    and t: "(ucast t :: u64) \<noteq> 0" "\<not> 64 < (ucast t :: u64)"
    and levels: "preflightMerkleLevels (unat t) 0 (reader_at (compact h @ [t]) mid) = Inr r"
    and fin: "remaining r = 0"
    by (auto simp: preflightMerklePath_def readBUMPTreeHeight_def reader_at_start rbind_Inr_iff compactSize_at_iff
        read_byte_reader_at Let_def split: if_splits)
  have ut: "0 < unat t" "unat t \<le> 64"
    using t by (auto simp: word_less_nat_alt not_less word_unat_eq_iff)
  from preflightMerkleLevels_dec[of "unat t" 0 "compact h @ [t]" mid r] levels ut obtain ls post where
    ls: "length ls = unat t" "\<forall>i < unat t. level_ok i (ls ! i)" "mid = concat (map encode_level ls) @ post"
    "r = reader_at ((compact h @ [t]) @ concat (map encode_level ls)) post" by auto
  from fin ls(4) have "post = []" by simp
  moreover have "unat h < 2 ^ 32" using h by (simp add: word_less_nat_alt)
  ultimately show ?thesis
    using d ls ut by (intro exI[of _ "\<lparr>bump_height = h, bump_levels = ls\<rparr>"]) (simp add: bump_ok_def encode_bump_def)
qed

lemma preflightMerklePath_iff: "preflightMerklePath d = Inr () \<longleftrightarrow> (\<exists>b. bump_ok b \<and> d = encode_bump b)"
  using preflightMerklePath_enc preflightMerklePath_dec by blast

lemma ParseBoundedMerklePath_Inr:
  "ParseBoundedMerklePath parse d m = Inr path \<longleftrightarrow>
     m \<noteq> 0 \<and> length d \<le> unat m \<and> (\<exists>b. bump_ok b \<and> d = encode_bump b) \<and> parse d = Inr path"
  by (auto simp: ParseBoundedMerklePath_def rbind_Inr_iff validateWireSize_def simp flip: preflightMerklePath_iff)

section \<open>Properties\<close>

text \<open>
  C22: the SDK parser is reached exactly for the encodings of well-formed BUMPs within the size
  limit: a 32-bit block height, 1 to 64 levels, distinct offsets inside their level, duplicates
  at right-hand offsets only, and a hash on the leaf level.
\<close>

theorem ParseBoundedMerklePath_iff:
  "ParseBoundedMerklePath newMerklePathFromReader d maxBytes = Inr path \<longleftrightarrow>
     maxBytes \<noteq> 0 \<and> length d \<le> unat maxBytes \<and> (\<exists>b. bump_ok b \<and> d = encode_bump b) \<and>
     newMerklePathFromReader d = Inr path"
  by (rule ParseBoundedMerklePath_Inr)

end
