(* ===== verification/Basm_Proof.thy ===== *)
theory Basm_Proof
  imports Basm_Bump
begin

text \<open>
  \<^verbatim>\<open>pkg/core/engine/basm-read-proof.go\<close>: checking a BUMP that storage supplies against the
  canonical header of its block, and merging checked proofs into one. The types of the SDK that
  carry a proof are the records \<open>PathElement\<close> and \<open>MerklePath\<close>; the SDK's parent hash
  \<open>MerkleTreeParent\<close> is an argument.
\<close>

section \<open>Data\<close>

text \<open>
  The errors of \<^verbatim>\<open>basm-read.go\<close>; \<open>ErrBASMInvalidDataBy\<close> wraps a validation error,
  \<open>Provider\<close> is any other error a storage view or a header source returns, \<open>ReadPanic\<close> a runtime panic.
\<close>

datatype read_error =
    ErrBASMUnsupported
  | ErrBASMNotReady
  | ErrBASMNotFound
  | ErrBASMInvalidData
  | ErrBASMInvalidDataBy basm_error
  | BasmError basm_error
  | ReadCtx ctx_error
  | Provider nat
  | ReadPanic

record BASMCanonicalHeader =
  hdr_Height :: u32
  hdr_BlockHash :: hash
  hdr_MerkleRoot :: hash
  hdr_TransactionCount :: u64

record PathElement =
  pe_Offset :: u64
  pe_Hash :: "hash option"
  pe_Txid :: "bool option"
  pe_Duplicate :: "bool option"

text \<open>The elements of a path are pointers, \<open>None\<close> is nil.\<close>

record MerklePath =
  mp_BlockHeight :: u32
  mp_Path :: "PathElement option list list"

text \<open>
  A level of a proof is a Go map from offsets to hash pointers: an association list with one
  entry per key, whose order is the order in which a range over the map visits it. A nil hash
  stands for the copy of the left sibling.
\<close>

type_synonym proof_level = "(u64 \<times> hash option) list"

definition level_set :: "u64 \<Rightarrow> hash option \<Rightarrow> proof_level \<Rightarrow> proof_level" where
  "level_set k v lv = (if map_of lv k = None then lv @ [(k, v)] else map (\<lambda>(k', v'). (k', if k' = k then v else v')) lv)"

section \<open>The checks\<close>

fun bits_len :: "nat \<Rightarrow> nat" where
  "bits_len n = (if n = 0 then 0 else Suc (bits_len (n div 2)))"

declare bits_len.simps [simp del]

definition merkleProofDepth :: "u64 \<Rightarrow> nat" where
  "merkleProofDepth txCount =
     (let depth = bits_len (unat (txCount - 1)) in if depth = 0 then 1 else depth)"

definition validateProofNodePlacement :: "PathElement \<Rightarrow> bool \<Rightarrow> u64 \<Rightarrow> read_error + unit" where
  "validateProofNodePlacement node duplicate width =
     (if duplicate then
        (if pe_Hash node \<noteq> None \<or> width \<le> 1 \<or> width mod 2 = 0 \<or> pe_Offset node \<noteq> width
         then Inl ErrBASMInvalidData else Inr ())
      else if pe_Hash node = None \<or> width \<le> pe_Offset node then Inl ErrBASMInvalidData
      else Inr ())"

text \<open>\<open>slices.BinarySearchFunc\<close> with the comparison of \<open>base >> level\<close> and \<open>ancestor\<close>.\<close>

function binary_search :: "(u64 \<Rightarrow> u64) \<Rightarrow> u64 list \<Rightarrow> u64 \<Rightarrow> nat \<Rightarrow> nat \<Rightarrow> nat" where
  "binary_search key xs target i j =
     (if i < j then
        let h = (i + j) div 2 in
        if key (xs ! h) < target then binary_search key xs target (h + 1) j
        else binary_search key xs target i h
      else i)"
  by pat_completeness auto
termination
  by (relation "measure (\<lambda>(key, xs, target, i, j). j - i)") auto

declare binary_search.simps [simp del]

definition legalProofAncestor :: "u64 \<Rightarrow> nat \<Rightarrow> u64 list \<Rightarrow> bool" where
  "legalProofAncestor offset level baseOffsets =
     (let key = (\<lambda>base. drop_bit level base);
          i = binary_search key baseOffsets (offset XOR 1) 0 (length baseOffsets)
      in i < length baseOffsets \<and> key (baseOffsets ! i) = offset XOR 1)"

definition indexProofNode ::
  "proof_level list \<Rightarrow> u64 list \<Rightarrow> PathElement option \<Rightarrow> nat \<Rightarrow> u64 \<Rightarrow> read_error + (proof_level list \<times> u64 list)" where
  "indexProofNode levels baseOffsets node level width =
     (case node of
        None \<Rightarrow> Inl ErrBASMInvalidData
      | Some node \<Rightarrow>
          let duplicate = (pe_Duplicate node = Some True) in
          rbind (validateProofNodePlacement node duplicate width) (\<lambda>_.
          rbind (if level = 0 then Inr (if \<not> duplicate then baseOffsets @ [pe_Offset node] else baseOffsets)
                 else if \<not> legalProofAncestor (pe_Offset node) level baseOffsets then Inl ErrBASMInvalidData
                 else Inr baseOffsets) (\<lambda>baseOffsets.
            if map_of (levels ! level) (pe_Offset node) \<noteq> None then Inl ErrBASMInvalidData
            else Inr (levels[level := level_set (pe_Offset node) (pe_Hash node) (levels ! level)], baseOffsets))))"

fun indexProofLevel ::
  "proof_level list \<Rightarrow> u64 list \<Rightarrow> PathElement option list \<Rightarrow> nat \<Rightarrow> u64 \<Rightarrow> read_error + (proof_level list \<times> u64 list)" where
  "indexProofLevel levels baseOffsets [] level width = Inr (levels, baseOffsets)"
| "indexProofLevel levels baseOffsets (node # nodes) level width =
     rbind (indexProofNode levels baseOffsets node level width) (\<lambda>(levels, baseOffsets).
       indexProofLevel levels baseOffsets nodes level width)"

fun indexProofNodes_from ::
  "proof_level list \<Rightarrow> u64 list \<Rightarrow> PathElement option list list \<Rightarrow> nat \<Rightarrow> u64 \<Rightarrow>
   (read_error, proof_level list \<times> u64 list) cm" where
  "indexProofNodes_from levels baseOffsets [] level width = cret (levels, baseOffsets)"
| "indexProofNodes_from levels baseOffsets (nodes # path) level width =
     cbind (cpoll ReadCtx) (\<lambda>_.
     cbind (clift (indexProofLevel levels baseOffsets nodes level width)) (\<lambda>(levels, baseOffsets).
       indexProofNodes_from levels (if level = 0 then sort baseOffsets else baseOffsets) path (Suc level)
         (width div 2 + width mod 2)))"

definition indexProofNodes ::
  "MerklePath \<Rightarrow> u64 \<Rightarrow> nat \<Rightarrow> (read_error, proof_level list \<times> u64 list) cm" where
  "indexProofNodes path txCount depth = indexProofNodes_from (replicate (depth + 1) []) [] (mp_Path path) 0 txCount"

definition checkProofLeaf ::
  "proof_level list \<Rightarrow> MerklePath \<Rightarrow> hash \<Rightarrow> u64 \<Rightarrow> BASMCanonicalHeader \<Rightarrow> read_error + unit" where
  "checkProofLeaf levels path txid position header =
     (if map_of (levels ! 0) position \<noteq> Some (Some txid) then Inl ErrBASMInvalidData
      else if hdr_TransactionCount header \<noteq> 1 then Inr ()
      else if length (mp_Path path) \<noteq> 1 \<or> length (mp_Path path ! 0) \<noteq> 1 \<or> position \<noteq> 0 \<or> txid \<noteq> hdr_MerkleRoot header
      then Inl ErrBASMInvalidData
      else Inr ())"

text \<open>One level: the loop over its entries fills the level above.\<close>

fun deriveProofLevel_over ::
  "(hash \<Rightarrow> hash \<Rightarrow> hash) \<Rightarrow> proof_level \<Rightarrow> proof_level \<Rightarrow> proof_level \<Rightarrow> read_error + proof_level" where
  "deriveProofLevel_over merkleTreeParent [] lv up = Inr up"
| "deriveProofLevel_over merkleTreeParent ((offset, left) # entries) lv up =
     (case left of
        None \<Rightarrow> deriveProofLevel_over merkleTreeParent entries lv up
      | Some l \<Rightarrow>
          if offset mod 2 \<noteq> 0 then deriveProofLevel_over merkleTreeParent entries lv up
          else (case map_of lv (offset + 1) of
              None \<Rightarrow> deriveProofLevel_over merkleTreeParent entries lv up
            | Some right \<Rightarrow>
                let parent = merkleTreeParent l (case right of None \<Rightarrow> l | Some r \<Rightarrow> r) in
                if map_of up (offset div 2) \<noteq> None \<and> map_of up (offset div 2) \<noteq> Some (Some parent)
                then Inl ErrBASMInvalidData
                else deriveProofLevel_over merkleTreeParent entries lv (level_set (offset div 2) (Some parent) up)))"

definition deriveProofLevel ::
  "(hash \<Rightarrow> hash \<Rightarrow> hash) \<Rightarrow> proof_level list \<Rightarrow> nat \<Rightarrow> read_error + proof_level list" where
  "deriveProofLevel merkleTreeParent levels level =
     rbind (deriveProofLevel_over merkleTreeParent (levels ! level) (levels ! level) (levels ! (level + 1)))
       (\<lambda>up. Inr (levels[level + 1 := up]))"

fun deriveProofParents_from ::
  "(hash \<Rightarrow> hash \<Rightarrow> hash) \<Rightarrow> proof_level list \<Rightarrow> nat \<Rightarrow> nat \<Rightarrow> (read_error, proof_level list) cm" where
  "deriveProofParents_from merkleTreeParent levels level 0 = cret levels"
| "deriveProofParents_from merkleTreeParent levels level (Suc n) =
     cbind (cpoll ReadCtx) (\<lambda>_.
     cbind (clift (deriveProofLevel merkleTreeParent levels level)) (\<lambda>levels.
       deriveProofParents_from merkleTreeParent levels (Suc level) n))"

definition deriveProofParents ::
  "(hash \<Rightarrow> hash \<Rightarrow> hash) \<Rightarrow> proof_level list \<Rightarrow> nat \<Rightarrow> (read_error, proof_level list) cm" where
  "deriveProofParents merkleTreeParent levels depth = deriveProofParents_from merkleTreeParent levels 0 depth"

text \<open>A lookup of a missing key and of a nil hash both give the nil pointer.\<close>

definition level_hash :: "proof_level \<Rightarrow> u64 \<Rightarrow> hash option" where
  "level_hash lv k = Option.bind (map_of lv k) id"

definition connectedProofBase :: "proof_level list \<Rightarrow> u64 \<Rightarrow> nat \<Rightarrow> bool" where
  "connectedProofBase levels offset depth =
     list_all (\<lambda>level. map_of (levels ! level) (drop_bit level offset XOR 1) \<noteq> None \<and>
        level_hash (levels ! (level + 1)) (drop_bit (level + 1) offset) \<noteq> None) [0..<depth]"

fun walkProofBaseOffsets_from ::
  "nat \<Rightarrow> proof_level list \<Rightarrow> u64 list \<Rightarrow> nat \<Rightarrow> (read_error, unit) cm" where
  "walkProofBaseOffsets_from i levels [] depth = cret ()"
| "walkProofBaseOffsets_from i levels (offset # baseOffsets) depth =
     cbind (if i mod 1024 = 0 then cpoll ReadCtx else cret ()) (\<lambda>_.
       if \<not> connectedProofBase levels offset depth then clift (Inl ErrBASMInvalidData)
       else walkProofBaseOffsets_from (Suc i) levels baseOffsets depth)"

definition walkProofBaseOffsets :: "proof_level list \<Rightarrow> u64 list \<Rightarrow> nat \<Rightarrow> (read_error, unit) cm" where
  "walkProofBaseOffsets levels baseOffsets depth = walkProofBaseOffsets_from 0 levels baseOffsets depth"

definition validateBASMProof ::
  "(hash \<Rightarrow> hash \<Rightarrow> hash) \<Rightarrow> MerklePath \<Rightarrow> hash \<Rightarrow> u64 \<Rightarrow> BASMCanonicalHeader \<Rightarrow> (read_error, unit) cm" where
  "validateBASMProof merkleTreeParent path txid position header =
     (let depth = merkleProofDepth (hdr_TransactionCount header) in
      if mp_BlockHeight path \<noteq> hdr_Height header \<or> length (mp_Path path) = 0 \<or> depth < length (mp_Path path)
      then clift (Inl ErrBASMInvalidData)
      else
        cbind (indexProofNodes path (hdr_TransactionCount header) depth) (\<lambda>(levels, baseOffsets).
        cbind (clift (checkProofLeaf levels path txid position header)) (\<lambda>_.
          if hdr_TransactionCount header = 1 then cret ()
          else
        cbind (deriveProofParents merkleTreeParent levels depth) (\<lambda>levels.
          let root = level_hash (levels ! depth) 0 in
          if root = None \<or> root \<noteq> Some (hdr_MerkleRoot header) then clift (Inl ErrBASMInvalidData)
          else walkProofBaseOffsets levels baseOffsets depth))))"

section \<open>Association lists as maps\<close>

lemma map_of_level_set [simp]: "map_of (level_set k v lv) = (map_of lv)(k \<mapsto> v)"
proof (cases "map_of lv k")
  case None
  then show ?thesis by (auto simp: level_set_def fun_eq_iff map_add_def split: option.split)
next
  case (Some w)
  have "map_of (map (\<lambda>(k', v'). (k', if k' = k then v else v')) lv) k'' =
      (if k'' = k \<and> map_of lv k \<noteq> None then Some v else map_of lv k'')" for k''
    by (induction lv) auto
  with Some show ?thesis by (auto simp: level_set_def fun_eq_iff)
qed

section \<open>The binary search\<close>

definition splits_at :: "(u64 \<Rightarrow> u64) \<Rightarrow> u64 list \<Rightarrow> u64 \<Rightarrow> nat \<Rightarrow> bool" where
  "splits_at key xs t r \<longleftrightarrow> r \<le> length xs \<and> (\<forall>a < r. key (xs ! a) < t) \<and>
     (\<forall>a. r \<le> a \<longrightarrow> a < length xs \<longrightarrow> t \<le> key (xs ! a))"

lemma binary_search_splits:
  assumes "sorted (map key xs)" "i \<le> j" "j \<le> length xs"
    and "\<forall>a < i. key (xs ! a) < t" "\<forall>a. j \<le> a \<longrightarrow> a < length xs \<longrightarrow> t \<le> key (xs ! a)"
  shows "splits_at key xs t (binary_search key xs t i j)"
  using assms
proof (induction key xs t i j rule: binary_search.induct)
  case (1 key xs t i j)
  show ?case
  proof (cases "i < j")
    case False
    with "1.prems" show ?thesis by (subst binary_search.simps) (auto simp: splits_at_def)
  next
    case True
    let ?h = "(i + j) div 2"
    have h: "i \<le> ?h" "?h < j" "?h < length xs" using True "1.prems" by auto
    have mono: "key (xs ! a) \<le> key (xs ! b)" if "a \<le> b" "b < length xs" for a b
      using sorted_nth_mono[OF "1.prems"(1) that(1)] that by simp
    show ?thesis
    proof (cases "key (xs ! ?h) < t")
      case small: True
      have "\<forall>a < ?h + 1. key (xs ! a) < t"
        using small h mono by (auto simp: less_Suc_eq_le intro: le_less_trans)
      with small show ?thesis using True "1.IH"(1)[OF True refl small] "1.prems" h
        by (subst binary_search.simps) (simp add: Let_def Suc_le_eq)
    next
      case big: False
      have "\<forall>a. ?h \<le> a \<longrightarrow> a < length xs \<longrightarrow> t \<le> key (xs ! a)"
        using big mono[of ?h] by (auto simp: not_less intro: order_trans)
      with big show ?thesis using True "1.IH"(2)[OF True refl big] "1.prems" h
        by (subst binary_search.simps) (simp add: Let_def)
    qed
  qed
qed

lemma sorted_drop_bit: "sorted (map (drop_bit l) (xs :: u64 list))" if "sorted xs"
proof -
  have "drop_bit l a \<le> drop_bit l b" if "a \<le> b" for a b :: u64
    using that unfolding word_le_nat_alt unat_drop_bit_eq by (simp add: drop_bit_eq_div div_le_mono)
  then show ?thesis using that by (intro sorted_map_mono) (auto intro: mono_onI)
qed

lemma legalProofAncestor_iff:
  assumes "sorted baseOffsets"
  shows "legalProofAncestor offset level baseOffsets \<longleftrightarrow> (\<exists>base \<in> set baseOffsets. drop_bit level base = offset XOR 1)"
proof -
  let ?t = "offset XOR 1" and ?key = "drop_bit level :: u64 \<Rightarrow> u64"
  let ?r = "binary_search ?key baseOffsets ?t 0 (length baseOffsets)"
  have "splits_at ?key baseOffsets ?t ?r"
    by (rule binary_search_splits[OF sorted_drop_bit[OF assms]]) simp_all
  then have r: "?r \<le> length baseOffsets" "\<forall>a < ?r. ?key (baseOffsets ! a) < ?t"
    "\<forall>a. ?r \<le> a \<longrightarrow> a < length baseOffsets \<longrightarrow> ?t \<le> ?key (baseOffsets ! a)"
    by (auto simp: splits_at_def)
  have "?r < length baseOffsets \<and> ?key (baseOffsets ! ?r) = ?t" if base: "base \<in> set baseOffsets" "?key base = ?t" for base
  proof -
    from base obtain a where a: "a < length baseOffsets" "?key (baseOffsets ! a) = ?t" by (auto simp: in_set_conv_nth)
    with r(2) have "?r \<le> a" by (metis less_irrefl not_less)
    then have "?r < length baseOffsets" using a by simp
    moreover have "?key (baseOffsets ! ?r) \<le> ?key (baseOffsets ! a)"
      using sorted_nth_mono[OF sorted_drop_bit[OF assms] \<open>?r \<le> a\<close>, of level] a(1) \<open>?r \<le> a\<close> by simp
    ultimately show ?thesis using r(3) a(2) by (metis antisym order_refl)
  qed
  then show ?thesis by (auto simp: legalProofAncestor_def Let_def)
qed

section \<open>Deriving parents\<close>

abbreviation parent_of :: "(hash \<Rightarrow> hash \<Rightarrow> hash) \<Rightarrow> hash \<Rightarrow> hash option \<Rightarrow> hash" where
  "parent_of P l r \<equiv> P l (case r of None \<Rightarrow> l | Some x \<Rightarrow> x)"

definition linked :: "(hash \<Rightarrow> hash \<Rightarrow> hash) \<Rightarrow> proof_level \<Rightarrow> proof_level \<Rightarrow> bool" where
  "linked P lv up \<longleftrightarrow> (\<forall>k l r. map_of lv k = Some (Some l) \<longrightarrow> even k \<longrightarrow> map_of lv (k + 1) = Some r \<longrightarrow>
     map_of up (k div 2) = Some (Some (parent_of P l r)))"

text \<open>Only an odd offset may hold a nil hash.\<close>

definition nil_odd :: "proof_level \<Rightarrow> bool" where
  "nil_odd lv \<longleftrightarrow> (\<forall>k. map_of lv k = Some None \<longrightarrow> odd k)"

text \<open>An entry is skipped, or it sets the parent of a complete pair.\<close>

lemma deriveProofLevel_over_cases:
  assumes "deriveProofLevel_over P ((k, left) # entries) lv up = Inr up'"
  obtains (skip) "left = None \<or> odd k \<or> map_of lv (k + 1) = None" "deriveProofLevel_over P entries lv up = Inr up'"
  | (pair) l r where "left = Some l" "even k" "map_of lv (k + 1) = Some r"
      "map_of up (k div 2) = None \<or> map_of up (k div 2) = Some (Some (parent_of P l r))"
      "deriveProofLevel_over P entries lv (level_set (k div 2) (Some (parent_of P l r)) up) = Inr up'"
proof -
  have par: "k mod 2 \<noteq> 0 \<longleftrightarrow> odd k" by (simp add: even_iff_mod_2_eq_zero)
  show thesis
  proof (cases "left = None \<or> odd k \<or> map_of lv (k + 1) = None")
    case True
    with assms have "deriveProofLevel_over P entries lv up = Inr up'"
      unfolding deriveProofLevel_over.simps(2) par by (auto split: option.splits if_splits)
    with True show thesis by (rule skip)
  next
    case False
    then obtain l r where lr: "left = Some l" "even k" "map_of lv (k + 1) = Some r" by auto
    then show thesis
      using assms pair[OF lr] unfolding deriveProofLevel_over.simps(2) par by (auto simp: Let_def split: if_splits)
  qed
qed

lemma map_le_SomeD: "m \<subseteq>\<^sub>m m' \<Longrightarrow> m k = Some v \<Longrightarrow> m' k = Some v"
  by (auto simp: map_le_def dom_def)

lemma deriveProofLevel_over_grows:
  "deriveProofLevel_over P entries lv up = Inr up' \<Longrightarrow> map_of up \<subseteq>\<^sub>m map_of up'"
proof (induction entries arbitrary: up)
  case Nil
  then show ?case by simp
next
  case (Cons e entries)
  obtain k left where e: "e = (k, left)" by fastforce
  from Cons.prems[unfolded e] show ?case
  proof (cases rule: deriveProofLevel_over_cases)
    case skip
    then show ?thesis by (intro Cons.IH)
  next
    case (pair l r)
    then have "map_of up \<subseteq>\<^sub>m map_of (level_set (k div 2) (Some (parent_of P l r)) up)"
      by (auto simp: map_le_def)
    then show ?thesis by (rule map_le_trans[OF _ Cons.IH[OF pair(5)]])
  qed
qed

lemma deriveProofLevel_over_links:
  assumes "deriveProofLevel_over P entries lv up = Inr up'" "(k, Some l) \<in> set entries"
    "even k" "map_of lv (k + 1) = Some r"
  shows "map_of up' (k div 2) = Some (Some (parent_of P l r))"
  using assms
proof (induction entries arbitrary: up)
  case Nil
  then show ?case by simp
next
  case (Cons e entries)
  obtain k' left where e: "e = (k', left)" by fastforce
  show ?case
  proof (cases "e = (k, Some l)")
    case True
    from Cons.prems(1)[unfolded True] show ?thesis
    proof (cases rule: deriveProofLevel_over_cases)
      case skip
      with Cons.prems(3,4) show ?thesis by simp
    next
      case (pair l' r')
      have "l' = l" "r' = r" using pair(1,3) Cons.prems(4) by simp_all
      then have "map_of (level_set (k div 2) (Some (parent_of P l' r')) up) (k div 2) = Some (Some (parent_of P l r))"
        by (simp cong: option.case_cong)
      then show ?thesis by (rule map_le_SomeD[OF deriveProofLevel_over_grows[OF pair(5)]])
    qed
  next
    case False
    with Cons.prems(2) have mem: "(k, Some l) \<in> set entries" by simp
    from Cons.prems(1)[unfolded e] show ?thesis
      by (cases rule: deriveProofLevel_over_cases) (rule Cons.IH[OF _ mem Cons.prems(3,4)], assumption)+
  qed
qed

lemma deriveProofLevel_over_nil_odd:
  "deriveProofLevel_over P entries lv up = Inr up' \<Longrightarrow> nil_odd up \<Longrightarrow> nil_odd up'"
proof (induction entries arbitrary: up)
  case Nil
  then show ?case by simp
next
  case (Cons e entries)
  obtain k left where e: "e = (k, left)" by fastforce
  have set: "nil_odd (level_set j (Some p) up)" for j p
    using Cons.prems(2) by (auto simp: nil_odd_def)
  from Cons.prems(1)[unfolded e] show ?case
    by (cases rule: deriveProofLevel_over_cases) (auto intro: Cons.IH Cons.prems(2) set)
qed

lemma deriveProofLevel_Inr:
  assumes "deriveProofLevel P levels level = Inr levels'" "level + 1 < length levels"
  shows "length levels' = length levels \<and> (\<forall>l. l \<noteq> level + 1 \<longrightarrow> levels' ! l = levels ! l) \<and>
    linked P (levels' ! level) (levels' ! (level + 1)) \<and>
    (nil_odd (levels ! (level + 1)) \<longrightarrow> nil_odd (levels' ! (level + 1)))"
proof -
  from assms obtain up where up: "deriveProofLevel_over P (levels ! level) (levels ! level) (levels ! (level + 1)) = Inr up"
    and l': "levels' = levels[level + 1 := up]"
    by (auto simp: deriveProofLevel_def rbind_Inr_iff)
  have "linked P (levels ! level) up"
    unfolding linked_def by (auto intro: deriveProofLevel_over_links[OF up] map_of_SomeD)
  then show ?thesis
    using assms(2) deriveProofLevel_over_nil_odd[OF up] by (auto simp: l')
qed

lemma deriveProofParents_from_Inr:
  assumes "fst (deriveProofParents_from P levels level n c) = Inr levels'" "level + n < length levels"
  shows "length levels' = length levels \<and> (\<forall>l \<le> level. levels' ! l = levels ! l) \<and>
    (\<forall>l. level \<le> l \<longrightarrow> l < level + n \<longrightarrow> linked P (levels' ! l) (levels' ! (l + 1))) \<and>
    ((\<forall>l < length levels. nil_odd (levels ! l)) \<longrightarrow> (\<forall>l < length levels. nil_odd (levels' ! l)))"
  using assms
proof (induction n arbitrary: levels level c)
  case 0
  then show ?case by simp
next
  case (Suc n)
  from Suc.prems obtain mid c' where mid: "deriveProofLevel P levels level = Inr mid"
    and rest: "fst (deriveProofParents_from P mid (Suc level) n c') = Inr levels'"
    by (auto simp: fst_cbind_Inr)
  have m: "length mid = length levels" "\<forall>l. l \<noteq> level + 1 \<longrightarrow> mid ! l = levels ! l"
    "linked P (mid ! level) (mid ! (level + 1))"
    "nil_odd (levels ! (level + 1)) \<longrightarrow> nil_odd (mid ! (level + 1))"
    using deriveProofLevel_Inr[OF mid] Suc.prems(2) by auto
  have IH: "length levels' = length mid" "\<forall>l \<le> Suc level. levels' ! l = mid ! l"
    "\<forall>l. Suc level \<le> l \<longrightarrow> l < Suc level + n \<longrightarrow> linked P (levels' ! l) (levels' ! (l + 1))"
    "(\<forall>l < length mid. nil_odd (mid ! l)) \<longrightarrow> (\<forall>l < length mid. nil_odd (levels' ! l))"
    using Suc.IH[OF rest] Suc.prems(2) m(1) by auto
  have "linked P (levels' ! l) (levels' ! (l + 1))" if "level \<le> l" "l < level + Suc n" for l
    using that m(3) IH(2,3) by (cases "l = level") auto
  moreover have "\<forall>l < length levels. nil_odd (levels' ! l)" if "\<forall>l < length levels. nil_odd (levels ! l)"
  proof -
    have "nil_odd (mid ! l)" if "l < length mid" for l
      using \<open>\<forall>l < length levels. nil_odd (levels ! l)\<close> that m by (cases "l = level + 1") auto
    then show ?thesis using IH(4) m(1) by simp
  qed
  ultimately show ?case using m(1,2) IH(1,2) by auto
qed

section \<open>Indexing the supplied nodes\<close>

definition leaves_based :: "proof_level list \<Rightarrow> u64 list \<Rightarrow> u64 \<Rightarrow> bool" where
  "leaves_based levels baseOffsets n \<longleftrightarrow>
     (\<forall>k h. map_of (levels ! 0) k = Some (Some h) \<longrightarrow> k \<in> set baseOffsets \<and> k < n)"

text \<open>What every step of the indexing keeps.\<close>

definition index_inv :: "u64 \<Rightarrow> proof_level list \<Rightarrow> u64 list \<Rightarrow> bool" where
  "index_inv n levels baseOffsets \<longleftrightarrow>
     leaves_based levels baseOffsets n \<and> (\<forall>l < length levels. nil_odd (levels ! l))"

lemma validateProofNodePlacement_Inr:
  assumes "validateProofNodePlacement node duplicate width = Inr u"
  shows "(if duplicate then pe_Hash node = None \<and> odd (pe_Offset node)
          else pe_Hash node \<noteq> None \<and> pe_Offset node < width)"
  using assms by (auto simp: validateProofNodePlacement_def even_iff_mod_2_eq_zero not_le split: if_splits)

lemma indexProofNode_Inr:
  assumes "indexProofNode levels bases node level width = Inr (levels', bases')" "index_inv n levels bases"
    and "level < length levels" "level = 0 \<longrightarrow> width = n"
  shows "length levels' = length levels \<and> index_inv n levels' bases'"
proof -
  obtain nd where node: "node = Some nd" using assms(1) by (cases node) (auto simp: indexProofNode_def)
  let ?dup = "pe_Duplicate nd = Some True"
  have place: "if ?dup then pe_Hash nd = None \<and> odd (pe_Offset nd) else pe_Hash nd \<noteq> None \<and> pe_Offset nd < width"
    using assms(1) by (intro validateProofNodePlacement_Inr) (auto simp: indexProofNode_def node Let_def rbind_Inr_iff)
  have bases: "bases' = (if level = 0 \<and> \<not> ?dup then bases @ [pe_Offset nd] else bases)"
    and levels: "levels' = levels[level := level_set (pe_Offset nd) (pe_Hash nd) (levels ! level)]"
    using assms(1) by (auto simp: indexProofNode_def node Let_def rbind_Inr_iff split: if_splits)
  have old: "nil_odd (levels ! l)" if "l < length levels" for l using assms(2) that by (simp add: index_inv_def)
  have "nil_odd (level_set (pe_Offset nd) (pe_Hash nd) (levels ! level))"
    using old[OF assms(3)] place by (auto simp: nil_odd_def split: if_splits)
  then have "\<forall>l < length levels'. nil_odd (levels' ! l)"
    using old assms(3) by (auto simp: levels nth_list_update)
  moreover have "leaves_based levels' bases' n"
  proof (cases "level = 0")
    case True
    then have "levels' ! 0 = level_set (pe_Offset nd) (pe_Hash nd) (levels ! 0)"
      using assms(3) by (simp add: levels)
    with True assms(2,4) place bases show ?thesis
      by (auto simp: index_inv_def leaves_based_def split: if_splits)
  next
    case False
    with assms(2) bases levels show ?thesis by (auto simp: index_inv_def leaves_based_def)
  qed
  ultimately show ?thesis by (simp add: levels index_inv_def)
qed

lemma indexProofLevel_Inr:
  assumes "indexProofLevel levels bases nodes level width = Inr (levels', bases')" "index_inv n levels bases"
    and "level < length levels" "level = 0 \<longrightarrow> width = n"
  shows "length levels' = length levels \<and> index_inv n levels' bases'"
  using assms
proof (induction nodes arbitrary: levels bases)
  case Nil
  then show ?case by simp
next
  case (Cons node nodes)
  from Cons.prems(1) obtain l1 b1 where one: "indexProofNode levels bases node level width = Inr (l1, b1)"
    and rest: "indexProofLevel l1 b1 nodes level width = Inr (levels', bases')"
    by (auto simp: rbind_Inr_iff)
  from indexProofNode_Inr[OF one Cons.prems(2-4)] have "length l1 = length levels" "index_inv n l1 b1" by simp_all
  with Cons.IH[OF rest] Cons.prems(3,4) show ?case by simp
qed

lemma indexProofNodes_from_Inr:
  assumes "fst (indexProofNodes_from levels bases path level width c) = Inr (levels', bases')" "index_inv n levels bases"
    and "level + length path \<le> length levels" "level = 0 \<longrightarrow> width = n"
  shows "length levels' = length levels \<and> index_inv n levels' bases'"
  using assms
proof (induction path arbitrary: levels bases level width c)
  case Nil
  then show ?case by simp
next
  case (Cons nodes path)
  from Cons.prems(1) obtain l1 b1 c' where one: "indexProofLevel levels bases nodes level width = Inr (l1, b1)"
    and rest: "fst (indexProofNodes_from l1 (if level = 0 then sort b1 else b1) path (Suc level)
      (width div 2 + width mod 2) c') = Inr (levels', bases')"
    by (auto simp: fst_cbind_Inr)
  have l1: "length l1 = length levels" "index_inv n l1 b1"
    using indexProofLevel_Inr[OF one Cons.prems(2)] Cons.prems(3,4) by auto
  then have "index_inv n l1 (if level = 0 then sort b1 else b1)" by (auto simp: index_inv_def leaves_based_def)
  from Cons.IH[OF rest this] l1(1) Cons.prems(3) show ?case by auto
qed

lemma indexProofNodes_Inr:
  assumes "fst (indexProofNodes path n depth c) = Inr (levels, bases)" "length (mp_Path path) \<le> depth"
  shows "length levels = depth + 1 \<and> index_inv n levels bases"
proof -
  have "index_inv n (replicate (depth + 1) []) []"
    by (auto simp: index_inv_def leaves_based_def nil_odd_def nth_Cons' simp del: replicate_Suc)
  with indexProofNodes_from_Inr[OF assms(1)[unfolded indexProofNodes_def]] assms(2) show ?thesis by simp
qed

lemma walkProofBaseOffsets_from_Inr:
  "fst (walkProofBaseOffsets_from i levels bases depth c) = Inr u \<Longrightarrow> k \<in> set bases \<Longrightarrow>
     connectedProofBase levels k depth"
  by (induction bases arbitrary: i c) (auto simp: fst_cbind_Inr split: if_splits)

section \<open>Hash paths\<close>

text \<open>Hashing up from position \<open>pos\<close> with the siblings of the levels.\<close>

fun path_root :: "(hash \<Rightarrow> hash \<Rightarrow> hash) \<Rightarrow> nat \<Rightarrow> hash \<Rightarrow> hash list \<Rightarrow> hash" where
  "path_root P pos h [] = h"
| "path_root P pos h (s # ss) = path_root P (pos div 2) (if even pos then P h s else P s h) ss"

fun path_inputs :: "nat \<Rightarrow> hash \<Rightarrow> hash list \<Rightarrow> byte list list" where
  "path_inputs pos h [] = []"
| "path_inputs pos h (s # ss) =
     (if even pos then h @ s else s @ h) # path_inputs (pos div 2) (if even pos then hashPair h s else hashPair s h) ss"

lemma path_root_snoc:
  "path_root P pos h (ss @ [s]) =
     (if even (pos div 2 ^ length ss) then P (path_root P pos h ss) s else P s (path_root P pos h ss))"
  by (induction ss arbitrary: pos h) (simp_all add: div_mult2_eq)

text \<open>The sibling that the derived levels hold for a position: a nil hash copies the node itself.\<close>

definition level_sibling :: "proof_level list \<Rightarrow> u64 \<Rightarrow> nat \<Rightarrow> hash" where
  "level_sibling levels position l =
     (case map_of (levels ! l) (drop_bit l position XOR 1) of
        Some (Some s) \<Rightarrow> s
      | _ \<Rightarrow> (case level_hash (levels ! l) (drop_bit l position) of Some h \<Rightarrow> h | None \<Rightarrow> []))"

lemma xor_one_even: "even k \<Longrightarrow> k XOR 1 = k + (1 :: u64)"
  by (simp add: xor_one_eq)

lemma xor_one_odd: "odd k \<Longrightarrow> k XOR 1 = k - (1 :: u64)"
  by (simp add: xor_one_eq)

lemma xor_one_div: "(k XOR 1) div 2 = k div (2 :: u64)"
proof -
  have "drop_bit 1 (k XOR 1) = drop_bit 1 k" by (rule bit_word_eqI) (auto simp: bit_simps)
  then show ?thesis by (simp add: drop_bit_eq_div)
qed

lemma drop_bit_Suc_div: "drop_bit (Suc l) k = drop_bit l k div (2 :: u64)"
proof -
  have "drop_bit l k div 2 = drop_bit 1 (drop_bit l k)" by (simp only: drop_bit_eq_div power_one_right)
  then show ?thesis by (simp add: drop_bit_drop_bit)
qed

lemma even_drop_bit: "even (drop_bit l (k :: u64)) \<longleftrightarrow> even (unat k div 2 ^ l)"
proof -
  have "even w \<longleftrightarrow> even (unat w)" for w :: u64 by (simp add: even_iff_mod_2_eq_zero word_unat_eq_iff unat_mod)
  then have "even (drop_bit l k) \<longleftrightarrow> even (unat (drop_bit l k))" by simp
  then show ?thesis unfolding unat_drop_bit_eq by (simp add: drop_bit_eq_div)
qed

lemma linkedD:
  "linked P lv up \<Longrightarrow> map_of lv k = Some (Some l) \<Longrightarrow> even k \<Longrightarrow> map_of lv (k + 1) = Some r \<Longrightarrow>
     map_of up (k div 2) = Some (Some (parent_of P l r))"
  by (simp add: linked_def)

text \<open>One level up: the parent of a connected position is hashed from the position and its sibling.\<close>

lemma linked_step:
  assumes link: "linked P (L ! l) (L ! Suc l)" and odd_nil: "nil_odd (L ! l)"
    and node: "map_of (L ! l) (drop_bit l k) = Some (Some h)"
    and sib: "map_of (L ! l) (drop_bit l k XOR 1) \<noteq> None"
  shows "map_of (L ! Suc l) (drop_bit (Suc l) k) =
    Some (Some (if even (unat k div 2 ^ l) then P h (level_sibling L k l) else P (level_sibling L k l) h))"
proof (cases "even (drop_bit l k)")
  case True
  from sib obtain r where r: "map_of (L ! l) (drop_bit l k + 1) = Some r" by (auto simp: xor_one_even[OF True])
  then have "parent_of P h r = P h (level_sibling L k l)"
    using node by (auto simp: level_sibling_def xor_one_even[OF True] level_hash_def split: option.splits)
  with link node r True show ?thesis
    by (auto simp: linked_def drop_bit_Suc_div even_drop_bit)
next
  case False
  let ?e = "drop_bit l k - 1"
  have ev: "even ?e" using False by simp
  from sib obtain left where left: "map_of (L ! l) ?e = Some left" by (auto simp: xor_one_odd[OF False])
  with odd_nil ev obtain s where s: "left = Some s" by (cases left) (auto simp: nil_odd_def)
  have "?e div 2 = drop_bit l k div 2"
    using xor_one_div[of "drop_bit l k"] by (simp add: xor_one_odd[OF False])
  then have "map_of (L ! Suc l) (drop_bit l k div 2) = Some (Some (P s h))"
    using linkedD[OF link left[unfolded s] ev, of "Some h"] node by simp
  moreover have "level_sibling L k l = s"
    using left s by (simp add: level_sibling_def xor_one_odd[OF False])
  ultimately show ?thesis using False by (simp add: drop_bit_Suc_div even_drop_bit)
qed

lemma linked_path:
  assumes link: "\<forall>l < depth. linked P (L ! l) (L ! Suc l)" and odd_nil: "\<forall>l \<le> depth. nil_odd (L ! l)"
    and leaf: "map_of (L ! 0) k = Some (Some txid)" and conn: "connectedProofBase L k depth"
  shows "l \<le> depth \<Longrightarrow> map_of (L ! l) (drop_bit l k) =
    Some (Some (path_root P (unat k) txid (map (level_sibling L k) [0..<l])))"
proof (induction l)
  case 0
  then show ?case using leaf by simp
next
  case (Suc l)
  then have node: "map_of (L ! l) (drop_bit l k) =
      Some (Some (path_root P (unat k) txid (map (level_sibling L k) [0..<l])))" by simp
  have "map_of (L ! l) (drop_bit l k XOR 1) \<noteq> None"
    using conn Suc.prems by (simp add: connectedProofBase_def list_all_iff)
  from linked_step[OF _ _ node this] link odd_nil Suc.prems show ?case
    by (simp add: path_root_snoc)
qed

section \<open>Soundness\<close>

lemma bits_len_less: "n < 2 ^ bits_len n"
proof (induction n rule: bits_len.induct)
  case (1 n)
  then show ?case by (cases "n = 0") (subst bits_len.simps, auto)+
qed

lemma transparent_indexProofNodes_from [transparent_intros]:
  "transparent ReadCtx (indexProofNodes_from levels bases path level width)"
  by (induction path arbitrary: levels bases level width)
     (auto intro!: transparent_intros split: prod.split)

lemma transparent_deriveProofParents_from [transparent_intros]:
  "transparent ReadCtx (deriveProofParents_from P levels level n)"
  by (induction n arbitrary: levels level) (auto intro!: transparent_intros)

lemma transparent_walkProofBaseOffsets_from [transparent_intros]:
  "transparent ReadCtx (walkProofBaseOffsets_from i levels bases depth)"
  by (induction bases arbitrary: i) (auto intro!: transparent_intros)

lemma transparent_validateBASMProof [transparent_intros]:
  "transparent ReadCtx (validateBASMProof P path txid position header)"
  by (auto simp: validateBASMProof_def Let_def indexProofNodes_def deriveProofParents_def walkProofBaseOffsets_def
      intro!: transparent_intros split: prod.split)

text \<open>The levels after indexing and deriving, and the siblings they give a position.\<close>

definition proof_levels :: "(hash \<Rightarrow> hash \<Rightarrow> hash) \<Rightarrow> MerklePath \<Rightarrow> BASMCanonicalHeader \<Rightarrow> proof_level list" where
  "proof_levels P path header =
     (let depth = merkleProofDepth (hdr_TransactionCount header) in
      case fst (cbind (indexProofNodes path (hdr_TransactionCount header) depth)
        (\<lambda>(levels, _). deriveProofParents P levels depth) []) of
        Inr levels \<Rightarrow> levels | Inl _ \<Rightarrow> [])"

definition proof_siblings ::
  "(hash \<Rightarrow> hash \<Rightarrow> hash) \<Rightarrow> MerklePath \<Rightarrow> u64 \<Rightarrow> BASMCanonicalHeader \<Rightarrow> hash list" where
  "proof_siblings P path position header =
     (if hdr_TransactionCount header = 1 then []
      else map (level_sibling (proof_levels P path header) position) [0..<merkleProofDepth (hdr_TransactionCount header)])"

lemma validateBASMProof_root:
  assumes "fst (validateBASMProof P path txid position header c) = Inr u" "hdr_TransactionCount header \<noteq> 0"
  shows "position < hdr_TransactionCount header \<and>
    path_root P (unat position) txid (proof_siblings P path position header) = hdr_MerkleRoot header"
proof -
  let ?n = "hdr_TransactionCount header" and ?d = "merkleProofDepth (hdr_TransactionCount header)"
  have ok: "fst (validateBASMProof P path txid position header []) = Inr u"
    using assms(1) by (rule transparentD[OF transparent_validateBASMProof])
  then obtain levels bases where len: "length (mp_Path path) \<le> ?d"
    and idx: "fst (indexProofNodes path ?n ?d []) = Inr (levels, bases)"
    and leaf: "checkProofLeaf levels path txid position header = Inr ()"
    and rest: "?n \<noteq> 1 \<Longrightarrow> \<exists>L. fst (deriveProofParents P levels ?d []) = Inr L \<and>
      level_hash (L ! ?d) 0 = Some (hdr_MerkleRoot header) \<and> fst (walkProofBaseOffsets L bases ?d []) = Inr u"
    by (auto simp: validateBASMProof_def Let_def fst_cbind_Inr transparent_snd[OF transparent_indexProofNodes_from]
        transparent_snd[OF transparent_deriveProofParents_from] indexProofNodes_def deriveProofParents_def
        split: if_splits)
  have inv: "length levels = ?d + 1" "index_inv ?n levels bases"
    using indexProofNodes_Inr[OF idx len] by simp_all
  have at: "map_of (levels ! 0) position = Some (Some txid)"
    using leaf by (auto simp: checkProofLeaf_def split: if_splits)
  then have base: "position \<in> set bases" and lt: "position < ?n"
    using inv(2) by (auto simp: index_inv_def leaves_based_def)
  show ?thesis
  proof (cases "?n = 1")
    case True
    with leaf have "txid = hdr_MerkleRoot header" by (auto simp: checkProofLeaf_def split: if_splits)
    with True lt show ?thesis by (simp add: proof_siblings_def)
  next
    case False
    with rest obtain L where der: "fst (deriveProofParents P levels ?d []) = Inr L"
      and root: "level_hash (L ! ?d) 0 = Some (hdr_MerkleRoot header)"
      and walk: "fst (walkProofBaseOffsets L bases ?d []) = Inr u" by blast
    have L: "proof_levels P path header = L"
      using idx der transparent_snd[OF transparent_indexProofNodes_from]
      by (simp add: proof_levels_def Let_def fst_cbind indexProofNodes_def)
    note d = deriveProofParents_from_Inr[OF der[unfolded deriveProofParents_def]]
    have "map_of (L ! ?d) (drop_bit ?d position) =
        Some (Some (path_root P (unat position) txid (map (level_sibling L position) [0..<?d])))"
    proof (rule linked_path)
      show "\<forall>l < ?d. linked P (L ! l) (L ! Suc l)" using d inv(1) by auto
      show "\<forall>l \<le> ?d. nil_odd (L ! l)" using d inv by (auto simp: index_inv_def)
      show "map_of (L ! 0) position = Some (Some txid)" using d inv(1) at by auto
      show "connectedProofBase L position ?d"
        using walkProofBaseOffsets_from_Inr[OF walk[unfolded walkProofBaseOffsets_def] base] .
    qed simp
    moreover have "drop_bit ?d position = 0"
    proof -
      have pos: "0 < unat ?n" using assms(2) by (simp add: unat_gt_0)
      then have "unat (?n - 1) = unat ?n - 1" by (simp add: unat_minus_one assms(2))
      then have "unat position < 2 ^ ?d"
        using lt bits_len_less[of "unat (?n - 1)"] pos
        by (auto simp: merkleProofDepth_def Let_def word_less_nat_alt)
      then have "unat (drop_bit ?d position) = 0"
        unfolding unat_drop_bit_eq by (simp add: drop_bit_eq_div)
      then show ?thesis by (simp add: unat_eq_0)
    qed
    ultimately show ?thesis
      using root lt False by (simp add: level_hash_def proof_siblings_def L)
  qed
qed

section \<open>Binding to the block\<close>

lemma pair_layer_nth:
  "k < length (pair_layer xs) \<Longrightarrow> pair_layer xs ! k =
     hashPair (xs ! (2 * k)) (if 2 * k + 1 < length xs then xs ! (2 * k + 1) else xs ! (2 * k))"
proof (induction xs arbitrary: k rule: pair_layer.induct)
  case (3 x y xs)
  then show ?case by (cases k) auto
qed auto

lemma layer_inputs_nth:
  "k < length (pair_layer xs) \<Longrightarrow>
     xs ! (2 * k) @ (if 2 * k + 1 < length xs then xs ! (2 * k + 1) else xs ! (2 * k)) \<in> set (layer_inputs xs)"
proof (induction xs arbitrary: k rule: pair_layer.induct)
  case (3 x y xs)
  show ?case
  proof (cases k)
    case (Suc j)
    with "3.prems" "3.IH"[of j] show ?thesis by (simp split: if_splits)
  qed simp
qed auto

lemma bits_len_pair: "2 \<le> n \<Longrightarrow> bits_len (n - 1) = Suc (bits_len ((n + 1) div 2 - 1))"
proof -
  assume n: "2 \<le> n"
  then have "(n + 1) div 2 - 1 = (n - 1) div 2" by (cases n) auto
  then show ?thesis using n by (subst bits_len.simps) simp
qed

lemma concat_second_eq: "length h = length y \<Longrightarrow> s @ h = x @ y \<Longrightarrow> s = x \<and> h = (y :: hash)"
  by simp

lemma path_step_binding:
  assumes "(if even i then hashPair h s else hashPair s h) = pair_layer xs ! (i div 2)" "i < length xs"
    and "wf_hash h" "list_all wf_hash xs"
  shows "h = xs ! i \<or> (\<exists>q \<in> set (layer_inputs xs). collision sha256d (if even i then h @ s else s @ h) q)"
proof -
  let ?k = "i div 2"
  let ?y = "if 2 * ?k + 1 < length xs then xs ! (2 * ?k + 1) else xs ! (2 * ?k)" and ?x = "xs ! (2 * ?k)"
  have k: "?k < length (pair_layer xs)" using assms(2) by auto
  let ?p = "if even i then h @ s else s @ h"
  have "sha256d ?p = sha256d (?x @ ?y)"
    using assms(1) pair_layer_nth[OF k] by (auto simp: hashPair_def doubleSHA256_sha256d)
  then consider "?p = ?x @ ?y" | "collision sha256d ?p (?x @ ?y)" using collisionI by blast
  then show ?thesis
  proof cases
    case 1
    have wf: "wf_hash (xs ! j)" if "j < length xs" for j using assms(4) that by (simp add: list_all_length)
    have lens: "length ?x = 32" "length ?y = 32" using wf assms(2) by auto
    show ?thesis
    proof (cases "even i")
      case True
      with 1 lens assms(3) have "h = ?x" by auto
      with True show ?thesis by simp
    next
      case False
      then have i: "2 * ?k + 1 = i" by (simp add: odd_two_times_div_two_succ)
      have "h = ?y" using 1 False lens(2) assms(3) concat_second_eq[of h ?y s ?x] by simp
      with i assms(2) show ?thesis by simp
    qed
  next
    case 2
    then show ?thesis using layer_inputs_nth[OF k] by blast
  qed
qed

lemma path_binding:
  assumes "path_root hashPair i h ss = merkle xs" "length ss = bits_len (length xs - 1)" "i < length xs"
    and "wf_hash h" "list_all wf_hash xs"
  shows "h = xs ! i \<or> collides (path_inputs i h ss) (merkle_inputs xs)"
  using assms
proof (induction xs arbitrary: i h ss rule: merkle.induct)
  case 1
  then show ?case by simp
next
  case (2 x)
  then show ?case by (simp add: bits_len.simps)
next
  case (3 x y zs)
  let ?xs = "x # y # zs"
  have long: "1 < length ?xs" by simp
  have "bits_len (length ?xs - 1) = Suc (bits_len ((length ?xs + 1) div 2 - 1))" by (rule bits_len_pair) simp
  then obtain s ss' where ss: "ss = s # ss'" and len: "length ss' = bits_len (length (pair_layer ?xs) - 1)"
    using "3.prems"(2) by (cases ss) (auto simp del: pair_layer.simps simp add: length_pair_layer)
  let ?h = "if even i then hashPair h s else hashPair s h"
  have "?h = pair_layer ?xs ! (i div 2) \<or> collides (path_inputs (i div 2) ?h ss') (merkle_inputs (pair_layer ?xs))"
  proof (rule "3.IH")
    show "path_root hashPair (i div 2) ?h ss' = merkle (pair_layer ?xs)"
      using "3.prems"(1) by (simp only: ss path_root.simps merkle.simps)
    show "i div 2 < length (pair_layer ?xs)" using "3.prems"(3) by (simp only: length_pair_layer)
  qed (use len in \<open>simp_all add: wf_pair_layer del: pair_layer.simps\<close>)
  moreover have "h = ?xs ! i \<or> (\<exists>q \<in> set (layer_inputs ?xs). collision sha256d (if even i then h @ s else s @ h) q)"
    if "?h = pair_layer ?xs ! (i div 2)"
    using path_step_binding[OF that "3.prems"(3-5)] .
  ultimately show ?case
    unfolding ss path_inputs.simps merkle_inputs_pair[OF long] collides_def by auto
qed

lemma length_proof_siblings:
  assumes "hdr_TransactionCount header \<noteq> 0"
  shows "length (proof_siblings P path position header) = bits_len (unat (hdr_TransactionCount header) - 1)"
proof (cases "hdr_TransactionCount header = 1")
  case True
  then show ?thesis by (simp add: proof_siblings_def bits_len.simps)
next
  case False
  let ?n = "hdr_TransactionCount header"
  have "unat (?n - 1) = unat ?n - 1" using assms by (simp add: unat_minus_one)
  moreover have "unat ?n \<noteq> 1" using False by (auto simp: word_unat_eq_iff)
  moreover have "unat ?n \<noteq> 0" using assms by (simp add: unat_eq_0)
  ultimately have "merkleProofDepth ?n = bits_len (unat ?n - 1)"
    by (simp add: merkleProofDepth_def) (simp add: bits_len.simps)
  with False show ?thesis by (simp add: proof_siblings_def)
qed

lemma proof_membership:
  assumes parent: "\<forall>l r. merkleTreeParent l r = hashPair l r"
    and accepted: "fst (validateBASMProof merkleTreeParent path txid position header c) = Inr ()"
    and block: "hdr_MerkleRoot header = merkle txs" "unat (hdr_TransactionCount header) = length txs" "txs \<noteq> []"
    and wf: "wf_hash txid" "list_all wf_hash txs"
  shows "unat position < length txs \<and> (txs ! unat position = txid \<or>
    collides (path_inputs (unat position) txid (proof_siblings merkleTreeParent path position header)) (merkle_inputs txs))"
proof -
  have P: "merkleTreeParent = hashPair" using parent by (simp add: fun_eq_iff)
  have n: "hdr_TransactionCount header \<noteq> 0" using block by auto
  note root = validateBASMProof_root[OF accepted n]
  then have lt: "unat position < length txs" using block(2) by (simp add: word_less_nat_alt)
  have "txid = txs ! unat position \<or>
      collides (path_inputs (unat position) txid (proof_siblings merkleTreeParent path position header)) (merkle_inputs txs)"
    using root lt length_proof_siblings[OF n] block wf by (intro path_binding) (simp_all add: P)
  with lt show ?thesis by auto
qed

section \<open>Properties\<close>

text \<open>
  C7: an accepted proof proves membership. If the header commits to the transactions of its block,
  the proof's transaction is the one at the claimed position, or the accepted proof exhibits a
  SHA256d collision between its own hash inputs and those of the block's Merkle tree.
\<close>

theorem validateBASMProof_sound:
  assumes parent: "\<forall>l r. merkleTreeParent l r = hashPair l r"
    and accepted: "fst (validateBASMProof merkleTreeParent path txid position header c) = Inr ()"
    and block: "hdr_MerkleRoot header = merkle txs" "unat (hdr_TransactionCount header) = length txs" "txs \<noteq> []"
    and wf: "wf_hash txid" "list_all wf_hash txs"
  shows "unat position < length txs \<and> (txs ! unat position = txid \<or>
    collides (path_inputs (unat position) txid (proof_siblings merkleTreeParent path position header)) (merkle_inputs txs))"
  using assms by (rule proof_membership)

definition demo_block :: "hash list" where
  "demo_block = [replicate 32 1, replicate 32 2]"

definition demo_header :: BASMCanonicalHeader where
  "demo_header = \<lparr>hdr_Height = 5, hdr_BlockHash = zero_hash, hdr_MerkleRoot = merkle demo_block, hdr_TransactionCount = 2\<rparr>"

definition demo_path :: MerklePath where
  "demo_path = \<lparr>mp_BlockHeight = 5, mp_Path =
     [[Some \<lparr>pe_Offset = 0, pe_Hash = Some (replicate 32 1), pe_Txid = None, pe_Duplicate = None\<rparr>,
       Some \<lparr>pe_Offset = 1, pe_Hash = Some (replicate 32 2), pe_Txid = Some True, pe_Duplicate = None\<rparr>]]\<rparr>"

lemma demo_path_accepted: "fst (validateBASMProof hashPair demo_path (replicate 32 2) 1 demo_header []) = Inr ()"
proof -
  have d: "merkleProofDepth 2 = 1" by code_simp
  have two: "\<not> (2 :: u64) \<le> 1" by code_simp
  have root: "merkle demo_block = hashPair (replicate 32 1) (replicate 32 2)"
    by (simp add: demo_block_def)
  show ?thesis
    by (simp add: validateBASMProof_def demo_path_def demo_header_def d Let_def indexProofNodes_def indexProofNode_def
        validateProofNodePlacement_def level_set_def checkProofLeaf_def deriveProofParents_def deriveProofLevel_def
        root two level_hash_def walkProofBaseOffsets_def connectedProofBase_def cbind_def cret_def clift_def)
qed

theorem validateBASMProof_sound_witness:
  "unat (1 :: u64) < length demo_block \<and> (demo_block ! unat (1 :: u64) = replicate 32 2 \<or>
    collides (path_inputs (unat (1 :: u64)) (replicate 32 2) (proof_siblings hashPair demo_path 1 demo_header)) (merkle_inputs demo_block))"
  by (rule validateBASMProof_sound[OF _ demo_path_accepted]) (simp_all add: demo_header_def demo_block_def)

text \<open>
  The binary search over the sorted base offsets accepts an internal node exactly when it is the
  sibling of an ancestor of a supplied leaf.
\<close>

theorem legalProofAncestor_sorted:
  "legalProofAncestor offset level (sort baseOffsets) \<longleftrightarrow>
     (\<exists>base \<in> set baseOffsets. drop_bit level base = offset XOR 1)"
  using legalProofAncestor_iff[of "sort baseOffsets"] by simp

end
