(* ===== verification/Basm_Read.thy ===== *)
theory Basm_Read
  imports Basm_Proof
begin

text \<open>
  \<^verbatim>\<open>pkg/core/engine/basm-read-service.go\<close>, the serving half of \<^verbatim>\<open>basm-read-proof.go\<close>, the
  interfaces of \<^verbatim>\<open>basm-read.go\<close> and the response types and limits of
  \<^verbatim>\<open>pkg/core/basm/protocol.go\<close>.

  A storage view is immutable, so its reads are functions. The header source is not: its answer to
  a call depends on the number of the call, which the service's code fixes and the model passes
  along, so that the second look at the headers can see another chain than the first.
\<close>

section \<open>Interfaces and responses\<close>

record Anchor =
  anc_TopicBlockAnchor :: TopicBlockAnchor
  anc_TAC :: hash

record TopicAnchorTip =
  tip_Topic :: string
  tip_BlockHeight :: int
  tip_BlockHash :: "hash option"
  tip_BASMRoot :: "hash option"
  tip_AdmittedCount :: "u64 option"
  tip_TAC :: hash

record TopicAnchorRange =
  range_Topic :: string
  range_Anchors :: "Anchor list"

record AdmittedList =
  al_Topic :: string
  al_BlockHeight :: u32
  al_BlockHash :: "hash option"
  al_Admitted :: "AdmittedTxRef list"

record CompoundMerklePath =
  cp_Topic :: string
  cp_BlockHeight :: u32
  cp_TxIDs :: "hash list"
  cp_MerklePath :: string

record RawTransactionRecord =
  raw_TxID :: hash
  raw_RawTx :: string

record RawTransactions =
  Transactions :: "RawTransactionRecord list"
  Missing :: "hash list"

record ReadLimits =
  rl_Limits :: Limits
  MaxRequestedTxIDs :: u32
  MaxRequestBytes :: u32
  MaxProofBytes :: u32
  MaxRawTxBytes :: u32
  MaxResponseBytes :: u32
  RequestTimeout :: int

definition DefaultReadLimits :: ReadLimits where
  "DefaultReadLimits = \<lparr>rl_Limits = DefaultLimits, MaxRequestedTxIDs = 1000, MaxRequestBytes = push_bit 20 1,
     MaxProofBytes = push_bit 20 8, MaxRawTxBytes = push_bit 20 32, MaxResponseBytes = push_bit 20 96,
     RequestTimeout = 10 * 10 ^ 9\<rparr>"

definition ReadLimits_Validate :: "ReadLimits \<Rightarrow> basm_error + unit" where
  "ReadLimits_Validate l =
     rbind (Limits_validate (rl_Limits l)) (\<lambda>_.
       if MaxRequestedTxIDs l = 0 \<or> MaxRequestBytes l = 0 \<or> MaxProofBytes l = 0 \<or> MaxRawTxBytes l = 0 \<or>
          MaxResponseBytes l = 0 \<or> RequestTimeout l \<le> 0
       then Inl ErrInvalidInput else Inr ())"

record BASMReadView =
  v_Tip :: "read_error + Anchor option"
  v_Anchors :: "u32 \<Rightarrow> u32 \<Rightarrow> u32 \<Rightarrow> read_error + Anchor list"
  v_Admitted :: "u32 \<Rightarrow> u32 \<Rightarrow> read_error + AdmittedTxRef list"
  v_MerklePath :: "hash \<Rightarrow> u32 \<Rightarrow> read_error + byte list"
  v_RawTx :: "hash \<Rightarrow> u32 \<Rightarrow> read_error + byte list"
  v_CheckCurrent :: "read_error + unit"
  v_Close :: "read_error + unit"

type_synonym header_source = "nat \<Rightarrow> u32 \<Rightarrow> read_error + BASMCanonicalHeader"
type_synonym view_opener = "string \<Rightarrow> ReadLimits \<Rightarrow> read_error + BASMReadView option"

text \<open>A nil capability, typed or not, is \<open>None\<close>.\<close>

record BASMReadService =
  sv_storage :: "view_opener option"
  sv_headers :: "header_source option"
  sv_limits :: ReadLimits

text \<open>What the service calls of the SDK.\<close>

record 'tx sdk =
  sdk_NewTransactionFromBytes :: "byte list \<Rightarrow> basm_error + 'tx"
  sdk_TxBytes :: "'tx \<Rightarrow> byte list"
  sdk_NewMerklePathFromReader :: "byte list \<Rightarrow> basm_error + MerklePath"
  sdk_MerklePathBytes :: "u32 \<Rightarrow> PathElement list list \<Rightarrow> byte list"
  sdk_MerkleTreeParent :: "hash \<Rightarrow> hash \<Rightarrow> hash"

definition NewBASMReadService ::
  "view_opener option \<Rightarrow> header_source option \<Rightarrow> ReadLimits \<Rightarrow> read_error + BASMReadService" where
  "NewBASMReadService storage headers l =
     (if storage = None then Inl ErrBASMUnsupported
      else rbind (map_error BasmError (ReadLimits_Validate l)) (\<lambda>_.
        Inr \<lparr>sv_storage = storage, sv_headers = headers, sv_limits = l\<rparr>))"

section \<open>The read transaction\<close>

definition requireBASMHeaders :: "BASMReadService \<Rightarrow> string \<Rightarrow> bool \<Rightarrow> read_error + unit" where
  "requireBASMHeaders s topic needsHeaders =
     (if \<not> needsHeaders then Inr ()
      else rbind (map_error BasmError (AnchorValidate
             \<lparr>Topic = topic, BlockHeight = 0, BlockHash = zero_hash, BASMRoot = zero_hash, AdmittedCount = 0\<rparr>
             (rl_Limits (sv_limits s)))) (\<lambda>_.
        if sv_headers s = None then Inl ErrBASMNotReady else Inr ()))"

definition openBASMReadView :: "BASMReadService \<Rightarrow> view_opener \<Rightarrow> string \<Rightarrow> (read_error, BASMReadView) cm" where
  "openBASMReadView s storage topic =
     cbind (cpoll ReadCtx) (\<lambda>_.
     cbind (clift (storage topic (sv_limits s))) (\<lambda>view.
       case view of None \<Rightarrow> clift (Inl ErrBASMNotReady) | Some v \<Rightarrow> cret v))"

text \<open>The headers of the read are the first \<open>k\<close> calls; each is asked for again.\<close>

fun recheckCanonicalHeaders ::
  "nat \<Rightarrow> header_source option \<Rightarrow> BASMCanonicalHeader list \<Rightarrow> read_error + unit" where
  "recheckCanonicalHeaders k resolver [] = Inr ()"
| "recheckCanonicalHeaders k resolver (header # headers) =
     (case resolver of
        None \<Rightarrow> Inl ReadPanic
      | Some resolve \<Rightarrow>
          rbind (resolve k (hdr_Height header)) (\<lambda>current.
            if current \<noteq> header then Inl ErrBASMNotReady
            else recheckCanonicalHeaders (Suc k) resolver headers))"

definition completeBASMRead ::
  "header_source option \<Rightarrow> BASMReadView \<Rightarrow> BASMCanonicalHeader list \<Rightarrow> read_error + unit" where
  "completeBASMRead resolver view headers =
     rbind (recheckCanonicalHeaders (length headers) resolver headers) (\<lambda>_. v_CheckCurrent view)"

text \<open>\<open>closeBASMView\<close>, the deferred call: an error of the read itself stands.\<close>

definition closeBASMView :: "BASMReadView \<Rightarrow> (read_error, 'a) cm \<Rightarrow> (read_error, 'a) cm" where
  "closeBASMView view m = cbind m (\<lambda>out. cbind (clift (v_Close view)) (\<lambda>_. cbind (cpoll ReadCtx) (\<lambda>_. cret out)))"

definition readBASM ::
  "bool \<Rightarrow> BASMReadService option \<Rightarrow> string \<Rightarrow> bool \<Rightarrow>
   (BASMReadService \<Rightarrow> BASMReadView \<Rightarrow> (read_error, 'a \<times> BASMCanonicalHeader list) cm) \<Rightarrow> (read_error, 'a) cm" where
  "readBASM ctx_nil s topic needsHeaders read =
     (case s of
        None \<Rightarrow> clift (Inl ErrBASMUnsupported)
      | Some s \<Rightarrow> (case sv_storage s of
          None \<Rightarrow> clift (Inl ErrBASMUnsupported)
        | Some storage \<Rightarrow>
            if ctx_nil then clift (Inl (BasmError ErrInvalidInput))
            else
              cbind (clift (requireBASMHeaders s topic needsHeaders)) (\<lambda>_.
              cbind (openBASMReadView s storage topic) (\<lambda>view.
                closeBASMView view
                  (cbind (read s view) (\<lambda>(result, headers).
                   cbind (clift (completeBASMRead (sv_headers s) view headers)) (\<lambda>_. cret result)))))))"

section \<open>Sizes and request lists\<close>

definition checkResponseSize :: "BASMReadService \<Rightarrow> u64 \<Rightarrow> u64 \<Rightarrow> u64 \<Rightarrow> read_error + unit" where
  "checkResponseSize s base perItem count =
     (let limit = (ucast (MaxResponseBytes (sv_limits s)) :: u64) in
      if limit < base \<or> perItem \<noteq> 0 \<and> (limit - base) div perItem < count then Inl (BasmError ErrLimitExceeded)
      else Inr ())"

fun has_duplicate :: "hash set \<Rightarrow> hash list \<Rightarrow> bool" where
  "has_duplicate seen [] = False"
| "has_duplicate seen (txid # txids) = (txid \<in> seen \<or> has_duplicate (insert txid seen) txids)"

definition validateTxids :: "BASMReadService option \<Rightarrow> hash list \<Rightarrow> bool \<Rightarrow> read_error + unit" where
  "validateTxids s txids required =
     (case s of
        None \<Rightarrow> Inl ErrBASMUnsupported
      | Some s \<Rightarrow>
          if unat (MaxRequestedTxIDs (sv_limits s)) < length txids then Inl (BasmError ErrLimitExceeded)
          else if required \<and> length txids = 0 then Inl (BasmError ErrInvalidInput)
          else if has_duplicate {} txids then Inl (BasmError ErrInvalidInput)
          else Inr ())"

definition topic_bytes :: "u64 \<Rightarrow> string \<Rightarrow> u64" where
  "topic_bytes base topic = base + word_of_nat (length topic) * 6"

section \<open>Anchors\<close>

text \<open>\<open>k\<close> is the number of the header call.\<close>

definition validateAnchor ::
  "BASMReadService \<Rightarrow> nat \<Rightarrow> string \<Rightarrow> Anchor \<Rightarrow> (read_error, BASMCanonicalHeader) cm" where
  "validateAnchor s k topic anchor =
     cbind (cpoll ReadCtx) (\<lambda>_.
       let a = anc_TopicBlockAnchor anchor in
       if Topic a \<noteq> topic then clift (Inl ErrBASMInvalidData)
       else
     cbind (clift (map_error ErrBASMInvalidDataBy (AnchorValidate a (rl_Limits (sv_limits s))))) (\<lambda>_.
       case sv_headers s of
         None \<Rightarrow> clift (Inl ReadPanic)
       | Some resolve \<Rightarrow>
     cbind (clift (resolve k (BlockHeight a))) (\<lambda>header.
       if hdr_Height header \<noteq> BlockHeight a \<or> hdr_BlockHash header \<noteq> BlockHash a \<or>
          hdr_TransactionCount header = 0 \<or> MaxSafeJSONInteger < hdr_TransactionCount header
       then clift (Inl ErrBASMNotReady)
       else if hdr_TransactionCount header < AdmittedCount a then clift (Inl ErrBASMInvalidData)
       else cret header)))"

definition ProvideTopicAnchorTip :: "bool \<Rightarrow> BASMReadService option \<Rightarrow> string \<Rightarrow> (read_error, TopicAnchorTip) cm" where
  "ProvideTopicAnchorTip ctx_nil srv topic =
     readBASM ctx_nil srv topic True (\<lambda>s v.
       cbind (clift (checkResponseSize s (topic_bytes 400 topic) 0 0)) (\<lambda>_.
       cbind (clift (v_Tip v)) (\<lambda>anchor.
         case anchor of
           None \<Rightarrow> cret (\<lparr>tip_Topic = topic, tip_BlockHeight = - 1, tip_BlockHash = None, tip_BASMRoot = None,
                     tip_AdmittedCount = None, tip_TAC = zero_hash\<rparr>, [])
         | Some anchor \<Rightarrow>
             cbind (validateAnchor s 0 topic anchor) (\<lambda>header.
               let a = anc_TopicBlockAnchor anchor in
               cret (\<lparr>tip_Topic = topic, tip_BlockHeight = uint (BlockHeight a), tip_BlockHash = Some (BlockHash a),
                      tip_BASMRoot = Some (BASMRoot a), tip_AdmittedCount = Some (AdmittedCount a),
                      tip_TAC = anc_TAC anchor\<rparr>, [header])))))"

text \<open>The loop of \<open>validateAnchorRange\<close> from index \<open>i\<close>; \<open>prev\<close> is the anchor before it.\<close>

fun validateAnchorRange_from ::
  "BASMReadService \<Rightarrow> string \<Rightarrow> u32 \<Rightarrow> nat \<Rightarrow> Anchor option \<Rightarrow> Anchor list \<Rightarrow> (read_error, BASMCanonicalHeader list) cm" where
  "validateAnchorRange_from s topic from_h i prev [] = cret []"
| "validateAnchorRange_from s topic from_h i prev (anchor # anchors) =
     (let a = anc_TopicBlockAnchor anchor in
      if unat (BlockHeight a) \<noteq> unat from_h + i then clift (Inl ErrBASMInvalidData)
      else cbind (validateAnchor s i topic anchor) (\<lambda>header.
        if (case prev of None \<Rightarrow> False
            | Some p \<Rightarrow> anc_TAC anchor \<noteq> HashTACStep (anc_TAC p) (BlockHash a) (BASMRoot a))
        then clift (Inl ErrBASMInvalidData)
        else cbind (validateAnchorRange_from s topic from_h (Suc i) (Some anchor) anchors) (\<lambda>headers.
          cret (header # headers))))"

definition validateAnchorRange ::
  "BASMReadService \<Rightarrow> string \<Rightarrow> u32 \<Rightarrow> Anchor list \<Rightarrow> (read_error, BASMCanonicalHeader list) cm" where
  "validateAnchorRange s topic from_h anchors = validateAnchorRange_from s topic from_h 0 None anchors"

definition collectAnchorRange ::
  "BASMReadService \<Rightarrow> BASMReadView \<Rightarrow> string \<Rightarrow> u32 \<Rightarrow> u32 \<Rightarrow> u32 \<Rightarrow>
   (read_error, TopicAnchorRange \<times> BASMCanonicalHeader list) cm" where
  "collectAnchorRange s v topic from_h to_h count =
     cbind (clift (checkResponseSize s (topic_bytes 64 topic) (topic_bytes 400 topic) (ucast count))) (\<lambda>_.
     cbind (clift (v_Anchors v from_h to_h count)) (\<lambda>anchors.
       if length anchors \<noteq> unat count then clift (Inl ErrBASMNotReady)
       else cbind (validateAnchorRange s topic from_h anchors) (\<lambda>headers.
         cret (\<lparr>range_Topic = topic, range_Anchors = anchors\<rparr>, headers))))"

definition ProvideTopicAnchorRange ::
  "bool \<Rightarrow> BASMReadService option \<Rightarrow> string \<Rightarrow> u32 \<Rightarrow> u32 \<Rightarrow> (read_error, TopicAnchorRange) cm" where
  "ProvideTopicAnchorRange ctx_nil srv topic from_h to_h =
     (case srv of
        None \<Rightarrow> clift (Inl ErrBASMUnsupported)
      | Some s \<Rightarrow>
          cbind (clift (map_error BasmError (ValidateRange from_h to_h (MaxRange (rl_Limits (sv_limits s)))))) (\<lambda>count.
            readBASM ctx_nil srv topic True (\<lambda>s v. collectAnchorRange s v topic from_h to_h count)))"

section \<open>Admitted lists\<close>

definition readBlock ::
  "BASMReadService \<Rightarrow> BASMReadView \<Rightarrow> string \<Rightarrow> u32 \<Rightarrow>
   (read_error, Anchor \<times> AdmittedTxRef list \<times> BASMCanonicalHeader) cm" where
  "readBlock s v topic height =
     cbind (clift (v_Anchors v height height 1)) (\<lambda>anchors.
       if length anchors \<noteq> 1 \<or> BlockHeight (anc_TopicBlockAnchor (anchors ! 0)) \<noteq> height
       then clift (Inl ErrBASMNotReady)
       else let anchor = anchors ! 0 in
     cbind (validateAnchor s 0 topic anchor) (\<lambda>header.
     cbind (clift (v_Admitted v height (MaxAdmitted (rl_Limits (sv_limits s))))) (\<lambda>admitted.
     cbind (cmap_error ErrBASMInvalidDataBy (ValidateAnchorList False (anc_TopicBlockAnchor anchor) admitted
              (hdr_TransactionCount header) (rl_Limits (sv_limits s)))) (\<lambda>_.
       cret (anchor, admitted, header)))))"

definition ProvideAdmittedList ::
  "bool \<Rightarrow> BASMReadService option \<Rightarrow> string \<Rightarrow> u32 \<Rightarrow> hash option \<Rightarrow> (read_error, AdmittedList) cm" where
  "ProvideAdmittedList ctx_nil srv topic height h =
     readBASM ctx_nil srv topic True (\<lambda>s v.
       cbind (readBlock s v topic height) (\<lambda>(anchor, admitted, header).
         let blockHash = BlockHash (anc_TopicBlockAnchor anchor) in
         if h \<noteq> None \<and> h \<noteq> Some blockHash then clift (Inl ErrBASMNotReady)
         else cbind (clift (checkResponseSize s (topic_bytes 192 topic) 128 (word_of_nat (length admitted)))) (\<lambda>_.
           cret (\<lparr>al_Topic = topic, al_BlockHeight = height, al_BlockHash = Some blockHash, al_Admitted = admitted\<rparr>,
                 [header]))))"

section \<open>Raw transactions\<close>

definition appendRawTransaction ::
  "'tx sdk \<Rightarrow> BASMReadService \<Rightarrow> BASMReadView \<Rightarrow> hash \<Rightarrow> RawTransactions \<Rightarrow> u64 \<Rightarrow>
   (read_error, RawTransactions \<times> u64) cm" where
  "appendRawTransaction sdk s v txid response encodedBytes =
     cbind (cpoll ReadCtx) (\<lambda>_.
       case v_RawTx v txid (MaxRawTxBytes (sv_limits s)) of
         Inl err \<Rightarrow>
           if err = ErrBASMNotFound then cret (response\<lparr>Missing := Missing response @ [txid]\<rparr>, encodedBytes + 67)
           else clift (Inl err)
       | Inr raw \<Rightarrow>
           if unat (MaxRawTxBytes (sv_limits s)) < length raw then clift (Inl (BasmError ErrLimitExceeded))
           else let encodedBytes = encodedBytes + (word_of_nat (length raw) * 2 + 128) in
             if ucast (MaxResponseBytes (sv_limits s)) < encodedBytes + 128
             then clift (Inl (BasmError ErrLimitExceeded))
             else if RawTransactionID (sdk_NewTransactionFromBytes sdk) (sdk_TxBytes sdk) raw (MaxRawTxBytes (sv_limits s)) \<noteq> Inr txid
             then clift (Inl ErrBASMInvalidData)
             else cret (response\<lparr>Transactions := Transactions response @ [\<lparr>raw_TxID = txid, raw_RawTx = hex_encode raw\<rparr>]\<rparr>,
                        encodedBytes))"

fun appendRawTransactions ::
  "'tx sdk \<Rightarrow> BASMReadService \<Rightarrow> BASMReadView \<Rightarrow> hash list \<Rightarrow> RawTransactions \<Rightarrow> u64 \<Rightarrow>
   (read_error, RawTransactions \<times> u64) cm" where
  "appendRawTransactions sdk s v [] response encodedBytes = cret (response, encodedBytes)"
| "appendRawTransactions sdk s v (txid # txids) response encodedBytes =
     cbind (appendRawTransaction sdk s v txid response encodedBytes) (\<lambda>(response, nxt).
       appendRawTransactions sdk s v txids response nxt)"

definition collectRawTransactions ::
  "'tx sdk \<Rightarrow> BASMReadService \<Rightarrow> BASMReadView \<Rightarrow> hash list \<Rightarrow>
   (read_error, RawTransactions \<times> BASMCanonicalHeader list) cm" where
  "collectRawTransactions sdk s v txids =
     cbind (appendRawTransactions sdk s v txids \<lparr>Transactions = [], Missing = []\<rparr> 0) (\<lambda>(response, encodedBytes).
       if ucast (MaxResponseBytes (sv_limits s)) < encodedBytes + 128 then clift (Inl (BasmError ErrLimitExceeded))
       else cret (response, []))"

definition ProvideRawTransactions ::
  "'tx sdk \<Rightarrow> bool \<Rightarrow> BASMReadService option \<Rightarrow> hash list \<Rightarrow> (read_error, RawTransactions) cm" where
  "ProvideRawTransactions sdk ctx_nil srv txids =
     cbind (clift (validateTxids srv txids False)) (\<lambda>_.
       readBASM ctx_nil srv [] False (\<lambda>s v. collectRawTransactions sdk s v txids))"

section \<open>Compound proofs\<close>

text \<open>
  A merged level maps an offset to its node. \<open>mergeProofNode\<close> keeps the old node of an offset and
  only moves the transaction mark to it.
\<close>

type_synonym merged_level = "(u64 \<times> PathElement) list"

definition sameProofNode :: "PathElement \<Rightarrow> PathElement \<Rightarrow> bool" where
  "sameProofNode a b = (pe_Hash a = pe_Hash b)"

definition merged_set :: "u64 \<Rightarrow> PathElement \<Rightarrow> merged_level \<Rightarrow> merged_level" where
  "merged_set k v lv = (if map_of lv k = None then lv @ [(k, v)] else map (\<lambda>(k', v'). (k', if k' = k then v else v')) lv)"

definition mergeProofNode :: "merged_level \<Rightarrow> PathElement option \<Rightarrow> read_error + merged_level" where
  "mergeProofNode level node =
     (case node of
        None \<Rightarrow> Inl ReadPanic
      | Some node \<Rightarrow> (case map_of level (pe_Offset node) of
          None \<Rightarrow> Inr (merged_set (pe_Offset node) node level)
        | Some old \<Rightarrow>
            if \<not> sameProofNode old node then Inl ErrBASMInvalidData
            else if pe_Txid node = Some True then Inr (merged_set (pe_Offset node) (old\<lparr>pe_Txid := pe_Txid node\<rparr>) level)
            else Inr level))"

fun mergeProofNodes :: "merged_level \<Rightarrow> PathElement option list \<Rightarrow> read_error + merged_level" where
  "mergeProofNodes level [] = Inr level"
| "mergeProofNodes level (node # nodes) = rbind (mergeProofNode level node) (\<lambda>level. mergeProofNodes level nodes)"

text \<open>Level by level; a path with more levels than there are maps is an index panic.\<close>

fun mergeProofLevels :: "merged_level list \<Rightarrow> PathElement option list list \<Rightarrow> read_error + merged_level list" where
  "mergeProofLevels merged [] = Inr merged"
| "mergeProofLevels [] (nodes # path) = (if nodes = [] then mergeProofLevels [] path else Inl ReadPanic)"
| "mergeProofLevels (level # merged) (nodes # path) =
     rbind (mergeProofNodes level nodes) (\<lambda>level.
     rbind (mergeProofLevels merged path) (\<lambda>merged. Inr (level # merged)))"

definition admittedPositions :: "AdmittedTxRef list \<Rightarrow> hash \<rightharpoonup> u64" where
  "admittedPositions admitted = foldl (\<lambda>positions ref. positions(TxID ref \<mapsto> BlockIndex ref)) Map.empty admitted"

definition mergeOneProof ::
  "'tx sdk \<Rightarrow> BASMReadService \<Rightarrow> BASMReadView \<Rightarrow> hash \<Rightarrow> (hash \<rightharpoonup> u64) \<Rightarrow> BASMCanonicalHeader \<Rightarrow> merged_level list \<Rightarrow> u64 \<Rightarrow>
   (read_error, merged_level list \<times> u64) cm" where
  "mergeOneProof sdk s v txid positions header merged totalBytes =
     (case positions txid of
        None \<Rightarrow> clift (Inl ErrBASMNotFound)
      | Some position \<Rightarrow>
          let left = (ucast (MaxProofBytes (sv_limits s)) :: u64) - totalBytes in
          if left = 0 then clift (Inl (BasmError ErrLimitExceeded))
          else cbind (clift (v_MerklePath v txid (ucast left))) (\<lambda>proofBytes.
            if unat left < length proofBytes then clift (Inl (BasmError ErrLimitExceeded))
            else cbind (clift (map_error (\<lambda>_. ErrBASMInvalidData)
                   (ParseBoundedMerklePath (sdk_NewMerklePathFromReader sdk) proofBytes (MaxProofBytes (sv_limits s))))) (\<lambda>path.
              cbind (validateBASMProof (sdk_MerkleTreeParent sdk) path txid position header) (\<lambda>_.
              cbind (clift (mergeProofLevels merged (mp_Path path))) (\<lambda>merged.
                cret (merged, word_of_nat (length proofBytes)))))))"

fun mergeRequestedProofs_from ::
  "'tx sdk \<Rightarrow> BASMReadService \<Rightarrow> BASMReadView \<Rightarrow> hash list \<Rightarrow> (hash \<rightharpoonup> u64) \<Rightarrow> BASMCanonicalHeader \<Rightarrow> merged_level list \<Rightarrow> u64 \<Rightarrow>
   (read_error, merged_level list) cm" where
  "mergeRequestedProofs_from sdk s v [] positions header merged totalBytes = cret merged"
| "mergeRequestedProofs_from sdk s v (txid # txids) positions header merged totalBytes =
     cbind (cpoll ReadCtx) (\<lambda>_.
     cbind (mergeOneProof sdk s v txid positions header merged totalBytes) (\<lambda>(merged, added).
       mergeRequestedProofs_from sdk s v txids positions header merged (totalBytes + added)))"

definition mergeRequestedProofs ::
  "'tx sdk \<Rightarrow> BASMReadService \<Rightarrow> BASMReadView \<Rightarrow> hash list \<Rightarrow> (hash \<rightharpoonup> u64) \<Rightarrow> BASMCanonicalHeader \<Rightarrow>
   (read_error, merged_level list) cm" where
  "mergeRequestedProofs sdk s v txids positions header =
     mergeRequestedProofs_from sdk s v txids positions header
       (replicate (merkleProofDepth (hdr_TransactionCount header)) []) 0"

definition encodeMergedProof :: "'tx sdk \<Rightarrow> u32 \<Rightarrow> merged_level list \<Rightarrow> byte list" where
  "encodeMergedProof sdk height merged =
     sdk_MerklePathBytes sdk height (map (\<lambda>level. sort_key pe_Offset (map snd level)) merged)"

definition proofResponseTooLarge :: "byte list \<Rightarrow> hash list \<Rightarrow> string \<Rightarrow> ReadLimits \<Rightarrow> bool" where
  "proofResponseTooLarge encoded txids topic l \<longleftrightarrow>
     unat (MaxProofBytes l) < length encoded \<or>
     (ucast (MaxResponseBytes l) :: u64) <
       word_of_nat (length encoded) * 2 + word_of_nat (length txids) * 67 + word_of_nat (length topic) * 6 + 256"

definition compoundMerklePath ::
  "'tx sdk \<Rightarrow> BASMReadService \<Rightarrow> BASMReadView \<Rightarrow> string \<Rightarrow> u32 \<Rightarrow> hash list \<Rightarrow>
   (read_error, CompoundMerklePath \<times> BASMCanonicalHeader list) cm" where
  "compoundMerklePath sdk s v topic height txids =
     cbind (readBlock s v topic height) (\<lambda>(_, admitted, header).
     cbind (mergeRequestedProofs sdk s v txids (admittedPositions admitted) header) (\<lambda>merged.
       let encoded = encodeMergedProof sdk height merged in
       if proofResponseTooLarge encoded txids topic (sv_limits s) then clift (Inl (BasmError ErrLimitExceeded))
       else cret (\<lparr>cp_Topic = topic, cp_BlockHeight = height, cp_TxIDs = txids, cp_MerklePath = hex_encode encoded\<rparr>,
                  [header])))"

definition ProvideCompoundMerklePath ::
  "'tx sdk \<Rightarrow> bool \<Rightarrow> BASMReadService option \<Rightarrow> string \<Rightarrow> u32 \<Rightarrow> hash list \<Rightarrow> (read_error, CompoundMerklePath) cm" where
  "ProvideCompoundMerklePath sdk ctx_nil srv topic height txids =
     cbind (clift (validateTxids srv txids True)) (\<lambda>_.
       readBASM ctx_nil srv topic True (\<lambda>s v. compoundMerklePath sdk s v topic height txids))"

section \<open>What a successful read has checked\<close>

lemma recheckCanonicalHeaders_Inr:
  assumes "recheckCanonicalHeaders k resolver headers = Inr u" "i < length headers"
  shows "\<exists>resolve. resolver = Some resolve \<and> resolve (k + i) (hdr_Height (headers ! i)) = Inr (headers ! i)"
  using assms
proof (induction headers arbitrary: k i)
  case Nil
  then show ?case by simp
next
  case (Cons h headers)
  then obtain resolve where "resolver = Some resolve" "resolve k (hdr_Height h) = Inr h"
    "recheckCanonicalHeaders (Suc k) resolver headers = Inr u"
    by (auto simp: rbind_Inr_iff split: option.splits if_splits)
  with Cons.IH[of "Suc k" "i - 1"] Cons.prems(2) show ?case by (cases i) auto
qed

lemma readBASM_Inr:
  assumes "fst (readBASM ctx_nil (Some s) topic needs read c) = Inr x"
  obtains storage v c1 headers where "sv_storage s = Some storage" "storage topic (sv_limits s) = Inr (Some v)"
    "requireBASMHeaders s topic needs = Inr ()" "fst (read s v c1) = Inr (x, headers)"
    "\<forall>i < length headers. \<exists>resolve. sv_headers s = Some resolve \<and>
       resolve (length headers + i) (hdr_Height (headers ! i)) = Inr (headers ! i)"
    "v_CheckCurrent v = Inr ()" "v_Close v = Inr ()"
proof -
  from assms obtain storage v c1 headers where 1: "sv_storage s = Some storage" "storage topic (sv_limits s) = Inr (Some v)"
    "requireBASMHeaders s topic needs = Inr ()" "fst (read s v c1) = Inr (x, headers)"
    "completeBASMRead (sv_headers s) v headers = Inr ()" "v_Close v = Inr ()"
    by (fastforce simp: readBASM_def openBASMReadView_def closeBASMView_def fst_cbind_Inr
        split: option.splits if_splits prod.splits)
  then have "recheckCanonicalHeaders (length headers) (sv_headers s) headers = Inr ()" "v_CheckCurrent v = Inr ()"
    by (auto simp: completeBASMRead_def rbind_Inr_iff)
  then show thesis
    using recheckCanonicalHeaders_Inr[OF \<open>recheckCanonicalHeaders _ _ _ = _\<close>] 1(6) by (intro that[OF 1(1-4)]) auto
qed

lemma validateAnchor_Inr:
  assumes "fst (validateAnchor s k topic anchor c) = Inr header"
  shows "Topic (anc_TopicBlockAnchor anchor) = topic \<and>
    AnchorValidate (anc_TopicBlockAnchor anchor) (rl_Limits (sv_limits s)) = Inr () \<and>
    (\<exists>resolve. sv_headers s = Some resolve \<and> resolve k (BlockHeight (anc_TopicBlockAnchor anchor)) = Inr header) \<and>
    hdr_Height header = BlockHeight (anc_TopicBlockAnchor anchor) \<and>
    hdr_BlockHash header = BlockHash (anc_TopicBlockAnchor anchor) \<and>
    hdr_TransactionCount header \<noteq> 0 \<and> hdr_TransactionCount header \<le> MaxSafeJSONInteger \<and>
    AdmittedCount (anc_TopicBlockAnchor anchor) \<le> hdr_TransactionCount header"
  using assms by (auto simp: validateAnchor_def Let_def fst_cbind_Inr not_less split: option.splits if_splits)

text \<open>An anchor that one call number of the header source has confirmed.\<close>

definition canonical_anchor :: "BASMReadService \<Rightarrow> nat \<Rightarrow> string \<Rightarrow> Anchor \<Rightarrow> bool" where
  "canonical_anchor s k topic anchor \<longleftrightarrow>
     (let a = anc_TopicBlockAnchor anchor in
      Topic a = topic \<and> AnchorValidate a (rl_Limits (sv_limits s)) = Inr () \<and>
      (\<exists>resolve header. sv_headers s = Some resolve \<and> resolve k (BlockHeight a) = Inr header \<and>
         hdr_Height header = BlockHeight a \<and> hdr_BlockHash header = BlockHash a \<and>
         AdmittedCount a \<le> hdr_TransactionCount header))"

lemma validateAnchor_canonical:
  "fst (validateAnchor s k topic anchor c) = Inr header \<Longrightarrow> canonical_anchor s k topic anchor"
  using validateAnchor_Inr[of s k topic anchor c header] by (auto simp: canonical_anchor_def Let_def)

lemma canonical_anchor_again:
  assumes "fst (validateAnchor s k topic anchor c) = Inr header"
    and "\<exists>resolve. sv_headers s = Some resolve \<and> resolve k' (hdr_Height header) = Inr header"
  shows "canonical_anchor s k' topic anchor"
  using validateAnchor_Inr[OF assms(1)] assms(2) by (auto simp: canonical_anchor_def Let_def)

lemma validateAnchorRange_from_Inr:
  assumes "fst (validateAnchorRange_from s topic f i prev anchors c) = Inr headers"
  shows "length headers = length anchors \<and>
    (\<forall>j < length anchors. \<exists>c'. fst (validateAnchor s (i + j) topic (anchors ! j) c') = Inr (headers ! j)) \<and>
    (\<forall>j < length anchors. unat (BlockHeight (anc_TopicBlockAnchor (anchors ! j))) = unat f + i + j) \<and>
    (\<forall>p. prev = Some p \<longrightarrow> anc_TAC (last (p # anchors)) = tac_from (anc_TAC p) (map anc_TopicBlockAnchor anchors))"
  using assms
proof (induction anchors arbitrary: i prev headers c)
  case Nil
  then show ?case by simp
next
  case (Cons anchor anchors)
  let ?a = "anc_TopicBlockAnchor anchor"
  from Cons.prems obtain header hs c1 c2 where
    height: "unat (BlockHeight ?a) = unat f + i" and val: "fst (validateAnchor s i topic anchor c1) = Inr header"
    and link: "\<And>p. prev = Some p \<Longrightarrow> anc_TAC anchor = HashTACStep (anc_TAC p) (BlockHash ?a) (BASMRoot ?a)"
    and rest: "fst (validateAnchorRange_from s topic f (Suc i) (Some anchor) anchors c2) = Inr hs"
    and headers: "headers = header # hs"
    by (auto simp: Let_def fst_cbind_Inr split: if_splits option.splits)
  note IH = Cons.IH[OF rest]
  have "\<exists>c'. fst (validateAnchor s (i + j) topic ((anchor # anchors) ! j) c') = Inr (headers ! j)"
    if "j < length (anchor # anchors)" for j
    using that IH val headers by (cases j) auto
  moreover have "unat (BlockHeight (anc_TopicBlockAnchor ((anchor # anchors) ! j))) = unat f + i + j"
    if "j < length (anchor # anchors)" for j
    using that IH height by (cases j) auto
  moreover have "anc_TAC (last (p # anchor # anchors)) = tac_from (anc_TAC p) (map anc_TopicBlockAnchor (anchor # anchors))"
    if "prev = Some p" for p
    using IH link[OF that] by simp
  ultimately show ?case using IH headers by simp
qed

lemma ProvideTopicAnchorRange_Inr:
  assumes "fst (ProvideTopicAnchorRange ctx_nil (Some s) topic f t c) = Inr r"
  defines "as \<equiv> range_Anchors r"
  shows "range_Topic r = topic \<and> length as = unat t - unat f + 1 \<and>
    length as \<le> unat (MaxRange (rl_Limits (sv_limits s))) \<and>
    (\<forall>i < length as. unat (BlockHeight (anc_TopicBlockAnchor (as ! i))) = unat f + i \<and>
       canonical_anchor s i topic (as ! i) \<and> canonical_anchor s (length as + i) topic (as ! i)) \<and>
    anc_TAC (last as) = tac_from (anc_TAC (hd as)) (map anc_TopicBlockAnchor (tl as)) \<and>
    (\<exists>storage v. sv_storage s = Some storage \<and> storage topic (sv_limits s) = Inr (Some v) \<and>
       v_CheckCurrent v = Inr () \<and> v_Close v = Inr ())"
proof -
  from assms(1) obtain count c0 where
    rng: "ValidateRange f t (MaxRange (rl_Limits (sv_limits s))) = Inr count"
    and rd: "fst (readBASM ctx_nil (Some s) topic True (\<lambda>s v. collectAnchorRange s v topic f t count) c0) = Inr r"
    by (auto simp: ProvideTopicAnchorRange_def fst_cbind_Inr)
  note k = rng[unfolded ValidateRange_Inr]
  from rd obtain storage v c1 headers where st: "sv_storage s = Some storage" "storage topic (sv_limits s) = Inr (Some v)"
    "requireBASMHeaders s topic True = Inr ()"
    and col: "fst (collectAnchorRange s v topic f t count c1) = Inr (r, headers)"
    and again: "\<forall>i < length headers. \<exists>resolve. sv_headers s = Some resolve \<and>
       resolve (length headers + i) (hdr_Height (headers ! i)) = Inr (headers ! i)"
    and fin: "v_CheckCurrent v = Inr ()" "v_Close v = Inr ()"
    by (rule readBASM_Inr)
  from col obtain c2 where len: "length as = unat count" and topic: "range_Topic r = topic"
    and val: "fst (validateAnchorRange_from s topic f 0 None as c2) = Inr headers"
    by (auto simp: collectAnchorRange_def validateAnchorRange_def fst_cbind_Inr as_def split: if_splits)
  note all = validateAnchorRange_from_Inr[OF val]
  have "as \<noteq> []" using len k by auto
  then obtain a as' where as: "as = a # as'" by (cases as) auto
  have "\<exists>c'. fst (validateAnchorRange_from s topic f 1 (Some a) as' c') = Inr (tl headers)"
    using val by (auto simp: as Let_def fst_cbind_Inr split: if_splits)
  then have tac: "anc_TAC (last as) = tac_from (anc_TAC (hd as)) (map anc_TopicBlockAnchor (tl as))"
    using validateAnchorRange_from_Inr[of s topic f 1 "Some a" as' _ "tl headers"] as by auto
  have "canonical_anchor s i topic (as ! i) \<and> canonical_anchor s (length as + i) topic (as ! i)" if "i < length as" for i
  proof -
    from all that obtain c' where v: "fst (validateAnchor s i topic (as ! i) c') = Inr (headers ! i)" by auto
    with again all that show ?thesis
      using validateAnchor_canonical[OF v] canonical_anchor_again[OF v] by auto
  qed
  then show ?thesis using topic len k all tac st fin by auto
qed

lemma checkResponseSize_Inr:
  "checkResponseSize s base perItem count = Inr u \<longleftrightarrow>
     unat base + unat perItem * unat count \<le> unat (MaxResponseBytes (sv_limits s))"
proof -
  let ?l = "ucast (MaxResponseBytes (sv_limits s)) :: u64"
  have sub: "unat (?l - base) = unat ?l - unat base" if "\<not> ?l < base" using that by (simp add: unat_sub not_less)
  have "(?l - base) div perItem < count \<longleftrightarrow> (unat ?l - unat base) div unat perItem < unat count" if "\<not> ?l < base"
    using sub[OF that] by (simp add: word_less_nat_alt unat_div_distrib)
  moreover have "(m - b) div p < n \<longleftrightarrow> m < b + p * n" if "b \<le> m" "0 < p" for m b p n :: nat
    using that by (auto simp: div_less_iff_less_mult less_diff_conv2 mult.commute)
  moreover have "perItem \<noteq> 0 \<longleftrightarrow> 0 < unat perItem" by (simp add: unat_gt_0)
  ultimately show ?thesis
    by (auto simp: checkResponseSize_def Let_def word_less_nat_alt not_less)
qed

lemma has_duplicate_iff: "has_duplicate seen txids \<longleftrightarrow> \<not> (distinct txids \<and> set txids \<inter> seen = {})"
  by (induction txids arbitrary: seen) auto

lemma validateTxids_Inr:
  "validateTxids (Some s) txids required = Inr u \<longleftrightarrow>
     length txids \<le> unat (MaxRequestedTxIDs (sv_limits s)) \<and> distinct txids \<and> (required \<longrightarrow> txids \<noteq> [])"
  by (auto simp: validateTxids_def has_duplicate_iff not_less)

section \<open>Raw transaction responses\<close>

definition raw_found :: "BASMReadService \<Rightarrow> BASMReadView \<Rightarrow> hash \<Rightarrow> bool" where
  "raw_found s v txid \<longleftrightarrow> v_RawTx v txid (MaxRawTxBytes (sv_limits s)) \<noteq> Inl ErrBASMNotFound"

text \<open>A record carries the bytes of storage, and their double hash is the id.\<close>

definition raw_bound :: "BASMReadService \<Rightarrow> BASMReadView \<Rightarrow> RawTransactionRecord \<Rightarrow> bool" where
  "raw_bound s v r \<longleftrightarrow> (\<exists>raw. v_RawTx v (raw_TxID r) (MaxRawTxBytes (sv_limits s)) = Inr raw \<and>
     raw_RawTx r = hex_encode raw \<and> length raw \<le> unat (MaxRawTxBytes (sv_limits s)) \<and>
     raw \<in> raw_transaction \<and> raw_TxID r = sha256d raw)"

text \<open>The size that the code charges for a response.\<close>

definition charged :: "RawTransactions \<Rightarrow> nat" where
  "charged r = sum_list (map (\<lambda>t. length (raw_RawTx t) + 128) (Transactions r)) + 67 * length (Missing r)"

lemma unat_add_small: "unat a + unat b < 2 ^ 64 \<Longrightarrow> unat (a + b :: u64) = unat a + unat b"
  by (simp add: unat_word_ariths)

lemma appendRawTransaction_Inr:
  assumes "fst (appendRawTransaction sdk s v txid r e c) = Inr (r', e')" "unat e = charged r" "charged r \<le> 2 ^ 40"
  shows "(if raw_found s v txid
      then (\<exists>t. Transactions r' = Transactions r @ [t] \<and> raw_TxID t = txid \<and> raw_bound s v t) \<and> Missing r' = Missing r
      else Transactions r' = Transactions r \<and> Missing r' = Missing r @ [txid]) \<and>
    unat e' = charged r' \<and> charged r' \<le> max (charged r + 67) (2 ^ 32)"
proof (cases "v_RawTx v txid (MaxRawTxBytes (sv_limits s))")
  case (Inl err)
  with assms(1) have r: "err = ErrBASMNotFound" "r' = r\<lparr>Missing := Missing r @ [txid]\<rparr>" "e' = e + 67"
    by (auto simp: appendRawTransaction_def fst_cbind_Inr split: if_splits)
  have "unat e' = unat e + 67" unfolding r(3) using assms(2,3) by (subst unat_add_small) simp_all
  with r Inl assms(2) show ?thesis by (simp add: raw_found_def charged_def)
next
  case (Inr raw)
  let ?x = "word_of_nat (length raw) * 2 + 128 :: u64"
  let ?t = "\<lparr>raw_TxID = txid, raw_RawTx = hex_encode raw\<rparr>"
  from Inr assms(1) have small: "length raw \<le> unat (MaxRawTxBytes (sv_limits s))"
    and fit: "\<not> ucast (MaxResponseBytes (sv_limits s)) < e + ?x + 128"
    and rid: "RawTransactionID (sdk_NewTransactionFromBytes sdk) (sdk_TxBytes sdk) raw (MaxRawTxBytes (sv_limits s)) = Inr txid"
    and r: "r' = r\<lparr>Transactions := Transactions r @ [?t]\<rparr>" "e' = e + ?x"
    by (auto simp: appendRawTransaction_def fst_cbind_Inr Let_def not_less split: if_splits)
  have l32: "length raw < 2 ^ 32" using small unat_lt_u32[of "MaxRawTxBytes (sv_limits s)"] by simp
  have ux: "unat ?x = 2 * length raw + 128"
    using l32 by (simp add: unat_word_ariths unat_of_nat)
  have ue: "unat (e + ?x) = charged r + (2 * length raw + 128)"
    using assms(2,3) ux l32 by (subst unat_add_small) simp_all
  have "unat (e + ?x + 128) = unat (e + ?x) + 128"
    using ue assms(3) l32 by (subst unat_add_small) simp_all
  moreover have "unat (e + ?x + 128) \<le> unat (MaxResponseBytes (sv_limits s))"
    using fit by (simp add: not_less word_le_nat_alt)
  ultimately have "charged r + (2 * length raw + 128) \<le> 2 ^ 32"
    using ue unat_lt_u32[of "MaxResponseBytes (sv_limits s)"] by simp
  moreover have "charged r' = charged r + (2 * length raw + 128)" by (simp add: r(1) charged_def)
  moreover have "raw_bound s v ?t"
    using rid small Inr by (auto simp: raw_bound_def RawTransactionID_Inr)
  ultimately show ?thesis using Inr r ue by (simp add: raw_found_def)
qed

lemma appendRawTransactions_Inr:
  assumes "fst (appendRawTransactions sdk s v txids r e c) = Inr (r', e')" "unat e = charged r"
    "max (charged r) (2 ^ 32) + 67 * length txids \<le> 2 ^ 40"
  shows "(\<exists>ts. Transactions r' = Transactions r @ ts \<and> map raw_TxID ts = filter (raw_found s v) txids \<and>
      list_all (raw_bound s v) ts) \<and>
    Missing r' = Missing r @ filter (\<lambda>t. \<not> raw_found s v t) txids \<and> unat e' = charged r' \<and> charged r' \<le> 2 ^ 40"
  using assms
proof (induction txids arbitrary: r e c)
  case Nil
  then show ?case by simp
next
  case (Cons txid txids)
  from Cons.prems(1) obtain r1 e1 c1 where
    one: "fst (appendRawTransaction sdk s v txid r e c) = Inr (r1, e1)"
    and rest: "fst (appendRawTransactions sdk s v txids r1 e1 c1) = Inr (r', e')"
    by (auto simp: fst_cbind_Inr)
  have s1: "if raw_found s v txid
      then (\<exists>t. Transactions r1 = Transactions r @ [t] \<and> raw_TxID t = txid \<and> raw_bound s v t) \<and> Missing r1 = Missing r
      else Transactions r1 = Transactions r \<and> Missing r1 = Missing r @ [txid]"
    and e1: "unat e1 = charged r1" "charged r1 \<le> max (charged r + 67) (2 ^ 32)"
    using appendRawTransaction_Inr[OF one Cons.prems(2)] Cons.prems(3) by auto
  have "max (charged r1) (2 ^ 32) + 67 * length txids \<le> 2 ^ 40" using e1(2) Cons.prems(3) by auto
  note IH = Cons.IH[OF rest e1(1) this]
  then obtain ts where "Transactions r' = Transactions r1 @ ts" "map raw_TxID ts = filter (raw_found s v) txids"
    "list_all (raw_bound s v) ts" by blast
  with s1 have "\<exists>ts. Transactions r' = Transactions r @ ts \<and> map raw_TxID ts = filter (raw_found s v) (txid # txids) \<and>
      list_all (raw_bound s v) ts"
    by (cases "raw_found s v txid") auto
  with IH s1 show ?case by (cases "raw_found s v txid") auto
qed

lemma ProvideRawTransactions_Inr:
  assumes "fst (ProvideRawTransactions sdk ctx_nil (Some s) txids c) = Inr r"
  shows "\<exists>storage v. sv_storage s = Some storage \<and> storage [] (sv_limits s) = Inr (Some v) \<and>
    map raw_TxID (Transactions r) = filter (raw_found s v) txids \<and> Missing r = filter (\<lambda>t. \<not> raw_found s v t) txids \<and>
    list_all (raw_bound s v) (Transactions r) \<and> charged r + 128 \<le> unat (MaxResponseBytes (sv_limits s))"
proof -
  from assms obtain c0 where ids: "validateTxids (Some s) txids False = Inr ()"
    and rd: "fst (readBASM ctx_nil (Some s) [] False (\<lambda>s v. collectRawTransactions sdk s v txids) c0) = Inr r"
    by (auto simp: ProvideRawTransactions_def fst_cbind_Inr)
  from rd obtain storage v c1 headers where st: "sv_storage s = Some storage" "storage [] (sv_limits s) = Inr (Some v)"
    and col: "fst (collectRawTransactions sdk s v txids c1) = Inr (r, headers)"
    by (rule readBASM_Inr)
  from col obtain e c2 where app: "fst (appendRawTransactions sdk s v txids \<lparr>Transactions = [], Missing = []\<rparr> 0 c2) = Inr (r, e)"
    and fit: "\<not> ucast (MaxResponseBytes (sv_limits s)) < e + 128"
    by (auto simp: collectRawTransactions_def fst_cbind_Inr split: if_splits)
  have none: "charged \<lparr>Transactions = [], Missing = []\<rparr> = 0" by (simp add: charged_def)
  have "length txids \<le> 2 ^ 32"
    using ids unat_lt_u32[of "MaxRequestedTxIDs (sv_limits s)"] by (simp add: validateTxids_Inr)
  then have inv: "(\<exists>ts. Transactions r = ts \<and> map raw_TxID ts = filter (raw_found s v) txids \<and> list_all (raw_bound s v) ts) \<and>
    Missing r = filter (\<lambda>t. \<not> raw_found s v t) txids \<and> unat e = charged r \<and> charged r \<le> 2 ^ 40"
    using appendRawTransactions_Inr[OF app] by (simp add: none)
  then have "unat (e + 128) = charged r + 128" by (subst unat_add_small) simp_all
  moreover have "unat (e + 128) \<le> unat (MaxResponseBytes (sv_limits s))"
    using fit by (simp add: not_less word_le_nat_alt)
  ultimately show ?thesis using st inv by auto
qed

section \<open>Blocks and proofs\<close>

lemma readBlock_Inr:
  assumes "fst (readBlock s v topic height c) = Inr (anchor, admitted, header)"
  shows "(\<exists>c'. fst (validateAnchor s 0 topic anchor c') = Inr header) \<and>
    BlockHeight (anc_TopicBlockAnchor anchor) = height \<and> hdr_Height header = height \<and>
    unat (AdmittedCount (anc_TopicBlockAnchor anchor)) = length admitted \<and>
    admitted_list_ok admitted (hdr_TransactionCount header) \<and>
    merkle (map TxID admitted) = BASMRoot (anc_TopicBlockAnchor anchor)"
proof -
  from assms obtain c1 c2 where val: "fst (validateAnchor s 0 topic anchor c1) = Inr header"
    and ht: "BlockHeight (anc_TopicBlockAnchor anchor) = height"
    and lst: "fst (ValidateAnchorList False (anc_TopicBlockAnchor anchor) admitted (hdr_TransactionCount header)
      (rl_Limits (sv_limits s)) c2) = Inr ()"
    by (auto simp: readBlock_def Let_def fst_cbind_Inr split: if_splits)
  show ?thesis
    using validateAnchor_Inr[OF val] ValidateAnchorList_Inr[OF lst] ht val by auto
qed

lemma ProvideAdmittedList_Inr:
  assumes "fst (ProvideAdmittedList ctx_nil (Some s) topic height h c) = Inr r"
  shows "\<exists>anchor n. canonical_anchor s 0 topic anchor \<and> canonical_anchor s 1 topic anchor \<and>
    BlockHeight (anc_TopicBlockAnchor anchor) = height \<and> al_Topic r = topic \<and> al_BlockHeight r = height \<and>
    al_BlockHash r = Some (BlockHash (anc_TopicBlockAnchor anchor)) \<and> (h \<noteq> None \<longrightarrow> al_BlockHash r = h) \<and>
    admitted_list_ok (al_Admitted r) n \<and> unat (AdmittedCount (anc_TopicBlockAnchor anchor)) = length (al_Admitted r) \<and>
    BASMRoot (anc_TopicBlockAnchor anchor) = merkle (map TxID (al_Admitted r))"
proof -
  from assms[unfolded ProvideAdmittedList_def] obtain storage v c1 headers where
    rd: "fst (cbind (readBlock s v topic height) (\<lambda>(anchor, admitted, header).
         let blockHash = BlockHash (anc_TopicBlockAnchor anchor) in
         if h \<noteq> None \<and> h \<noteq> Some blockHash then clift (Inl ErrBASMNotReady)
         else cbind (clift (checkResponseSize s (topic_bytes 192 topic) 128 (word_of_nat (length admitted)))) (\<lambda>_.
           cret (\<lparr>al_Topic = topic, al_BlockHeight = height, al_BlockHash = Some blockHash, al_Admitted = admitted\<rparr>,
                 [header]))) c1) = Inr (r, headers)"
    and again: "\<forall>i < length headers. \<exists>resolve. sv_headers s = Some resolve \<and>
       resolve (length headers + i) (hdr_Height (headers ! i)) = Inr (headers ! i)"
    by (rule readBASM_Inr) blast
  from rd obtain anchor admitted header where
    blk: "fst (readBlock s v topic height c1) = Inr (anchor, admitted, header)"
    and h: "h = None \<or> h = Some (BlockHash (anc_TopicBlockAnchor anchor))"
    and r: "r = \<lparr>al_Topic = topic, al_BlockHeight = height,
      al_BlockHash = Some (BlockHash (anc_TopicBlockAnchor anchor)), al_Admitted = admitted\<rparr>" "headers = [header]"
    by (auto simp: fst_cbind_Inr Let_def split: if_splits)
  note b = readBlock_Inr[OF blk]
  then obtain c' where v: "fst (validateAnchor s 0 topic anchor c') = Inr header" by blast
  have "canonical_anchor s 1 topic anchor"
    using again r(2) by (intro canonical_anchor_again[OF v]) simp
  with validateAnchor_canonical[OF v] b r h show ?thesis
    by (intro exI[of _ anchor] exI[of _ "hdr_TransactionCount header"]) auto
qed

text \<open>The proof of a requested transaction, as storage gave it and the code accepted it.\<close>

definition proved_at ::
  "'tx sdk \<Rightarrow> BASMReadView \<Rightarrow> hash \<Rightarrow> u64 \<Rightarrow> BASMCanonicalHeader \<Rightarrow> MerklePath \<Rightarrow> bool" where
  "proved_at sdk v txid position header path \<longleftrightarrow>
     (\<exists>m bytes c. v_MerklePath v txid m = Inr bytes \<and> sdk_NewMerklePathFromReader sdk bytes = Inr path \<and>
        fst (validateBASMProof (sdk_MerkleTreeParent sdk) path txid position header c) = Inr ())"

lemma mergeOneProof_Inr:
  assumes "fst (mergeOneProof sdk s v txid positions header merged used c) = Inr x"
  shows "\<exists>position path. positions txid = Some position \<and> proved_at sdk v txid position header path"
  using assms
  by (auto simp: mergeOneProof_def Let_def fst_cbind_Inr ParseBoundedMerklePath_Inr proved_at_def
      split: option.splits if_splits)

lemma mergeRequestedProofs_from_Inr:
  assumes "fst (mergeRequestedProofs_from sdk s v txids positions header merged used c) = Inr x" "txid \<in> set txids"
  shows "\<exists>position path. positions txid = Some position \<and> proved_at sdk v txid position header path"
  using assms
proof (induction txids arbitrary: merged used c)
  case Nil
  then show ?case by simp
next
  case (Cons t txids)
  from Cons.prems(1) obtain c1 y c2 m' a where "fst (mergeOneProof sdk s v t positions header merged used c1) = Inr y"
    "fst (mergeRequestedProofs_from sdk s v txids positions header m' (used + a) c2) = Inr x"
    by (auto simp: fst_cbind_Inr)
  with Cons.IH Cons.prems(2) mergeOneProof_Inr show ?case by (metis set_ConsD)
qed

lemma admittedPositions_Some:
  assumes "admittedPositions admitted txid = Some p"
  shows "\<exists>ref \<in> set admitted. TxID ref = txid \<and> BlockIndex ref = p"
proof -
  have "foldl (\<lambda>m ref. m(TxID ref \<mapsto> BlockIndex ref)) m refs txid = Some p \<Longrightarrow>
      m txid = Some p \<or> (\<exists>ref \<in> set refs. TxID ref = txid \<and> BlockIndex ref = p)" for m refs
  proof (induction refs arbitrary: m)
    case (Cons r refs)
    from Cons.IH[of "m(TxID r \<mapsto> BlockIndex r)"] Cons.prems show ?case by (auto split: if_splits)
  qed simp
  from this[of Map.empty admitted] assms show ?thesis by (simp add: admittedPositions_def)
qed

lemma ProvideCompoundMerklePath_Inr:
  assumes "fst (ProvideCompoundMerklePath sdk ctx_nil (Some s) topic height txids c) = Inr r"
  obtains storage v resolve header admitted where "sv_storage s = Some storage" "storage topic (sv_limits s) = Inr (Some v)"
    "sv_headers s = Some resolve" "resolve 0 height = Inr header"
    "resolve 1 height = Inr header" "hdr_Height header = height" "hdr_TransactionCount header \<noteq> 0"
    "admitted_list_ok admitted (hdr_TransactionCount header)" "cp_TxIDs r = txids" "distinct txids" "txids \<noteq> []"
    "\<forall>txid \<in> set txids. \<exists>ref \<in> set admitted. \<exists>path. TxID ref = txid \<and> proved_at sdk v txid (BlockIndex ref) header path"
proof -
  from assms obtain c0 where ids: "validateTxids (Some s) txids True = Inr ()"
    and rd: "fst (readBASM ctx_nil (Some s) topic True (\<lambda>s v. compoundMerklePath sdk s v topic height txids) c0) = Inr r"
    by (auto simp: ProvideCompoundMerklePath_def fst_cbind_Inr)
  from rd obtain storage v c1 headers where st: "sv_storage s = Some storage" "storage topic (sv_limits s) = Inr (Some v)"
    and cmp: "fst (compoundMerklePath sdk s v topic height txids c1) = Inr (r, headers)"
    and again: "\<forall>i < length headers. \<exists>resolve. sv_headers s = Some resolve \<and>
       resolve (length headers + i) (hdr_Height (headers ! i)) = Inr (headers ! i)"
    by (rule readBASM_Inr) blast
  from cmp obtain anchor admitted header merged c2 where
    blk: "fst (readBlock s v topic height c1) = Inr (anchor, admitted, header)"
    and mrg: "fst (mergeRequestedProofs sdk s v txids (admittedPositions admitted) header c2) = Inr merged"
    and r: "cp_TxIDs r = txids" "headers = [header]"
    by (auto simp: compoundMerklePath_def fst_cbind_Inr Let_def split: if_splits)
  note b = readBlock_Inr[OF blk]
  then obtain c' where v: "fst (validateAnchor s 0 topic anchor c') = Inr header" by blast
  note va = validateAnchor_Inr[OF v]
  then obtain resolve where res: "sv_headers s = Some resolve" "resolve 0 height = Inr header"
    using b by auto
  have "\<exists>ref \<in> set admitted. \<exists>path. TxID ref = txid \<and> proved_at sdk v txid (BlockIndex ref) header path"
    if "txid \<in> set txids" for txid
    using mergeRequestedProofs_from_Inr[OF mrg[unfolded mergeRequestedProofs_def] that] admittedPositions_Some by metis
  moreover have "resolve 1 height = Inr header" using again r(2) res b by simp
  ultimately show thesis
    using that[of storage v resolve header admitted] st res r b va ids by (simp add: validateTxids_Inr)
qed

section \<open>Properties\<close>


definition demo_chain_anchor :: Anchor where
  "demo_chain_anchor = \<lparr>anc_TopicBlockAnchor = demo_anchor, anc_TAC = zero_hash\<rparr>"

definition demo_view :: BASMReadView where
  "demo_view = \<lparr>v_Tip = Inr (Some demo_chain_anchor), v_Anchors = (\<lambda>_ _ _. Inr [demo_chain_anchor]),
     v_Admitted = (\<lambda>_ _. Inr demo_refs), v_MerklePath = (\<lambda>_ _. Inl ErrBASMNotFound),
     v_RawTx = (\<lambda>_ _. Inl ErrBASMNotFound), v_CheckCurrent = Inr (), v_Close = Inr ()\<rparr>"

definition demo_service :: BASMReadService where
  "demo_service = \<lparr>sv_storage = Some (\<lambda>_ _. Inr (Some demo_view)),
     sv_headers = Some (\<lambda>_ h. Inr \<lparr>hdr_Height = h, hdr_BlockHash = zero_hash, hdr_MerkleRoot = zero_hash, hdr_TransactionCount = 4\<rparr>),
     sv_limits = DefaultReadLimits\<rparr>"

lemma demo_anchor_valid: "AnchorValidate demo_anchor DefaultLimits = Inr ()"
  using demo_accepted by (simp add: ValidateAnchorList_Nil)

lemma demo_topic_valid:
  "AnchorValidate \<lparr>Topic = ''tm_demo'', BlockHeight = 0, BlockHash = zero_hash, BASMRoot = zero_hash, AdmittedCount = 0\<rparr>
     DefaultLimits = Inr ()"
  using demo_anchor_valid by (simp add: AnchorValidate_Inr demo_anchor_def)

lemma demo_checks:
  "ValidateRange 7 7 1024 = Inr 1"
  "checkResponseSize demo_service (topic_bytes 64 ''tm_demo'') (topic_bytes 400 ''tm_demo'') 1 = Inr ()"
  "checkResponseSize demo_service (topic_bytes 192 ''tm_demo'') 128 1 = Inr ()"
  "(4 :: u64) \<le> MaxSafeJSONInteger"
  by code_simp+

lemma demo_validateAnchor:
  "validateAnchor demo_service k ''tm_demo'' demo_chain_anchor [] =
     (Inr \<lparr>hdr_Height = 7, hdr_BlockHash = zero_hash, hdr_MerkleRoot = zero_hash, hdr_TransactionCount = 4\<rparr>, [])"
  using demo_anchor_valid demo_checks(4)
  by (simp add: validateAnchor_def demo_service_def demo_chain_anchor_def DefaultReadLimits_def cbind_Inr
      clift_def cret_def cbind_def demo_anchor_def not_less)

lemmas demo_read_simps = readBASM_def demo_topic_valid requireBASMHeaders_def openBASMReadView_def closeBASMView_def
  completeBASMRead_def cbind_def clift_def cret_def

lemma demo_range: "fst (ProvideTopicAnchorRange False (Some demo_service) ''tm_demo'' 7 7 []) =
    Inr \<lparr>range_Topic = ''tm_demo'', range_Anchors = [demo_chain_anchor]\<rparr>"
proof -
  have lim: "rl_Limits (sv_limits demo_service) = DefaultLimits" "MaxRange DefaultLimits = 1024"
    "sv_storage demo_service = Some (\<lambda>_ _. Inr (Some demo_view))"
    "sv_headers demo_service = Some (\<lambda>_ h. Inr \<lparr>hdr_Height = h, hdr_BlockHash = zero_hash, hdr_MerkleRoot = zero_hash, hdr_TransactionCount = 4\<rparr>)"
    "BlockHeight (anc_TopicBlockAnchor demo_chain_anchor) = 7" "v_Anchors demo_view = (\<lambda>_ _ _. Inr [demo_chain_anchor])"
    "v_CheckCurrent demo_view = Inr ()" "v_Close demo_view = Inr ()"
    by (simp_all add: demo_service_def DefaultReadLimits_def DefaultLimits_def demo_chain_anchor_def demo_anchor_def demo_view_def)
  show ?thesis
    using demo_checks(1,2) demo_validateAnchor[of 0]
    by (simp add: ProvideTopicAnchorRange_def collectAnchorRange_def validateAnchorRange_def lim demo_read_simps)
qed


text \<open>
  C20: a raw transaction response splits the request, in its order, into the found and the missing
  ids; every record holds exactly storage's bytes, whose double hash is the id; and the charged
  size of the response, computed at 64 bits without wrapping, is within the limit.
\<close>

theorem ProvideRawTransactions_complete:
  assumes "fst (ProvideRawTransactions sdk ctx_nil (Some s) txids c) = Inr r"
  shows "\<exists>storage v. sv_storage s = Some storage \<and> storage [] (sv_limits s) = Inr (Some v) \<and>
    map raw_TxID (Transactions r) = filter (raw_found s v) txids \<and> Missing r = filter (\<lambda>t. \<not> raw_found s v t) txids \<and>
    list_all (raw_bound s v) (Transactions r) \<and> charged r + 128 \<le> unat (MaxResponseBytes (sv_limits s))"
  using assms by (rule ProvideRawTransactions_Inr)

definition demo_sdk :: "unit sdk" where
  "demo_sdk = \<lparr>sdk_NewTransactionFromBytes = (\<lambda>_. Inl ErrInvalidInput), sdk_TxBytes = (\<lambda>_. []),
     sdk_NewMerklePathFromReader = (\<lambda>_. Inr demo_path), sdk_MerklePathBytes = (\<lambda>_ _. []), sdk_MerkleTreeParent = hashPair\<rparr>"

lemma demo_raw: "fst (ProvideRawTransactions demo_sdk False (Some demo_service) [zero_hash] []) =
    Inr \<lparr>Transactions = [], Missing = [zero_hash]\<rparr>"
proof -
  have big: "\<not> (ucast (push_bit 20 96 :: u32) :: u64) < 195" "(1 :: nat) \<le> unat (1000 :: u32)" by code_simp+
  show ?thesis
    using big by (simp add: ProvideRawTransactions_def validateTxids_def demo_service_def demo_view_def DefaultReadLimits_def
        collectRawTransactions_def appendRawTransaction_def demo_read_simps)
qed

theorem ProvideRawTransactions_complete_witness:
  "\<exists>storage v. sv_storage demo_service = Some storage \<and> storage [] (sv_limits demo_service) = Inr (Some v) \<and>
     Missing \<lparr>Transactions = [], Missing = [zero_hash]\<rparr> = filter (\<lambda>t. \<not> raw_found demo_service v t) [zero_hash]"
  using ProvideRawTransactions_complete[OF demo_raw] by blast


lemma demo_list: "fst (ProvideAdmittedList False (Some demo_service) ''tm_demo'' 7 (Some zero_hash) []) =
    Inr \<lparr>al_Topic = ''tm_demo'', al_BlockHeight = 7, al_BlockHash = Some zero_hash, al_Admitted = demo_refs\<rparr>"
proof -
  have lim: "rl_Limits (sv_limits demo_service) = DefaultLimits"
    "sv_storage demo_service = Some (\<lambda>_ _. Inr (Some demo_view))"
    "sv_headers demo_service = Some (\<lambda>_ h. Inr \<lparr>hdr_Height = h, hdr_BlockHash = zero_hash, hdr_MerkleRoot = zero_hash, hdr_TransactionCount = 4\<rparr>)"
    "anc_TopicBlockAnchor demo_chain_anchor = demo_anchor" "BlockHeight demo_anchor = 7" "BlockHash demo_anchor = zero_hash"
    "v_Anchors demo_view = (\<lambda>_ _ _. Inr [demo_chain_anchor])" "v_Admitted demo_view = (\<lambda>_ _. Inr demo_refs)"
    "v_CheckCurrent demo_view = Inr ()" "v_Close demo_view = Inr ()" "length demo_refs = 1"
    by (simp_all add: demo_service_def DefaultReadLimits_def demo_chain_anchor_def demo_anchor_def demo_view_def demo_refs_def)
  have val: "ValidateAnchorList False demo_anchor demo_refs 4 DefaultLimits [] = (Inr (), [])"
    using demo_accepted transparent_Nil[OF transparent_ValidateAnchorList] by metis
  show ?thesis
    using demo_checks(3) demo_validateAnchor[of 0] val
    by (simp add: ProvideAdmittedList_def readBlock_def cmap_error_def lim demo_read_simps)
qed



definition demo_bump :: bump where
  "demo_bump = \<lparr>bump_height = 5, bump_levels = [[\<lparr>bump_offset = 0, bump_mark = Hash_Item False (replicate 32 1)\<rparr>,
     \<lparr>bump_offset = 1, bump_mark = Hash_Item True (replicate 32 2)\<rparr>]]\<rparr>"

definition demo_proof_anchor :: Anchor where
  "demo_proof_anchor = \<lparr>anc_TopicBlockAnchor = \<lparr>Topic = ''tm_demo'', BlockHeight = 5, BlockHash = zero_hash,
     BASMRoot = replicate 32 2, AdmittedCount = 1\<rparr>, anc_TAC = zero_hash\<rparr>"

definition demo_proof_service :: BASMReadService where
  "demo_proof_service = \<lparr>sv_storage = Some (\<lambda>_ _. Inr (Some (demo_view\<lparr>v_Anchors := (\<lambda>_ _ _. Inr [demo_proof_anchor]),
       v_Admitted := (\<lambda>_ _. Inr [\<lparr>TxID = replicate 32 2, BlockIndex = 1\<rparr>]),
       v_MerklePath := (\<lambda>_ _. Inr (encode_bump demo_bump))\<rparr>))),
     sv_headers = Some (\<lambda>_ _. Inr demo_header), sv_limits = DefaultReadLimits\<rparr>"

lemma demo_bump_ok: "bump_ok demo_bump"
  by (simp add: bump_ok_def demo_bump_def level_ok_def item_ok_def)

lemma length_demo_bump: "length (encode_bump demo_bump) = 71"
  by (simp add: encode_bump_def demo_bump_def encode_level_def encode_item_def compact_len_def appendCompactSize_def)

lemma demo_proof_parsed:
  "ParseBoundedMerklePath (sdk_NewMerklePathFromReader demo_sdk) (encode_bump demo_bump) 8388608 = Inr demo_path"
  using demo_bump_ok length_demo_bump by (auto simp: ParseBoundedMerklePath_Inr demo_sdk_def)

lemma demo_proof_block:
  "readBlock demo_proof_service (demo_view\<lparr>v_Anchors := (\<lambda>_ _ _. Inr [demo_proof_anchor]),
       v_Admitted := (\<lambda>_ _. Inr [\<lparr>TxID = replicate 32 2, BlockIndex = 1\<rparr>]), v_MerklePath := m\<rparr>) ''tm_demo'' 5 [] =
     (Inr (demo_proof_anchor, [\<lparr>TxID = replicate 32 2, BlockIndex = 1\<rparr>], demo_header), [])"
proof -
  let ?a = "anc_TopicBlockAnchor demo_proof_anchor" and ?refs = "[\<lparr>TxID = replicate 32 2, BlockIndex = 1\<rparr>]"
  have "AnchorValidate ?a DefaultLimits = Inr ()"
    using demo_anchor_valid by (simp add: AnchorValidate_Inr demo_anchor_def demo_proof_anchor_def)
  moreover have safe: "(2 :: u64) \<le> MaxSafeJSONInteger" "\<not> (2 :: u64) < 1" by code_simp+
  ultimately have "fst (ValidateAnchorList False ?a ?refs 2 DefaultLimits []) = Inr ()" and
    av: "AnchorValidate ?a DefaultLimits = Inr ()"
    by (simp_all add: ValidateAnchorList_Nil ValidateAdmittedList_Nil admitted_list_ok_def)
      (simp_all add: demo_proof_anchor_def DefaultLimits_def)
  then have "ValidateAnchorList False ?a ?refs 2 DefaultLimits [] = (Inr (), [])"
    using transparent_Nil[OF transparent_ValidateAnchorList] by metis
  moreover have "validateAnchor demo_proof_service 0 ''tm_demo'' demo_proof_anchor [] = (Inr demo_header, [])"
    using av safe by (simp add: validateAnchor_def demo_proof_service_def DefaultReadLimits_def demo_proof_anchor_def
        demo_header_def cbind_def clift_def cret_def not_less)
  moreover have "rl_Limits (sv_limits demo_proof_service) = DefaultLimits" "hdr_TransactionCount demo_header = 2"
    "BlockHeight ?a = 5"
    by (simp_all add: demo_proof_service_def DefaultReadLimits_def demo_header_def demo_proof_anchor_def)
  ultimately show ?thesis
    by (simp add: readBlock_def cmap_error_def demo_view_def cbind_def clift_def cret_def)
qed

lemma demo_compound:
  "fst (ProvideCompoundMerklePath demo_sdk False (Some demo_proof_service) ''tm_demo'' 5 [replicate 32 2] []) =
     Inr \<lparr>cp_Topic = ''tm_demo'', cp_BlockHeight = 5, cp_TxIDs = [replicate 32 2], cp_MerklePath = []\<rparr>"
proof -
  let ?v = "demo_view\<lparr>v_Anchors := (\<lambda>_ _ _. Inr [demo_proof_anchor]),
       v_Admitted := (\<lambda>_ _. Inr [\<lparr>TxID = replicate 32 2, BlockIndex = 1\<rparr>]), v_MerklePath := (\<lambda>_ _. Inr (encode_bump demo_bump))\<rparr>"
  have val: "validateBASMProof hashPair demo_path (replicate 32 2) 1 demo_header [] = (Inr (), [])"
    using demo_path_accepted transparent_Nil[OF transparent_validateBASMProof] by metis
  have nums: "(ucast (8388608 :: u32) :: u64) \<noteq> 0" "\<not> unat (ucast (8388608 :: u32) :: u64) < 71"
    "\<not> proofResponseTooLarge [] [replicate 32 2] ''tm_demo'' DefaultReadLimits" "merkleProofDepth 2 = 1"
    subgoal by simp
    subgoal by simp
    subgoal by (simp add: proofResponseTooLarge_def DefaultReadLimits_def)
    subgoal by code_simp
    done
  have merge: "mergeRequestedProofs demo_sdk demo_proof_service ?v [replicate 32 2]
      (admittedPositions [\<lparr>TxID = replicate 32 2, BlockIndex = 1\<rparr>]) demo_header [] =
      (Inr [[(0, \<lparr>pe_Offset = 0, pe_Hash = Some (replicate 32 1), pe_Txid = None, pe_Duplicate = None\<rparr>),
        (1, \<lparr>pe_Offset = 1, pe_Hash = Some (replicate 32 2), pe_Txid = Some True, pe_Duplicate = None\<rparr>)]], [])"
    using val demo_proof_parsed nums(1,2) length_demo_bump nums(4)
    by (simp add: mergeRequestedProofs_def mergeOneProof_def admittedPositions_def demo_proof_service_def
        DefaultReadLimits_def cbind_def clift_def cret_def demo_sdk_def demo_header_def)
       (simp add: demo_path_def mergeProofNode_def merged_set_def)
  have lim: "sv_storage demo_proof_service = Some (\<lambda>_ _. Inr (Some ?v))" "sv_headers demo_proof_service = Some (\<lambda>_ _. Inr demo_header)"
    "rl_Limits DefaultReadLimits = DefaultLimits" "sv_limits demo_proof_service = DefaultReadLimits"
    "MaxRequestedTxIDs DefaultReadLimits = 1000" "v_CheckCurrent demo_view = Inr ()" "v_Close demo_view = Inr ()"
    "encodeMergedProof demo_sdk 5 m = []" for m
    by (simp_all add: demo_proof_service_def DefaultReadLimits_def demo_view_def encodeMergedProof_def demo_sdk_def)
  show ?thesis
    using merge demo_proof_block nums(3)
    by (simp add: ProvideCompoundMerklePath_def validateTxids_def compoundMerklePath_def lim demo_read_simps)
qed


text \<open>
  The size check accepts exactly when base plus items fits the limit as natural numbers: the
  division rules out that the product wraps around.
\<close>

theorem checkResponseSize_iff:
  "checkResponseSize s base perItem count = Inr u \<longleftrightarrow>
     unat base + unat perItem * unat count \<le> unat (MaxResponseBytes (sv_limits s))"
  by (rule checkResponseSize_Inr)

end
