(* ===== verification/Admission_Contract.thy ===== *)
theory Admission_Contract
  imports Go_Text Go_Sha256 "HOL-Library.Char_ord" "HOL-Library.List_Lexorder" "HOL-Library.Multiset"
begin

text \<open>
  The admission contract, \<^verbatim>\<open>pkg/core/engine/admission_storage.go\<close>, and the recovery contract,
  \<^verbatim>\<open>recovery_contract.go\<close>: the records of an admission plan, canonical storage integers,
  the semantic digest of an admission identity, the discovery of optional capabilities, recovery
  leases and the gate of the GASP cursor. Go strings are compared bytewise, which is the
  lexicographic order on \<^typ>\<open>string\<close>.
\<close>

section \<open>Types\<close>

datatype admission_error =
  ErrAdmissionRejected | ErrAdmissionPending | ErrAdmissionUnsupported
| ErrInvalidStorageUint64 | ErrInvalidStorageOutputIndex | ErrInvalidAdmissionHash
| ErrInvalidAdmissionMode | ErrInvalidAdmissionTopics | ErrInvalidAdmissionIdentity

definition AdmissionStorageProtocol :: string where
  "AdmissionStorageProtocol = ''overlay-admission-v1''"

definition ReplaySafeProjectionProtocol :: string where
  "ReplaySafeProjectionProtocol = ''overlay-projection-v1''"

text \<open>Decimal text; the codec below says which texts are canonical.\<close>

type_synonym StorageUint64 = string

record StorageScope =
  ss_Network :: string
  ss_GenesisHash :: string
  ss_NodeID :: string

record HistoryFence =
  hf_ChainEpoch :: StorageUint64
  hf_TopicHistoryGeneration :: StorageUint64

text \<open>A Go string type: values other than the two constants exist and are rejected below.\<close>

type_synonym AdmissionMode = string

definition AdmissionModeLive :: AdmissionMode where
  "AdmissionModeLive = ''live''"

definition AdmissionModeHistorical :: AdmissionMode where
  "AdmissionModeHistorical = ''historical''"

record AdmissionTopic =
  at_Topic :: string
  at_PolicyID :: string

record AdmissionIdentity =
  ai_Scope :: StorageScope
  ai_TxID :: string
  ai_Mode :: AdmissionMode
  ai_ContextDigest :: string
  ai_Topics :: "AdmissionTopic list"

record AdmissionOperationKey =
  ok_Scope :: StorageScope
  ok_OperationID :: string
  ok_SemanticDigest :: string

datatype AdmissionPayloadKind =
  AdmissionPayloadRawTransaction | AdmissionPayloadMerklePath | AdmissionPayloadBEEFManifest
| AdmissionPayloadLockingScript | AdmissionPayloadOutboxData

record AdmissionPayloadRef =
  pr_Digest :: string
  pr_ByteLength :: StorageUint64
  pr_Kind :: AdmissionPayloadKind

record AdmissionOutpoint =
  ao_TxID :: string
  ao_OutputIndex :: StorageUint64

record AdmissionReadPredicate =
  rp_Key :: string
  rp_ExpectedVersion :: "string option"

record AdmissionScriptRange =
  sr_Payload :: AdmissionPayloadRef
  sr_Offset :: StorageUint64
  sr_ByteLength :: StorageUint64

record AdmissionOutput =
  out_AdmissionOutpoint :: AdmissionOutpoint
  out_Satoshis :: StorageUint64
  out_Score :: StorageUint64
  out_Script :: AdmissionScriptRange
  out_Ancillary :: "string list"

record AdmissionSpend =
  sp_Outpoint :: AdmissionOutpoint
  sp_ExpectedVersion :: string
  sp_Spender :: string

record AdmissionEdge =
  ed_Source :: AdmissionOutpoint
  ed_Consumer :: AdmissionOutpoint

record AdmissionAppliedBlock =
  ab_Height :: StorageUint64
  ab_Hash :: string
  ab_Index :: StorageUint64
  ab_MerkleRoot :: string

record AdmissionAppliedTransaction =
  aa_TxID :: string
  aa_FirstSeenHeight :: "StorageUint64 option"
  aa_Proof :: "AdmissionPayloadRef option"
  aa_Block :: "AdmissionAppliedBlock option"

text \<open>Recovery leases and the handoff a history update may carry.\<close>

record RecoveryLease =
  rl_HistoryFence :: HistoryFence
  rl_Scope :: StorageScope
  rl_Topic :: string
  rl_PeerID :: string
  rl_JobID :: string
  rl_LeaseToken :: StorageUint64
  rl_ExpiresAtMS :: StorageUint64

record HistoryRevisionHandoff =
  hh_Expected :: RecoveryLease
  hh_Checkpoint :: string

record AdmissionHistoryUpdate =
  hu_NextTopicHistoryGeneration :: StorageUint64
  hu_AffectedFromHeight :: StorageUint64
  hu_Handoff :: "HistoryRevisionHandoff option"

record AdmissionTopicDecision =
  td_Topic :: string
  td_ExpectedHistory :: HistoryFence
  td_Reads :: "AdmissionReadPredicate list"
  td_Spends :: "AdmissionSpend list"
  td_Evictions :: "AdmissionOutpoint list"
  td_Outputs :: "AdmissionOutput list"
  td_Edges :: "AdmissionEdge list"
  td_Applied :: AdmissionAppliedTransaction
  td_HistoryUpdate :: "AdmissionHistoryUpdate option"

datatype AdmissionOutboxKind = AdmissionOutboxLookup | AdmissionOutboxPropagation

record AdmissionOutboxIntent =
  oi_EventID :: string
  oi_Kind :: AdmissionOutboxKind
  oi_Target :: string
  oi_Payloads :: "AdmissionPayloadRef list"

record AdmissionCommit =
  ac_Key :: AdmissionOperationKey
  ac_Identity :: AdmissionIdentity
  ac_Payloads :: "AdmissionPayloadRef list"
  ac_Decisions :: "AdmissionTopicDecision list"
  ac_Outbox :: "AdmissionOutboxIntent list"
  ac_Steak :: string

datatype AdmissionIndexState = AdmissionIndexVisible | AdmissionIndexPending

record AdmissionIndexStatus =
  is_Target :: string
  is_State :: AdmissionIndexState

datatype AdmissionPropagationState = AdmissionPropagationNotRequested | AdmissionPropagationPending

record AdmissionReceipt =
  re_OperationID :: string
  re_SemanticDigest :: string
  re_Durability :: string
  re_Steak :: string
  re_Indexes :: "AdmissionIndexStatus list"
  re_Propagation :: AdmissionPropagationState

text \<open>A Go string type as well: a provider may return a state outside the four constants.\<close>

datatype AdmissionCommitState =
  AdmissionCommitStateCommitted | AdmissionCommitStatePending
| AdmissionCommitStateRejected | AdmissionCommitStateAborted | OtherCommitState string

record AdmissionCommitResult =
  cr_State :: AdmissionCommitState
  cr_Receipt :: "AdmissionReceipt option"
  cr_AttemptID :: string
  cr_RejectionCode :: string

record TopicAnchorRevision =
  ar_HistoryFence :: HistoryFence
  ar_Scope :: StorageScope
  ar_Topic :: string
  ar_Height :: StorageUint64
  ar_BlockHash :: string
  ar_BASMRoot :: string
  ar_AdmittedCount :: StorageUint64
  ar_TAC :: string
  ar_PreviousTAC :: string
  ar_PolicyID :: string

section \<open>Optional capabilities\<close>

text \<open>
  A value of Go's type \<^verbatim>\<open>any\<close>: nil, or a dynamic type of some reflect kind with a flag for a nil
  pointer, map and so on. The last field holds the method set when the dynamic type implements
  the interface the code asserts.
\<close>

datatype go_kind = K_Chan | K_Func | K_Interface | K_Map | K_Pointer | K_Slice | K_Other

datatype 'i any = AnyNil | AnyOf go_kind bool "'i option"

fun isNilCapability :: "'i any \<Rightarrow> bool" where
  "isNilCapability AnyNil = True"
| "isNilCapability (AnyOf kind isnil m) =
     (kind \<in> {K_Chan, K_Func, K_Interface, K_Map, K_Pointer, K_Slice} \<and> isnil)"

text \<open>
  The two optional interfaces. A method gets its arguments and the state \<open>'w\<close> of the provider and
  returns its result and the next state; the errors \<open>'e\<close> are those of the provider.
\<close>

record ('w, 'e) AdmissionStorage =
  AdmissionProtocol :: string
  CommitAdmission :: "AdmissionCommit \<Rightarrow> 'w \<Rightarrow> ('e + AdmissionCommitResult) \<times> 'w"
  ReconcileAdmission :: "AdmissionOperationKey \<Rightarrow> string option \<Rightarrow> 'w \<Rightarrow> ('e + AdmissionCommitResult) \<times> 'w"

record ('w, 'e) ReplaySafeProjection =
  ProjectionProtocol :: string
  ApplyEvent :: "StorageScope \<Rightarrow> AdmissionOutboxIntent \<Rightarrow> 'w \<Rightarrow> ('e + string) \<times> 'w"
  Reconcile :: "StorageScope \<Rightarrow> string option \<Rightarrow> 'w \<Rightarrow> ('e + string) \<times> 'w"

definition GetAdmissionStorage :: "('w, 'e) AdmissionStorage any any \<Rightarrow> ('w, 'e) AdmissionStorage option" where
  "GetAdmissionStorage provider =
     (if isNilCapability provider then None
      else case provider of
        AnyOf _ _ (Some admission) \<Rightarrow>
          (if isNilCapability admission then None
           else case admission of
             AnyOf _ _ (Some a) \<Rightarrow> if AdmissionProtocol a \<noteq> AdmissionStorageProtocol then None else Some a
           | _ \<Rightarrow> None)
      | _ \<Rightarrow> None)"

definition GetReplaySafeProjection :: "('w, 'e) ReplaySafeProjection any \<Rightarrow> ('w, 'e) ReplaySafeProjection option" where
  "GetReplaySafeProjection candidate =
     (if isNilCapability candidate then None
      else case candidate of
        AnyOf _ _ (Some p) \<Rightarrow> if ProjectionProtocol p \<noteq> ReplaySafeProjectionProtocol then None else Some p
      | _ \<Rightarrow> None)"

lemma GetAdmissionStorage_Some:
  "GetAdmissionStorage provider = Some a \<longleftrightarrow>
     (\<exists>k n k' n'. provider = AnyOf k n (Some (AnyOf k' n' (Some a))) \<and>
        (n \<longrightarrow> k = K_Other) \<and> (n' \<longrightarrow> k' = K_Other) \<and> AdmissionProtocol a = AdmissionStorageProtocol)"
proof -
  have nilable: "k \<in> {K_Chan, K_Func, K_Interface, K_Map, K_Pointer, K_Slice} \<longleftrightarrow> k \<noteq> K_Other" for k
    by (cases k) auto
  show ?thesis
    by (auto simp: GetAdmissionStorage_def nilable simp del: insert_iff split: any.splits option.splits if_splits)
qed

section \<open>Storage integers\<close>

definition ParseStorageUint64 :: "StorageUint64 \<Rightarrow> admission_error + u64" where
  "ParseStorageUint64 v =
     (if length v = 0 \<or> 20 < length v \<or> 1 < length v \<and> v ! 0 = CHR ''0'' then Inl ErrInvalidStorageUint64
      else if \<not> list_all is_digit v then Inl ErrInvalidStorageUint64
      else case parse_uint 64 v of
        Inl _ \<Rightarrow> Inl ErrInvalidStorageUint64
      | Inr n \<Rightarrow> Inr (word_of_nat n))"

definition ParseStorageOutputIndex :: "StorageUint64 \<Rightarrow> admission_error + u32" where
  "ParseStorageOutputIndex v =
     rbind (ParseStorageUint64 v) (\<lambda>parsed.
       if 0xFFFFFFFF < parsed then Inl ErrInvalidStorageOutputIndex else Inr (ucast parsed))"

lemma ParseStorageUint64_value:
  "ParseStorageUint64 v = Inr w \<longleftrightarrow> v = format_uint (unat w)"
proof
  assume ok: "ParseStorageUint64 v = Inr w"
  then have shape: "canonical_decimal v"
    by (cases v) (auto simp: ParseStorageUint64_def canonical_decimal_def split: if_splits)
  obtain n where n: "parse_uint 64 v = Inr n" "w = word_of_nat n"
    using ok by (auto simp: ParseStorageUint64_def split: if_splits sum.splits)
  then have "n = decimal_value 0 v" "n < 2 ^ 64" by (auto simp: parse_uint_iff)
  then have "unat w = decimal_value 0 v" using n(2) by (simp add: unat_of_nat take_bit_nat_eq_self)
  with format_decimal_value[OF shape] show "v = format_uint (unat w)" by simp
next
  assume v: "v = format_uint (unat w)"
  have small: "unat w < 2 ^ 64" using unsigned_less[of w] by simp
  then have "length v \<le> 20" using v length_format_uint[of "unat w" 20] by simp
  moreover have "parse_uint 64 v = Inr (unat w)" using parse_format_uint[OF small] v by simp
  moreover have "canonical_decimal v" using v canonical_format_uint by simp
  ultimately show "ParseStorageUint64 v = Inr w"
    by (cases v) (auto simp: ParseStorageUint64_def canonical_decimal_def)
qed

lemma ParseStorageUint64_error: "ParseStorageUint64 v = Inl e \<Longrightarrow> e = ErrInvalidStorageUint64"
  by (auto simp: ParseStorageUint64_def split: if_splits sum.splits)

lemma ParseStorageUint64_inject:
  "ParseStorageUint64 v = Inr w \<Longrightarrow> ParseStorageUint64 v' = Inr w' \<Longrightarrow> w = w' \<longleftrightarrow> v = v'"
  by (auto simp: ParseStorageUint64_value word_unat_eq_iff)

lemma index_limit: "0xFFFFFFFF < p \<longleftrightarrow> 2 ^ 32 \<le> unat p" for p :: u64
  by (simp add: word_less_nat_alt) linarith

lemma ParseStorageOutputIndex_value: "ParseStorageOutputIndex v = Inr i \<longleftrightarrow> v = format_uint (unat i)"
proof
  assume "ParseStorageOutputIndex v = Inr i"
  then obtain p :: u64 where p: "ParseStorageUint64 v = Inr p" "unat p < 2 ^ 32" "i = ucast p"
    by (auto simp: ParseStorageOutputIndex_def result_simps index_limit not_le split: if_splits)
  then have "unat i = unat p" by (simp add: unsigned_ucast_eq take_bit_nat_eq_self)
  with p show "v = format_uint (unat i)" by (simp add: ParseStorageUint64_value)
next
  assume v: "v = format_uint (unat i)"
  have small: "unat i < 2 ^ 32" using unsigned_less[of i] by simp
  then have up: "unat (ucast i :: u64) = unat i" by (simp add: unsigned_ucast_eq take_bit_nat_eq_self)
  then have "ParseStorageUint64 v = Inr (ucast i)" using v by (simp add: ParseStorageUint64_value)
  moreover have "ucast (ucast i :: u64) = i" 
    by (rule bit_word_eqI) (simp add: bit_ucast_iff)
  ultimately show "ParseStorageOutputIndex v = Inr i" using small up
    by (simp add: ParseStorageOutputIndex_def index_limit)
qed

lemma ParseStorageOutputIndex_range:
  "ParseStorageOutputIndex v = Inl ErrInvalidStorageOutputIndex \<longleftrightarrow>
     (\<exists>n. v = format_uint n \<and> 2 ^ 32 \<le> n \<and> n < 2 ^ 64)"
proof
  assume "ParseStorageOutputIndex v = Inl ErrInvalidStorageOutputIndex"
  then obtain p where "ParseStorageUint64 v = Inr p" "2 ^ 32 \<le> unat p"
    using ParseStorageUint64_error
    by (fastforce simp: ParseStorageOutputIndex_def rbind_Inl_iff index_limit split: if_splits)
  then show "\<exists>n. v = format_uint n \<and> 2 ^ 32 \<le> n \<and> n < 2 ^ 64"
    using unsigned_less[of p] by (auto simp: ParseStorageUint64_value)
next
  assume "\<exists>n. v = format_uint n \<and> 2 ^ 32 \<le> n \<and> n < 2 ^ 64"
  then obtain n where n: "v = format_uint n" "2 ^ 32 \<le> n" "n < 2 ^ 64" by blast
  have "unat (word_of_nat n :: u64) = n" using n(3) by (simp add: unat_of_nat take_bit_nat_eq_self)
  then show "ParseStorageOutputIndex v = Inl ErrInvalidStorageOutputIndex"
    using n ParseStorageUint64_value[of v "word_of_nat n"] by (simp add: ParseStorageOutputIndex_def index_limit)
qed

text \<open>C30: canonical storage text and 64-bit values correspond one to one: a text is accepted
  exactly when it is the decimal text of a 64-bit value, which is the value returned; it is
  accepted as an output index exactly when that value fits 32 bits, and refused as out of range
  exactly when it is a 64-bit value that does not.\<close>

theorem ParseStorageUint64_iff:
  "(ParseStorageUint64 v = Inr w \<longleftrightarrow> v = format_uint (unat w)) \<and>
   (ParseStorageOutputIndex v = Inr i \<longleftrightarrow> v = format_uint (unat i)) \<and>
   (ParseStorageOutputIndex v = Inl ErrInvalidStorageOutputIndex \<longleftrightarrow>
      (\<exists>n. v = format_uint n \<and> 2 ^ 32 \<le> n \<and> n < 2 ^ 64))"
  by (simp add: ParseStorageUint64_value ParseStorageOutputIndex_value ParseStorageOutputIndex_range)

section \<open>Semantic digest\<close>

definition isLowerHexHash :: "string \<Rightarrow> bool" where
  "isLowerHexHash v \<longleftrightarrow> length v = 64 \<and> list_all is_lower_hex v"

text \<open>The loop over the sorted topics that looks for two equal neighbours.\<close>

fun adjacent_equal :: "'a list \<Rightarrow> bool" where
  "adjacent_equal (x # y # zs) \<longleftrightarrow> x = y \<or> adjacent_equal (y # zs)"
| "adjacent_equal _ \<longleftrightarrow> False"

text \<open>The loop that frames the fields into the hash and stops at the first bad one.\<close>

fun write_fields :: "string list \<Rightarrow> admission_error + byte list" where
  "write_fields [] = Inr []"
| "write_fields (f # fs) =
     (if f = [] \<or> \<not> utf8_valid (bytes_of f) then Inl ErrInvalidAdmissionIdentity
      else rbind (write_fields fs) (\<lambda>bs. Inr (bytes_of (frame f) @ bs)))"

definition identity_fields :: "AdmissionIdentity \<Rightarrow> AdmissionTopic list \<Rightarrow> string list" where
  "identity_fields i topics =
     [AdmissionStorageProtocol, ss_Network (ai_Scope i), ss_GenesisHash (ai_Scope i),
      ss_NodeID (ai_Scope i), ai_TxID i, ai_Mode i, ai_ContextDigest i, format_uint (length topics)] @
     concat (map (\<lambda>t. [at_Topic t, at_PolicyID t]) topics)"

text \<open>
  \<open>sort.Slice\<close> is not stable, but only equal names could come out in another order and those are
  refused, so the stable \<^const>\<open>sort_key\<close> gives every answer the code can give.
\<close>

definition AdmissionSemanticDigest :: "AdmissionIdentity \<Rightarrow> admission_error + string" where
  "AdmissionSemanticDigest i =
     (if \<not> isLowerHexHash (ai_TxID i) \<or> \<not> isLowerHexHash (ss_GenesisHash (ai_Scope i)) \<or>
         \<not> isLowerHexHash (ai_ContextDigest i) then Inl ErrInvalidAdmissionHash
      else if ai_Mode i \<noteq> AdmissionModeLive \<and> ai_Mode i \<noteq> AdmissionModeHistorical
      then Inl ErrInvalidAdmissionMode
      else let topics = sort_key at_Topic (ai_Topics i) in
        if topics = [] then Inl ErrInvalidAdmissionTopics
        else if adjacent_equal (map at_Topic topics) then Inl ErrInvalidAdmissionTopics
        else rbind (write_fields (identity_fields i topics)) (\<lambda>bs. Inr (hex_encode (sha256 bs))))"

text \<open>The bytes the digest is taken of.\<close>

definition identity_bytes :: "AdmissionIdentity \<Rightarrow> byte list" where
  "identity_bytes i = bytes_of (concat (map frame (identity_fields i (sort_key at_Topic (ai_Topics i)))))"

lemma adjacent_equal_sorted: "sorted xs \<Longrightarrow> adjacent_equal xs \<longleftrightarrow> \<not> distinct (xs :: 'a::linorder list)"
  by (induction xs rule: adjacent_equal.induct) force+

lemma write_fields_Inr:
  "write_fields fs = Inr bs \<longleftrightarrow>
     list_all (\<lambda>f. f \<noteq> [] \<and> utf8_valid (bytes_of f)) fs \<and> bs = bytes_of (concat (map frame fs))"
  by (induction fs arbitrary: bs) (auto simp: result_simps)

lemma AdmissionSemanticDigest_Inr:
  assumes "AdmissionSemanticDigest i = Inr d"
  shows "d = hex_encode (sha256 (identity_bytes i))" "distinct (map at_Topic (ai_Topics i))"
proof -
  have "distinct (map at_Topic (sort_key at_Topic (ai_Topics i)))"
    using assms by (auto simp: AdmissionSemanticDigest_def Let_def adjacent_equal_sorted split: if_splits)
  moreover have "mset (map at_Topic (sort_key at_Topic (ai_Topics i))) = mset (map at_Topic (ai_Topics i))"
    by simp
  ultimately show "distinct (map at_Topic (ai_Topics i))" by (metis mset_eq_imp_distinct_iff)
  show "d = hex_encode (sha256 (identity_bytes i))"
    using assms by (auto simp: AdmissionSemanticDigest_def Let_def identity_bytes_def result_simps write_fields_Inr split: if_splits)
qed

lemma topic_pairs_inject:
  "concat (map (\<lambda>t. [at_Topic t, at_PolicyID t]) ts) = concat (map (\<lambda>t. [at_Topic t, at_PolicyID t]) us) \<longleftrightarrow>
     ts = (us :: AdmissionTopic list)"
proof (induction ts arbitrary: us)
  case Nil
  then show ?case by (cases us) auto
next
  case (Cons t ts)
  show ?case
  proof (cases us)
    case (Cons u us')
    with Cons.IH[of us'] show ?thesis by (cases t; cases u) simp
  qed simp
qed

lemma identity_fields_inject:
  "identity_fields i ts = identity_fields j us \<longleftrightarrow> ts = us \<and> j = i\<lparr>ai_Topics := ai_Topics j\<rparr>"
proof -
  obtain net gen node txid mode digest ti where i: "i = \<lparr>ai_Scope = \<lparr>ss_Network = net, ss_GenesisHash = gen, ss_NodeID = node\<rparr>,
      ai_TxID = txid, ai_Mode = mode, ai_ContextDigest = digest, ai_Topics = ti\<rparr>"
    by (metis AdmissionIdentity.cases StorageScope.cases)
  obtain net' gen' node' txid' mode' digest' tj where j: "j = \<lparr>ai_Scope = \<lparr>ss_Network = net', ss_GenesisHash = gen', ss_NodeID = node'\<rparr>,
      ai_TxID = txid', ai_Mode = mode', ai_ContextDigest = digest', ai_Topics = tj\<rparr>"
    by (metis AdmissionIdentity.cases StorageScope.cases)
  show ?thesis unfolding i j using topic_pairs_inject[of ts us] by (auto simp: identity_fields_def)
qed

lemma AdmissionSemanticDigest_topics:
  assumes "mset ts = mset (ai_Topics i)"
  shows "AdmissionSemanticDigest (i\<lparr>ai_Topics := ts\<rparr>) = AdmissionSemanticDigest i"
proof (cases "distinct (map at_Topic (ai_Topics i))")
  case True
  have "inj_on at_Topic (set ts)" using True assms by (metis distinct_map mset_eq_setD)
  then have "sort_key at_Topic ts = sort_key at_Topic (ai_Topics i)"
    using assms by (intro sort_key_inj_key_eq) auto
  then show ?thesis by (simp add: AdmissionSemanticDigest_def Let_def identity_fields_def)
next
  case False
  have *: "adjacent_equal (map at_Topic (sort_key at_Topic us)) \<longleftrightarrow> \<not> distinct (map at_Topic us)" for us :: "AdmissionTopic list"
    by (simp add: adjacent_equal_sorted) (metis mset_eq_imp_distinct_iff mset_map mset_sort)
  have "\<not> distinct (map at_Topic ts)" using False assms by (metis mset_eq_imp_distinct_iff mset_map)
  with False * show ?thesis by (auto simp: AdmissionSemanticDigest_def Let_def)
qed

section \<open>Recovery leases and the GASP cursor\<close>

definition IsRecoveryLeaseCurrent :: "RecoveryLease \<Rightarrow> RecoveryLease \<Rightarrow> StorageUint64 \<Rightarrow> admission_error + bool" where
  "IsRecoveryLeaseCurrent expected current nowMS =
     (if rl_Scope expected \<noteq> rl_Scope current \<or> rl_Topic expected \<noteq> rl_Topic current \<or>
         rl_PeerID expected \<noteq> rl_PeerID current \<or> rl_JobID expected \<noteq> rl_JobID current then Inr False
      else
        rbind (ParseStorageUint64 (hf_ChainEpoch (rl_HistoryFence expected))) (\<lambda>expectedChainEpoch.
        rbind (ParseStorageUint64 (hf_ChainEpoch (rl_HistoryFence current))) (\<lambda>currentChainEpoch.
        rbind (ParseStorageUint64 (hf_TopicHistoryGeneration (rl_HistoryFence expected))) (\<lambda>expectedGeneration.
        rbind (ParseStorageUint64 (hf_TopicHistoryGeneration (rl_HistoryFence current))) (\<lambda>currentGeneration.
        rbind (ParseStorageUint64 (rl_LeaseToken expected)) (\<lambda>expectedToken.
        rbind (ParseStorageUint64 (rl_LeaseToken current)) (\<lambda>currentToken.
        rbind (ParseStorageUint64 (rl_ExpiresAtMS current)) (\<lambda>expiresAt.
        rbind (ParseStorageUint64 nowMS) (\<lambda>now.
          Inr (expectedChainEpoch = currentChainEpoch \<and> expectedGeneration = currentGeneration \<and>
               expectedToken = currentToken \<and> now < expiresAt))))))))))"

datatype GASPCursorMode =
  GASPCursorModeNegotiatedTuple | GASPCursorModeInclusiveSince | GASPCursorModeFullResync
| GASPCursorModeUnsupported | OtherCursorMode string

record GASPCursorEvidence =
  ce_Mode :: GASPCursorMode
  ce_Negotiated :: bool
  ce_InclusiveSemanticsProven :: bool
  ce_EqualScoreDrained :: bool
  ce_NoSkipSemanticsProven :: bool
  ce_ResyncCompleted :: bool
  ce_PageFinalized :: bool

definition CanAdvanceGASPCursor :: "GASPCursorEvidence \<Rightarrow> bool" where
  "CanAdvanceGASPCursor ev =
     (if \<not> ce_PageFinalized ev then False
      else case ce_Mode ev of
        GASPCursorModeNegotiatedTuple \<Rightarrow> ce_Negotiated ev
      | GASPCursorModeInclusiveSince \<Rightarrow> ce_InclusiveSemanticsProven ev \<and> ce_EqualScoreDrained ev
      | GASPCursorModeFullResync \<Rightarrow> ce_NoSkipSemanticsProven ev \<and> ce_ResyncCompleted ev
      | GASPCursorModeUnsupported \<Rightarrow> False
      | OtherCursorMode _ \<Rightarrow> False)"

text \<open>Text of a 64-bit value.\<close>

definition storage_uint64 :: "StorageUint64 \<Rightarrow> bool" where
  "storage_uint64 v \<longleftrightarrow> (\<exists>n < 2 ^ 64. v = format_uint n)"

lemma ParseStorageUint64_ok: "(\<exists>w. ParseStorageUint64 v = Inr w) \<longleftrightarrow> storage_uint64 v"
proof
  assume "storage_uint64 v"
  then obtain n where "n < 2 ^ 64" "v = format_uint n" by (auto simp: storage_uint64_def)
  then have "ParseStorageUint64 v = Inr (word_of_nat n)"
    by (simp add: ParseStorageUint64_value unat_of_nat take_bit_nat_eq_self)
  then show "\<exists>w. ParseStorageUint64 v = Inr w" ..
next
  assume "\<exists>w. ParseStorageUint64 v = Inr w"
  then obtain w :: u64 where "v = format_uint (unat w)" by (auto simp: ParseStorageUint64_value)
  then show "storage_uint64 v" using unsigned_less[of w] unfolding storage_uint64_def by auto
qed

lemma u64_text: "(\<exists>n < 2 ^ 64. P n) \<longleftrightarrow> (\<exists>w :: u64. P (unat w))"
proof
  assume "\<exists>n < 2 ^ 64. P n"
  then obtain n where "n < 2 ^ 64" "P n" by blast
  then have "P (unat (word_of_nat n :: u64))" by (simp add: unat_of_nat take_bit_nat_eq_self)
  then show "\<exists>w :: u64. P (unat w)" ..
next
  assume "\<exists>w :: u64. P (unat w)"
  then obtain w :: u64 where "P (unat w)" ..
  then show "\<exists>n < 2 ^ 64. P n" using unsigned_less[of w] by auto
qed

lemma unat_same: "unat v = unat w \<longleftrightarrow> v = w" for v w :: u64
  by (rule word_unat_eq_iff[symmetric])

lemma lease_times:
  "(\<exists>t x. now = format_uint t \<and> e = format_uint x \<and> t < x \<and> x < 2 ^ 64) \<longleftrightarrow>
     (\<exists>x t :: u64. e = format_uint (unat x) \<and> now = format_uint (unat t) \<and> t < x)"
proof -
  have "(\<exists>t x. now = format_uint t \<and> e = format_uint x \<and> t < x \<and> x < 2 ^ 64) \<longleftrightarrow>
      (\<exists>x < 2 ^ 64. \<exists>t < 2 ^ 64. e = format_uint x \<and> now = format_uint t \<and> t < x)"
    by (metis less_trans)
  then show ?thesis by (simp only: u64_text word_less_nat_alt)
qed

lemma parse_bind_Inr:
  "rbind (ParseStorageUint64 v) f = Inr y \<longleftrightarrow> (\<exists>w. v = format_uint (unat w) \<and> f w = Inr y)"
  by (simp add: result_simps ParseStorageUint64_value)

lemma parse_bind_Inl:
  "rbind (ParseStorageUint64 v) f = Inl e \<longleftrightarrow>
     \<not> storage_uint64 v \<and> e = ErrInvalidStorageUint64 \<or> (\<exists>w. ParseStorageUint64 v = Inr w \<and> f w = Inl e)"
  using ParseStorageUint64_ok[of v] ParseStorageUint64_error[of v]
  by (cases "ParseStorageUint64 v") auto

lemma storage_uint64_unat [simp]: "storage_uint64 (format_uint (unat (w :: u64)))"
  using ParseStorageUint64_ok ParseStorageUint64_value by blast

text \<open>C28: the semantic digest identifies an admission: it does not depend on the order of the
  topics, and two identities that get one digest are the same identity up to the order of their
  topics, or the framed bytes hashed for them are a SHA-256 collision.\<close>

theorem AdmissionSemanticDigest_identifies:
  assumes "AdmissionSemanticDigest i = Inr d"
  shows "(mset ts = mset (ai_Topics i) \<longrightarrow> AdmissionSemanticDigest (i\<lparr>ai_Topics := ts\<rparr>) = Inr d) \<and>
    (AdmissionSemanticDigest j = Inr d \<longrightarrow>
       j = i\<lparr>ai_Topics := ai_Topics j\<rparr> \<and> mset (ai_Topics j) = mset (ai_Topics i) \<or>
       collision sha256 (identity_bytes i) (identity_bytes j))"
proof (intro conjI impI)
  show "AdmissionSemanticDigest (i\<lparr>ai_Topics := ts\<rparr>) = Inr d" if "mset ts = mset (ai_Topics i)"
    using AdmissionSemanticDigest_topics[OF that] assms by simp
next
  assume j: "AdmissionSemanticDigest j = Inr d"
  have "sha256 (identity_bytes i) = sha256 (identity_bytes j)"
    using AdmissionSemanticDigest_Inr(1)[OF assms] AdmissionSemanticDigest_Inr(1)[OF j] by simp
  then consider "identity_bytes i = identity_bytes j" | "collision sha256 (identity_bytes i) (identity_bytes j)"
    using collisionI by blast
  then show "j = i\<lparr>ai_Topics := ai_Topics j\<rparr> \<and> mset (ai_Topics j) = mset (ai_Topics i) \<or>
      collision sha256 (identity_bytes i) (identity_bytes j)"
  proof cases
    case 1
    then have "sort_key at_Topic (ai_Topics i) = sort_key at_Topic (ai_Topics j)" "j = i\<lparr>ai_Topics := ai_Topics j\<rparr>"
      by (auto simp: identity_bytes_def frames_inject identity_fields_inject)
    then show ?thesis by (metis mset_sort)
  qed simp
qed

definition demo_hex :: string where
  "demo_hex = replicate 64 CHR ''a''"

definition demo_identity :: "AdmissionTopic list \<Rightarrow> AdmissionIdentity" where
  "demo_identity ts =
     \<lparr>ai_Scope = \<lparr>ss_Network = ''main'', ss_GenesisHash = demo_hex, ss_NodeID = ''n''\<rparr>, ai_TxID = demo_hex,
      ai_Mode = AdmissionModeLive, ai_ContextDigest = demo_hex, ai_Topics = ts\<rparr>"

definition demo_topics :: "AdmissionTopic list" where
  "demo_topics = [\<lparr>at_Topic = ''tm_b'', at_PolicyID = ''p''\<rparr>, \<lparr>at_Topic = ''tm_a'', at_PolicyID = ''q''\<rparr>]"

lemma demo_identity_ok:
  "AdmissionSemanticDigest (demo_identity demo_topics) = Inr (hex_encode (sha256 (identity_bytes (demo_identity demo_topics))))"
proof -
  let ?i = "demo_identity demo_topics"
  let ?ts = "sort_key at_Topic (ai_Topics ?i)"
  have fields: "list_all (\<lambda>f. f \<noteq> [] \<and> utf8_valid (bytes_of f)) (identity_fields ?i ?ts)" by code_simp
  have guards: "isLowerHexHash demo_hex" "?ts \<noteq> []" "\<not> adjacent_equal (map at_Topic ?ts)" by code_simp+
  have parts: "ai_TxID ?i = demo_hex" "ss_GenesisHash (ai_Scope ?i) = demo_hex" "ai_ContextDigest ?i = demo_hex"
    "ai_Mode ?i = AdmissionModeLive" by (simp_all add: demo_identity_def)
  have "write_fields (identity_fields ?i ?ts) = Inr (identity_bytes ?i)"
    using fields by (simp add: write_fields_Inr identity_bytes_def)
  with guards parts show ?thesis by (simp add: AdmissionSemanticDigest_def Let_def)
qed

theorem AdmissionSemanticDigest_identifies_witness:
  "AdmissionSemanticDigest (demo_identity (rev demo_topics)) =
     Inr (hex_encode (sha256 (identity_bytes (demo_identity demo_topics)))) \<and>
   (demo_identity demo_topics = (demo_identity demo_topics)\<lparr>ai_Topics := demo_topics\<rparr> \<or>
    collision sha256 (identity_bytes (demo_identity demo_topics)) (identity_bytes (demo_identity demo_topics)))"
  using AdmissionSemanticDigest_identifies[OF demo_identity_ok, of "rev demo_topics" "demo_identity demo_topics"] demo_identity_ok
  by (simp add: demo_identity_def)

text \<open>A lease counts as current exactly when the two leases agree in everything but the
  expiry the caller remembered, all fencing values and the two times are canonical 64-bit texts,
  and the stored expiry lies strictly after the given time. Leases of another scope, topic, peer
  or job are not current whatever their fencing texts are; for all others a malformed text is
  reported as an error and never as current or stale.\<close>

theorem IsRecoveryLeaseCurrent_iff:
  "(IsRecoveryLeaseCurrent expected current now = Inr True \<longleftrightarrow>
     current = expected\<lparr>rl_ExpiresAtMS := rl_ExpiresAtMS current\<rparr> \<and>
     storage_uint64 (hf_ChainEpoch (rl_HistoryFence current)) \<and>
     storage_uint64 (hf_TopicHistoryGeneration (rl_HistoryFence current)) \<and>
     storage_uint64 (rl_LeaseToken current) \<and>
     (\<exists>t x. now = format_uint t \<and> rl_ExpiresAtMS current = format_uint x \<and> t < x \<and> x < 2 ^ 64)) \<and>
   (IsRecoveryLeaseCurrent expected current now = Inl e \<longleftrightarrow>
     e = ErrInvalidStorageUint64 \<and>
     rl_Scope expected = rl_Scope current \<and> rl_Topic expected = rl_Topic current \<and>
     rl_PeerID expected = rl_PeerID current \<and> rl_JobID expected = rl_JobID current \<and>
     (\<exists>v \<in> {hf_ChainEpoch (rl_HistoryFence expected), hf_ChainEpoch (rl_HistoryFence current),
            hf_TopicHistoryGeneration (rl_HistoryFence expected), hf_TopicHistoryGeneration (rl_HistoryFence current),
            rl_LeaseToken expected, rl_LeaseToken current, rl_ExpiresAtMS current, now}. \<not> storage_uint64 v))"
proof (intro conjI)
  have same: "current = expected\<lparr>rl_ExpiresAtMS := rl_ExpiresAtMS current\<rparr> \<longleftrightarrow>
      rl_Scope expected = rl_Scope current \<and> rl_Topic expected = rl_Topic current \<and>
      rl_PeerID expected = rl_PeerID current \<and> rl_JobID expected = rl_JobID current \<and>
      hf_ChainEpoch (rl_HistoryFence expected) = hf_ChainEpoch (rl_HistoryFence current) \<and>
      hf_TopicHistoryGeneration (rl_HistoryFence expected) = hf_TopicHistoryGeneration (rl_HistoryFence current) \<and>
      rl_LeaseToken expected = rl_LeaseToken current"
    by (cases expected; cases current) (auto intro: HistoryFence.equality)
  show "IsRecoveryLeaseCurrent expected current now = Inr True \<longleftrightarrow>
     current = expected\<lparr>rl_ExpiresAtMS := rl_ExpiresAtMS current\<rparr> \<and>
     storage_uint64 (hf_ChainEpoch (rl_HistoryFence current)) \<and>
     storage_uint64 (hf_TopicHistoryGeneration (rl_HistoryFence current)) \<and>
     storage_uint64 (rl_LeaseToken current) \<and>
     (\<exists>t x. now = format_uint t \<and> rl_ExpiresAtMS current = format_uint x \<and> t < x \<and> x < 2 ^ 64)"
    unfolding same lease_times storage_uint64_def u64_text by 
    (auto simp: IsRecoveryLeaseCurrent_def parse_bind_Inr unat_same split: if_splits)
  show "IsRecoveryLeaseCurrent expected current now = Inl e \<longleftrightarrow>
     e = ErrInvalidStorageUint64 \<and>
     rl_Scope expected = rl_Scope current \<and> rl_Topic expected = rl_Topic current \<and>
     rl_PeerID expected = rl_PeerID current \<and> rl_JobID expected = rl_JobID current \<and>
     (\<exists>v \<in> {hf_ChainEpoch (rl_HistoryFence expected), hf_ChainEpoch (rl_HistoryFence current),
            hf_TopicHistoryGeneration (rl_HistoryFence expected), hf_TopicHistoryGeneration (rl_HistoryFence current),
            rl_LeaseToken expected, rl_LeaseToken current, rl_ExpiresAtMS current, now}. \<not> storage_uint64 v)"
    by (auto simp: IsRecoveryLeaseCurrent_def parse_bind_Inl ParseStorageUint64_ok)
qed

end
