(* ===== verification/Effects.thy ===== *)
theory Effects
  imports Prelude "HOL-Library.Multiset" "HOL-Library.AList"
begin

text \<open>
  Stateful calls of the engine and the synchroniser. Everything outside the modelled code, such as
  storage, topic managers, lookup services and the network, is one opaque state \<open>'w\<close> that the calls
  of the parameters transform. Every call that can change the outside is recorded in a log at the
  moment it is made, whether it succeeds or not; the log has no influence on the run and only
  serves to state which effects happen, in which order, and which cannot happen.
\<close>

section \<open>The monad\<close>

type_synonym ('w, 'e, 'a) outside = "'w \<Rightarrow> ('e + 'a) \<times> 'w"
type_synonym ('w, 'f, 'e, 'a) em = "'w \<times> 'f list \<Rightarrow> ('e + 'a) \<times> ('w \<times> 'f list)"

named_theorems emits_intros \<open>effects of the composite calls\<close>

definition eret :: "'a \<Rightarrow> ('w, 'f, 'e, 'a) em" where
  "eret x = (\<lambda>s. (Inr x, s))"

definition efail :: "'e \<Rightarrow> ('w, 'f, 'e, 'a) em" where
  "efail e = (\<lambda>s. (Inl e, s))"

definition elift :: "'e + 'a \<Rightarrow> ('w, 'f, 'e, 'a) em" where
  "elift r = (\<lambda>s. (r, s))"

definition ebind :: "('w, 'f, 'e, 'a) em \<Rightarrow> ('a \<Rightarrow> ('w, 'f, 'e, 'b) em) \<Rightarrow> ('w, 'f, 'e, 'b) em" where
  "ebind m f = (\<lambda>s. case m s of (Inl e, s') \<Rightarrow> (Inl e, s') | (Inr x, s') \<Rightarrow> f x s')"

text \<open>A call that only reads, and a call with an effect.\<close>

definition eread :: "('w, 'e, 'a) outside \<Rightarrow> ('w, 'f, 'e, 'a) em" where
  "eread c = (\<lambda>(w, log). case c w of (r, w') \<Rightarrow> (r, (w', log)))"

definition ecall :: "'f \<Rightarrow> ('w, 'e, 'a) outside \<Rightarrow> ('w, 'f, 'e, 'a) em" where
  "ecall f c = (\<lambda>(w, log). case c w of (r, w') \<Rightarrow> (r, (w', log @ [f])))"

text \<open>A call whose error is logged and dropped by the code.\<close>

definition eignore :: "('w, 'f, 'e, 'a) em \<Rightarrow> ('w, 'f, 'e, unit) em" where
  "eignore m = (\<lambda>s. (Inr (), snd (m s)))"

definition etry :: "('w, 'f, 'e, 'a) em \<Rightarrow> ('w, 'f, 'e, 'e + 'a) em" where
  "etry m = (\<lambda>s. (Inr (fst (m s)), snd (m s)))"

text \<open>A loop with a local state that leaves at the first error.\<close>

fun efold :: "('x \<Rightarrow> 'a \<Rightarrow> ('w, 'f, 'e, 'a) em) \<Rightarrow> 'x list \<Rightarrow> 'a \<Rightarrow> ('w, 'f, 'e, 'a) em" where
  "efold body [] a = eret a"
| "efold body (x # xs) a = ebind (body x a) (\<lambda>a'. efold body xs a')"

abbreviation eforeach :: "('x \<Rightarrow> ('w, 'f, 'e, unit) em) \<Rightarrow> 'x list \<Rightarrow> ('w, 'f, 'e, unit) em" where
  "eforeach body xs \<equiv> efold (\<lambda>x _. body x) xs ()"

lemma ebind_eret [simp]: "ebind (eret x) f = f x"
  by (simp add: ebind_def eret_def fun_eq_iff)

lemma ebind_efail [simp]: "ebind (efail e) f = efail e"
  by (simp add: ebind_def efail_def fun_eq_iff)

lemma ebind_assoc: "ebind (ebind m f) g = ebind m (\<lambda>x. ebind (f x) g)"
  by (auto simp: ebind_def fun_eq_iff split: prod.splits sum.splits)

lemma ebind_cong [fundef_cong]:
  "m = m' \<Longrightarrow> (\<And>x. f x = f' x) \<Longrightarrow> ebind m f = ebind m' f'"
  by (simp add: fun_eq_iff ebind_def split: prod.splits sum.splits)

lemma ebind_Inr:
  "ebind m f s = (Inr y, t) \<longleftrightarrow> (\<exists>x s'. m s = (Inr x, s') \<and> f x s' = (Inr y, t))"
  by (auto simp: ebind_def split: prod.splits sum.splits)

lemma ebind_InrE:
  assumes "ebind m f s = (Inr y, t)"
  obtains x s' where "m s = (Inr x, s')" "f x s' = (Inr y, t)"
  using assms by (auto simp: ebind_Inr)

lemma ebind_Inl:
  "ebind m f s = (Inl e, t) \<longleftrightarrow> m s = (Inl e, t) \<or> (\<exists>x s'. m s = (Inr x, s') \<and> f x s' = (Inl e, t))"
  by (auto simp: ebind_def split: prod.splits sum.splits)

lemma eret_Inr [simp]: "eret x s = (Inr y, t) \<longleftrightarrow> y = x \<and> t = s"
  by (auto simp: eret_def)

lemma efail_Inr [simp]: "efail e s \<noteq> (Inr y, t)"
  by (auto simp: efail_def)

lemma elift_Inr [simp]: "elift r s = (Inr y, t) \<longleftrightarrow> r = Inr y \<and> t = s"
  by (auto simp: elift_def)

lemma efold_append: "efold body (xs @ ys) a = ebind (efold body xs a) (efold body ys)"
  by (induction xs arbitrary: a) (auto simp: ebind_assoc intro: ebind_cong)

section \<open>Iteration over Go maps\<close>

text \<open>
  A Go map is an association list with one entry per key. Each range over it visits the entries
  in an order the runtime picks: the seed comes from the outside, and every permutation is
  the answer for some seed.
\<close>

fun permute :: "nat list \<Rightarrow> 'a list \<Rightarrow> 'a list" where
  "permute _ [] = []"
| "permute [] xs = xs"
| "permute (n # ns) (x # xs) =
     (let ys = x # xs; i = n mod length ys in ys ! i # permute ns (take i ys @ drop (Suc i) ys))"

definition erange :: "('w \<Rightarrow> nat list \<times> 'w) \<Rightarrow> 'a list \<Rightarrow> ('w, 'f, 'e, 'a list) em" where
  "erange seed xs = eread (\<lambda>w. case seed w of (s, w') \<Rightarrow> (Inr (permute s xs), w'))"

lemma mset_permute [simp]: "mset (permute s xs) = mset xs"
proof (induction s xs rule: permute.induct)
  case (3 n ns x xs)
  let ?ys = "x # xs"
  let ?i = "n mod length ?ys"
  have i: "?i < length ?ys" by simp
  have "mset (permute (n # ns) ?ys) = add_mset (?ys ! ?i) (mset (take ?i ?ys @ drop (Suc ?i) ?ys))"
    using "3.IH"[OF refl refl] by (simp add: Let_def del: mset_append)
  also have "\<dots> = mset (take ?i ?ys @ ?ys ! ?i # drop (Suc ?i) ?ys)" by simp
  also have "\<dots> = mset ?ys" using id_take_nth_drop[OF i] by metis
  finally show ?case .
qed auto

lemma set_permute [simp]: "set (permute s xs) = set xs"
  by (metis mset_permute set_mset_mset)

lemma length_permute [simp]: "length (permute s xs) = length xs"
  by (metis mset_permute size_mset)

lemma permute_complete: "mset ys = mset xs \<Longrightarrow> \<exists>s. permute s xs = ys"
proof (induction ys arbitrary: xs)
  case Nil
  then show ?case by auto
next
  case (Cons y ys)
  then have "y \<in> set xs" by (metis list.set_intros(1) mset_eq_setD)
  then obtain i where i: "i < length xs" "xs ! i = y" by (auto simp: in_set_conv_nth)
  let ?r = "take i xs @ drop (Suc i) xs"
  have "mset xs = add_mset y (mset ?r)" using id_take_nth_drop[OF i(1)] i(2) by (metis mset_append mset.simps(2) union_mset_add_mset_right)
  with Cons.prems have "mset ys = mset ?r" by simp
  then obtain s where "permute s ?r = ys" using Cons.IH by blast
  moreover have "permute (i # s) xs = xs ! i # permute s ?r" using i by (cases xs) auto
  ultimately show ?case using i by auto
qed

lemma erange_Inr: "erange seed xs s = (r, t) \<Longrightarrow> \<exists>ys. r = Inr ys \<and> mset ys = mset xs \<and> snd t = snd s"
  by (auto simp: erange_def eread_def split: prod.splits)

section \<open>Effects of a call\<close>

text \<open>Every effect a call adds to the log satisfies \<open>P\<close>.\<close>

definition emits :: "('f \<Rightarrow> bool) \<Rightarrow> ('w, 'f, 'e, 'a) em \<Rightarrow> bool" where
  "emits P m \<longleftrightarrow> (\<forall>s. \<exists>l. snd (snd (m s)) = snd s @ l \<and> list_all P l)"

lemma emitsD: "emits P m \<Longrightarrow> m s = (r, t) \<Longrightarrow> \<exists>l. snd t = snd s @ l \<and> list_all P l"
  unfolding emits_def by (metis snd_conv)

lemma emits_mono: "emits P m \<Longrightarrow> (\<And>f. P f \<Longrightarrow> Q f) \<Longrightarrow> emits Q m"
  unfolding emits_def by (metis list.pred_mono_strong)

lemma emits_eret [emits_intros]: "emits P (eret x)"
  by (simp add: emits_def eret_def)

lemma emits_efail [emits_intros]: "emits P (efail e)"
  by (simp add: emits_def efail_def)

lemma emits_elift [emits_intros]: "emits P (elift r)"
  by (simp add: emits_def elift_def)

lemma emits_eread [emits_intros]: "emits P (eread c)"
  by (auto simp: emits_def eread_def split: prod.splits)

lemma emits_ecall [emits_intros]: "P f \<Longrightarrow> emits P (ecall f c)"
  by (auto simp: emits_def ecall_def split: prod.splits)

lemma emits_erange [emits_intros]: "emits P (erange seed xs)"
  unfolding erange_def by (rule emits_eread)

lemma emits_ebind [emits_intros]:
  assumes m: "emits P m" and f: "\<And>x. emits P (f x)"
  shows "emits P (ebind m f)"
  unfolding emits_def
proof
  fix s
  obtain r t where ms: "m s = (r, t)" by (cases "m s")
  then obtain l where l: "snd t = snd s @ l" "list_all P l" using emitsD[OF m] by blast
  show "\<exists>l. snd (snd (ebind m f s)) = snd s @ l \<and> list_all P l"
  proof (cases r)
    case (Inl e)
    with ms l show ?thesis by (auto simp: ebind_def)
  next
    case (Inr x)
    obtain r' u where fx: "f x t = (r', u)" by (cases "f x t")
    then obtain l' where "snd u = snd t @ l'" "list_all P l'" using emitsD[OF f] by blast
    with ms l Inr fx show ?thesis by (auto simp: ebind_def intro!: exI[of _ "l @ l'"])
  qed
qed

lemma emits_eignore [emits_intros]: "emits P m \<Longrightarrow> emits P (eignore m)"
  by (auto simp: emits_def eignore_def)

lemma emits_etry [emits_intros]: "emits P m \<Longrightarrow> emits P (etry m)"
  by (auto simp: emits_def etry_def)

lemma emits_efold [emits_intros]: "(\<And>x a. emits P (body x a)) \<Longrightarrow> emits P (efold body xs a)"
  by (induction xs arbitrary: a) (auto intro: emits_intros)

lemma emits_if [emits_intros]:
  "(b \<Longrightarrow> emits P m) \<Longrightarrow> (\<not> b \<Longrightarrow> emits P n) \<Longrightarrow> emits P (if b then m else n)"
  by simp

lemma emits_case_option [emits_intros]:
  "(x = None \<Longrightarrow> emits P m) \<Longrightarrow> (\<And>y. x = Some y \<Longrightarrow> emits P (f y)) \<Longrightarrow>
     emits P (case x of None \<Rightarrow> m | Some y \<Rightarrow> f y)"
  by (cases x) auto

lemma emits_case_sum [emits_intros]:
  "(\<And>y. emits P (f y)) \<Longrightarrow> (\<And>y. emits P (g y)) \<Longrightarrow> emits P (case x of Inl y \<Rightarrow> f y | Inr y \<Rightarrow> g y)"
  by (cases x) auto

lemma emits_case_prod [emits_intros]:
  "(\<And>y z. x = (y, z) \<Longrightarrow> emits P (f y z)) \<Longrightarrow> emits P (case x of (y, z) \<Rightarrow> f y z)"
  by (cases x) auto

lemma emits_Let [emits_intros]: "(\<And>y. y = x \<Longrightarrow> emits P (f y)) \<Longrightarrow> emits P (let y = x in f y)"
  by simp

section \<open>Invariants of loops\<close>

lemma efold_invariant:
  assumes "efold body xs a s = (Inr a', t)" "I a s"
    and "\<And>x a s a' t. x \<in> set xs \<Longrightarrow> I a s \<Longrightarrow> body x a s = (Inr a', t) \<Longrightarrow> I a' t"
  shows "I a' t"
  using assms
proof (induction xs arbitrary: a s)
  case Nil
  then show ?case by simp
next
  case (Cons x xs)
  then obtain b u where b: "body x a s = (Inr b, u)" "efold body xs b u = (Inr a', t)"
    by (auto simp: ebind_Inr)
  have "I b u" using Cons.prems(2,3) b(1) by (meson list.set_intros(1))
  with b(2) Cons.IH Cons.prems(3) show ?case by (meson list.set_intros(2))
qed

lemma efold_log:
  assumes "efold body xs a s = (Inr a', t)"
    and "\<And>x a s a' t. x \<in> set xs \<Longrightarrow> body x a s = (Inr a', t) \<Longrightarrow> snd t = snd s @ g x"
  shows "snd t = snd s @ concat (map g xs)"
  using assms
proof (induction xs arbitrary: a s)
  case Nil
  then show ?case by simp
next
  case (Cons x xs)
  then obtain b u where b: "body x a s = (Inr b, u)" "efold body xs b u = (Inr a', t)"
    by (auto simp: ebind_Inr)
  have "snd u = snd s @ g x" using Cons.prems(2) b(1) by (meson list.set_intros(1))
  moreover have "snd t = snd u @ concat (map g xs)" using Cons.IH[OF b(2)] Cons.prems(2) by (meson list.set_intros(2))
  ultimately show ?case by simp
qed

lemma eread_Inr: "eread c s = (r, t) \<longleftrightarrow> c (fst s) = (r, fst t) \<and> snd t = snd s"
  by (cases s; cases t) (auto simp: eread_def split: prod.splits)

lemma ecall_Inr: "ecall f c s = (r, t) \<longleftrightarrow> c (fst s) = (r, fst t) \<and> snd t = snd s @ [f]"
  by (cases s; cases t) (auto simp: ecall_def split: prod.splits)

lemma efold_established:
  assumes "efold body xs a s = (Inr a', t)" "x \<in> set xs"
    and "\<And>x a s a' t. x \<in> set xs \<Longrightarrow> body x a s = (Inr a', t) \<Longrightarrow> Q x a'"
    and "\<And>x y a s a' t. Q y a \<Longrightarrow> body x a s = (Inr a', t) \<Longrightarrow> Q y a'"
  shows "Q x a'"
  using assms(1-3)
proof (induction xs arbitrary: a s)
  case Nil
  then show ?case by simp
next
  case (Cons z xs)
  then obtain b u where b: "body z a s = (Inr b, u)" "efold body xs b u = (Inr a', t)"
    by (auto simp: ebind_Inr)
  show ?case
  proof (cases "x \<in> set xs")
    case True
    with Cons.IH[OF b(2)] Cons.prems(3) show ?thesis by (meson list.set_intros(2))
  next
    case False
    with Cons.prems(2) have "x = z" by simp
    then have "Q x b" using Cons.prems(3) b(1) by (meson list.set_intros(1))
    with b(2) show ?thesis
      by (rule efold_invariant[where I = "\<lambda>a _. Q x a"]) (use assms(4) in blast)
  qed
qed

text \<open>Two phases: the second starts only when the first succeeds.\<close>

lemma ebind_phases:
  assumes "ebind m f s = (r, t)" "emits P m" "\<And>x. emits Q (f x)"
  shows "\<exists>a b. snd t = snd s @ a @ b \<and> list_all P a \<and> list_all Q b \<and>
    (b \<noteq> [] \<or> (\<exists>y. r = Inr y) \<longrightarrow> (\<exists>x s'. m s = (Inr x, s')))"
proof -
  obtain r1 s1 where m: "m s = (r1, s1)" by (rule prod.exhaust)
  then obtain a where a: "snd s1 = snd s @ a" "list_all P a" using emitsD[OF assms(2)] by blast
  show ?thesis
  proof (cases r1)
    case (Inl e)
    with assms(1) m have "t = s1" "r = Inl e" by (auto simp: ebind_def)
    with a show ?thesis by (intro exI[of _ a] exI[of _ "[]"]) auto
  next
    case (Inr x)
    with assms(1) m have "f x s1 = (r, t)" by (auto simp: ebind_def)
    then obtain b where "snd t = snd s1 @ b" "list_all Q b" using emitsD[OF assms(3)] by blast
    with a m Inr show ?thesis by (intro exI[of _ a] exI[of _ b]) auto
  qed
qed

lemma emits_nothing: "emits (\<lambda>_. False) m \<Longrightarrow> m s = (r, t) \<Longrightarrow> snd t = snd s"
  using emitsD[of "\<lambda>_. False" m s r t] by (auto simp: list_all_iff)

section \<open>Errors that cannot occur\<close>

named_theorems avoids_intros \<open>calls that never return a given error\<close>

definition avoids :: "'e \<Rightarrow> ('w, 'f, 'e, 'a) em \<Rightarrow> bool" where
  "avoids e m \<longleftrightarrow> (\<forall>s. fst (m s) \<noteq> Inl e)"

definition outside_avoids :: "'e \<Rightarrow> ('w, 'e, 'a) outside \<Rightarrow> bool" where
  "outside_avoids e c \<longleftrightarrow> (\<forall>w. fst (c w) \<noteq> Inl e)"

lemma avoids_eret [avoids_intros]: "avoids e (eret x)"
  by (simp add: avoids_def eret_def)

lemma avoids_efail [avoids_intros]: "e' \<noteq> e \<Longrightarrow> avoids e (efail e')"
  by (simp add: avoids_def efail_def)

lemma avoids_eread [avoids_intros]: "outside_avoids e c \<Longrightarrow> avoids e (eread c)"
  by (auto simp: avoids_def outside_avoids_def eread_def split: prod.splits) (metis fst_conv)

lemma avoids_ecall [avoids_intros]: "outside_avoids e c \<Longrightarrow> avoids e (ecall f c)"
  by (auto simp: avoids_def outside_avoids_def ecall_def split: prod.splits) (metis fst_conv)

lemma avoids_erange [avoids_intros]: "avoids e (erange seed xs)"
  by (auto simp: avoids_def erange_def eread_def split: prod.splits)

lemma avoids_ebind [avoids_intros]:
  assumes "avoids e m" "\<And>s x s'. m s = (Inr x, s') \<Longrightarrow> avoids e (f x)"
  shows "avoids e (ebind m f)"
  unfolding avoids_def
proof
  fix s
  obtain r t where m: "m s = (r, t)" by (rule prod.exhaust)
  show "fst (ebind m f s) \<noteq> Inl e"
  proof (cases r)
    case (Inl e')
    have "e' \<noteq> e" using assms(1) m Inl unfolding avoids_def by (metis fst_conv)
    with m Inl show ?thesis by (simp add: ebind_def)
  next
    case (Inr x)
    then have "fst (f x t) \<noteq> Inl e" using assms(2)[of s x t] m unfolding avoids_def by blast
    with m Inr show ?thesis by (simp add: ebind_def)
  qed
qed

lemma avoids_efold [avoids_intros]:
  "(\<And>x a. x \<in> set xs \<Longrightarrow> avoids e (body x a)) \<Longrightarrow> avoids e (efold body xs a)"
  by (induction xs arbitrary: a) (auto intro!: avoids_intros)

lemma avoids_if [avoids_intros]: "(b \<Longrightarrow> avoids e m) \<Longrightarrow> (\<not> b \<Longrightarrow> avoids e n) \<Longrightarrow> avoids e (if b then m else n)"
  by simp

text \<open>Two continuations that agree on what the first call can return.\<close>

lemma ebind_cong_run:
  assumes "\<And>s x s'. m s = (Inr x, s') \<Longrightarrow> f x = g x"
  shows "ebind m f = ebind m g"
proof
  fix s
  show "ebind m f s = ebind m g s"
    using assms[of s] by (cases "m s"; cases "fst (m s)") (auto simp: ebind_def)
qed

lemma efold_cong_set: "(\<And>x a. x \<in> set xs \<Longrightarrow> body x a = body' x a) \<Longrightarrow> efold body xs a = efold body' xs a"
proof (induction xs arbitrary: a)
  case Nil
  then show ?case by simp
next
  case (Cons x xs)
  then have "body x a = body' x a" "efold body xs = efold body' xs" by (auto intro!: ext)
  then show ?case by simp
qed

end
