(* ===== verification/Gasp_Wire.thy ===== *)
theory Gasp_Wire
  imports Basm_Hash
begin

text \<open>
  \<^verbatim>\<open>pkg/core/gasp/wire.go\<close> and the message types of \<^verbatim>\<open>types.go\<close>: the binary wire format of the
  GASP messages. Offsets and lengths follow Go's 64-bit \<open>int\<close>: the conversion of a length to
  \<open>int\<close> and the additions that check it against the buffer wrap around, and a slice expression or
  an allocation out of range is the error value \<open>WirePanic\<close>.
\<close>

section \<open>Messages\<close>

datatype wire_error =
    ErrWireEmptyData
  | ErrWireUnsupportedVer
  | ErrWireTooShort
  | ErrWireInvalidVarint
  | ErrWireTrailingBytes
  | WirePanic

record Outpoint =
  op_Txid :: hash
  op_Index :: u32

text \<open>A \<open>float64\<close> is its IEEE bits: \<open>Float64bits\<close> and \<open>Float64frombits\<close> are the identity.\<close>

type_synonym float64 = u64

record InitialRequest =
  req_Version :: int
  req_Since :: float64
  req_Limit :: u32

record Output =
  o_Txid :: hash
  o_OutputIndex :: u32
  o_Score :: float64

record InitialResponse =
  resp_UTXOList :: "Output list"
  resp_Since :: float64

record InitialReply =
  reply_UTXOList :: "Output list"

record NodeRequest =
  nr_GraphID :: "Outpoint option"
  nr_Txid :: "hash option"
  nr_OutputIndex :: u32
  nr_Metadata :: bool

text \<open>The \<open>Inputs\<close> map sends its key to the \<open>Hash\<close> of the \<open>Input\<close>.\<close>

record Node =
  n_GraphID :: "Outpoint option"
  n_RawTx :: "byte list"
  n_OutputIndex :: u32
  n_Proof :: "byte list"
  n_TxMetadata :: string
  n_OutputMetadata :: string
  n_Inputs :: "string \<rightharpoonup> string"

record NodeResponse =
  RequestedInputs :: "Outpoint \<rightharpoonup> bool"

section \<open>Go integers and slices\<close>

definition wrap64 :: "int \<Rightarrow> int" where
  "wrap64 x = sint (word_of_int x :: u64)"

definition go_int :: "u64 \<Rightarrow> int" where
  "go_int w = sint w"

definition go_slice :: "byte list \<Rightarrow> int \<Rightarrow> int \<Rightarrow> wire_error + byte list" where
  "go_slice d a b =
     (if 0 \<le> a \<and> a \<le> b \<and> b \<le> int (length d)
      then Inr (take (nat (b - a)) (drop (nat a) d)) else Inl WirePanic)"

text \<open>\<open>make\<close> of a slice panics when its bytes exceed the 48-bit address space.\<close>

definition go_make :: "u64 \<Rightarrow> nat \<Rightarrow> wire_error + unit" where
  "go_make n sz = (if 2 ^ 48 < unat n * sz then Inl WirePanic else Inr ())"

section \<open>Encoding and decoding\<close>

definition WireVersion :: byte where
  "WireVersion = 0"

definition writeVersion :: "byte list \<Rightarrow> byte list" where
  "writeVersion buf = buf @ [WireVersion]"

definition checkVersion :: "byte list \<Rightarrow> wire_error + nat" where
  "checkVersion d =
     (if length d < 1 then Inl ErrWireEmptyData
      else if d ! 0 \<noteq> WireVersion then Inl ErrWireUnsupportedVer
      else Inr 1)"

definition appendByteField :: "byte list \<Rightarrow> byte list \<Rightarrow> byte list" where
  "appendByteField buf d = (buf @ append_uvarint (word_of_nat (length d))) @ d"

definition readByteField :: "byte list \<Rightarrow> nat \<Rightarrow> wire_error + (byte list \<times> nat)" where
  "readByteField d off =
     (let (len, n) = uvarint (drop off d) in
      if n \<le> 0 then Inl ErrWireInvalidVarint
      else let off = off + nat n in
        if int (length d) < wrap64 (int off + go_int len) then Inl ErrWireTooShort
        else if len = 0 then Inr ([], off)
        else rbind (go_make len 1) (\<lambda>_.
             rbind (go_slice d (int off) (wrap64 (int off + go_int len))) (\<lambda>result.
               Inr (result, nat (wrap64 (int off + go_int len))))))"

definition appendOutput :: "byte list \<Rightarrow> Output \<Rightarrow> byte list" where
  "appendOutput buf out = ((buf @ o_Txid out) @ le_bytes 4 (o_OutputIndex out)) @ le_bytes 8 (o_Score out)"

definition appendOutputList :: "byte list \<Rightarrow> Output list \<Rightarrow> byte list" where
  "appendOutputList buf outputs =
     foldl appendOutput (buf @ append_uvarint (word_of_nat (length outputs))) outputs"

text \<open>The reads of one output; a read past the end panics in the slice expression or in \<open>Uint32\<close>.\<close>

definition readOutput :: "byte list \<Rightarrow> nat \<Rightarrow> wire_error + (Output \<times> nat)" where
  "readOutput d off =
     rbind (go_slice d (int off) (int off + 32)) (\<lambda>txid.
     rbind (go_slice d (int off + 32) (int off + 36)) (\<lambda>idx.
     rbind (go_slice d (int off + 36) (int off + 44)) (\<lambda>score.
       Inr (\<lparr>o_Txid = txid, o_OutputIndex = le_word idx, o_Score = le_word score\<rparr>, off + 44))))"

fun readOutputs :: "nat \<Rightarrow> byte list \<Rightarrow> nat \<Rightarrow> wire_error + (Output list \<times> nat)" where
  "readOutputs 0 d off = Inr ([], off)"
| "readOutputs (Suc k) d off =
     rbind (readOutput d off) (\<lambda>(out, off).
     rbind (readOutputs k d off) (\<lambda>(outs, off). Inr (out # outs, off)))"

definition readOutputList :: "byte list \<Rightarrow> nat \<Rightarrow> wire_error + (Output list \<times> nat)" where
  "readOutputList d off =
     (let (count, n) = uvarint (drop off d) in
      if n \<le> 0 then Inl ErrWireInvalidVarint
      else let off = off + nat n; needed = wrap64 (go_int count * 44) in
        if int (length d) < wrap64 (int off + needed) then Inl ErrWireTooShort
        else rbind (go_make count 8) (\<lambda>_. readOutputs (unat count) d off))"

definition InitialRequest_Serialize :: "InitialRequest \<Rightarrow> byte list" where
  "InitialRequest_Serialize r =
     (let buf = writeVersion [];
          buf = buf @ le_bytes 4 (word_of_int (req_Version r) :: u32);
          buf = buf @ le_bytes 8 (req_Since r)
      in buf @ le_bytes 4 (req_Limit r))"

definition DeserializeInitialRequest :: "byte list \<Rightarrow> wire_error + InitialRequest" where
  "DeserializeInitialRequest d =
     rbind (checkVersion d) (\<lambda>off.
       if length d - off \<noteq> 16 then Inl ErrWireTooShort
       else rbind (go_slice d (int off) (int off + 4)) (\<lambda>v.
            rbind (go_slice d (int off + 4) (int off + 12)) (\<lambda>s.
            rbind (go_slice d (int off + 12) (int off + 16)) (\<lambda>l.
              Inr \<lparr>req_Version = uint (le_word v :: u32), req_Since = le_word s, req_Limit = le_word l\<rparr>))))"

definition InitialResponse_Serialize :: "InitialResponse \<Rightarrow> byte list" where
  "InitialResponse_Serialize r =
     (let buf = writeVersion [];
          buf = buf @ le_bytes 8 (resp_Since r)
      in appendOutputList buf (resp_UTXOList r))"

definition DeserializeInitialResponse :: "byte list \<Rightarrow> wire_error + InitialResponse" where
  "DeserializeInitialResponse d =
     rbind (checkVersion d) (\<lambda>off.
       if length d - off < 8 then Inl ErrWireTooShort
       else rbind (go_slice d (int off) (int off + 8)) (\<lambda>s.
            rbind (readOutputList d (off + 8)) (\<lambda>(outs, _).
              Inr \<lparr>resp_UTXOList = outs, resp_Since = le_word s\<rparr>)))"

definition InitialReply_Serialize :: "InitialReply \<Rightarrow> byte list" where
  "InitialReply_Serialize r = appendOutputList (writeVersion []) (reply_UTXOList r)"

definition DeserializeInitialReply :: "byte list \<Rightarrow> wire_error + InitialReply" where
  "DeserializeInitialReply d =
     rbind (checkVersion d) (\<lambda>off.
     rbind (readOutputList d off) (\<lambda>(outs, _). Inr \<lparr>reply_UTXOList = outs\<rparr>))"

definition append_graph_id :: "byte list \<Rightarrow> Outpoint option \<Rightarrow> byte list" where
  "append_graph_id buf g =
     (case g of Some op \<Rightarrow> (buf @ op_Txid op) @ le_bytes 4 (op_Index op)
      | None \<Rightarrow> buf @ replicate 36 0)"

definition NodeRequest_Serialize :: "NodeRequest \<Rightarrow> byte list" where
  "NodeRequest_Serialize r =
     (let buf = writeVersion [];
          buf = append_graph_id buf (nr_GraphID r);
          buf = (case nr_Txid r of Some h \<Rightarrow> buf @ h | None \<Rightarrow> buf @ replicate 32 0);
          buf = buf @ le_bytes 4 (nr_OutputIndex r)
      in if nr_Metadata r then buf @ [1] else buf @ [0])"

definition DeserializeNodeRequest :: "byte list \<Rightarrow> wire_error + NodeRequest" where
  "DeserializeNodeRequest d =
     rbind (checkVersion d) (\<lambda>off.
       if length d - off \<noteq> 73 then Inl ErrWireTooShort
       else rbind (go_slice d (int off) (int off + 32)) (\<lambda>gtx.
            rbind (go_slice d (int off + 32) (int off + 36)) (\<lambda>gidx.
            rbind (go_slice d (int off + 36) (int off + 68)) (\<lambda>txid.
            rbind (go_slice d (int off + 68) (int off + 72)) (\<lambda>idx.
              Inr \<lparr>nr_GraphID = Some \<lparr>op_Txid = gtx, op_Index = le_word gidx\<rparr>, nr_Txid = Some txid,
                   nr_OutputIndex = le_word idx, nr_Metadata = (d ! (off + 72) \<noteq> 0)\<rparr>)))))"

text \<open>
  Go iterates over a map in an arbitrary order, so the serializers of maps take the order as an
  argument: a list that enumerates the keys.
\<close>

definition Node_Serialize :: "string list \<Rightarrow> Node \<Rightarrow> byte list" where
  "Node_Serialize order n =
     (let buf = writeVersion [];
          buf = append_graph_id buf (n_GraphID n);
          buf = buf @ le_bytes 4 (n_OutputIndex n);
          buf = appendByteField buf (n_RawTx n);
          buf = appendByteField buf (n_Proof n);
          buf = appendByteField buf (bytes_of (n_TxMetadata n));
          buf = appendByteField buf (bytes_of (n_OutputMetadata n));
          buf = buf @ append_uvarint (word_of_nat (card (dom (n_Inputs n))))
      in foldl (\<lambda>buf h. appendByteField buf (bytes_of h)) buf order)"

fun readInputs :: "nat \<Rightarrow> byte list \<Rightarrow> nat \<Rightarrow> (string \<rightharpoonup> string) \<Rightarrow> wire_error + ((string \<rightharpoonup> string) \<times> nat)" where
  "readInputs 0 d off inputs = Inr (inputs, off)"
| "readInputs (Suc k) d off inputs =
     rbind (readByteField d off) (\<lambda>(hashBytes, newOffset).
       readInputs k d newOffset (inputs(string_of hashBytes \<mapsto> string_of hashBytes)))"

definition deserializeNodeInputs :: "byte list \<Rightarrow> nat \<Rightarrow> wire_error + ((string \<rightharpoonup> string) \<times> nat)" where
  "deserializeNodeInputs d off =
     (let (inputCount, nn) = uvarint (drop off d) in
      if nn \<le> 0 then Inl ErrWireInvalidVarint
      else let off = off + nat nn in
        if 0xFFFFFFFF < inputCount then Inl ErrWireTooShort
        else if inputCount = 0 then Inr (Map.empty, off)
        else readInputs (unat inputCount) d off Map.empty)"

definition DeserializeNode :: "byte list \<Rightarrow> wire_error + Node" where
  "DeserializeNode d =
     rbind (checkVersion d) (\<lambda>off.
       if length d - off < 40 then Inl ErrWireTooShort
       else
     rbind (go_slice d (int off) (int off + 32)) (\<lambda>gtx.
     rbind (go_slice d (int off + 32) (int off + 36)) (\<lambda>gidx.
     rbind (go_slice d (int off + 36) (int off + 40)) (\<lambda>idx.
     rbind (readByteField d (off + 40)) (\<lambda>(rawTx, off).
     rbind (readByteField d off) (\<lambda>(proof_bytes, off).
     rbind (readByteField d off) (\<lambda>(txMeta, off).
     rbind (readByteField d off) (\<lambda>(outMeta, off).
     rbind (deserializeNodeInputs d off) (\<lambda>(inputs, off).
       if off \<noteq> length d then Inl ErrWireTrailingBytes
       else Inr \<lparr>n_GraphID = Some \<lparr>op_Txid = gtx, op_Index = le_word gidx\<rparr>, n_RawTx = rawTx,
              n_OutputIndex = le_word idx, n_Proof = proof_bytes, n_TxMetadata = string_of txMeta,
              n_OutputMetadata = string_of outMeta, n_Inputs = inputs\<rparr>)))))))))"

definition NodeResponse_Serialize :: "Outpoint list \<Rightarrow> NodeResponse \<Rightarrow> byte list" where
  "NodeResponse_Serialize order r =
     (let buf = writeVersion [];
          buf = buf @ append_uvarint (word_of_nat (card (dom (RequestedInputs r))))
      in foldl (\<lambda>buf op. ((buf @ op_Txid op) @ le_bytes 4 (op_Index op)) @
           (if RequestedInputs r op = Some True then [1] else [0])) buf order)"

fun readRequested :: "nat \<Rightarrow> byte list \<Rightarrow> nat \<Rightarrow> (Outpoint \<rightharpoonup> bool) \<Rightarrow> wire_error + ((Outpoint \<rightharpoonup> bool) \<times> nat)" where
  "readRequested 0 d off m = Inr (m, off)"
| "readRequested (Suc k) d off m =
     rbind (go_slice d (int off) (int off + 32)) (\<lambda>txid.
     rbind (go_slice d (int off + 32) (int off + 36)) (\<lambda>idx.
     rbind (go_slice d (int off + 36) (int off + 37)) (\<lambda>flag.
       readRequested k d (off + 37) (m(\<lparr>op_Txid = txid, op_Index = le_word idx\<rparr> \<mapsto> flag ! 0 \<noteq> 0)))))"

text \<open>The loop runs while \<open>i < int(count)\<close>, so not at all for a count that is negative as an \<open>int\<close>.\<close>

definition DeserializeNodeResponse :: "byte list \<Rightarrow> wire_error + NodeResponse" where
  "DeserializeNodeResponse d =
     rbind (checkVersion d) (\<lambda>off.
       let (count, n) = uvarint (drop off d) in
       if n \<le> 0 then Inl ErrWireInvalidVarint
       else let off = off + nat n in
         if int (length d) < wrap64 (int off + wrap64 (go_int count * 37)) then Inl ErrWireTooShort
         else rbind (readRequested (nat (go_int count)) d off Map.empty) (\<lambda>(m, off).
           if off \<noteq> length d then Inl ErrWireTrailingBytes
           else Inr \<lparr>RequestedInputs = m\<rparr>))"

section \<open>Reads at a position\<close>

text \<open>A message fits in memory when it is no longer than the address space.\<close>

abbreviation fits :: "byte list \<Rightarrow> bool" where
  "fits d \<equiv> length d \<le> 2 ^ 48"

lemma wrap64_eq: "wrap64 x = (x + 2 ^ 63) mod 2 ^ 64 - 2 ^ 63"
  unfolding wrap64_def int_word_sint by simp

lemma wrap64_id: "- (2 ^ 63) \<le> x \<Longrightarrow> x < 2 ^ 63 \<Longrightarrow> wrap64 x = x"
  by (simp add: wrap64_eq)

lemma go_int_wrap: "go_int w = wrap64 (int (unat w))"
  by (simp add: go_int_def wrap64_def)

lemma wrap64_nat: "n < 2 ^ 63 \<Longrightarrow> wrap64 (int n) = int n"
  by (rule wrap64_id) simp_all

lemma wrap64_nat_over: "2 ^ 63 \<le> n \<Longrightarrow> n < 2 ^ 63 + 2 ^ 64 \<Longrightarrow> wrap64 (int n) = int n - 2 ^ 64"
proof -
  assume n: "2 ^ 63 \<le> n" "n < 2 ^ 63 + 2 ^ 64"
  have "(int n + 2 ^ 63) mod 2 ^ 64 = (int n + 2 ^ 63 - 2 ^ 64) mod 2 ^ 64"
    by (simp only: minus_mod_self2)
  also have "\<dots> = int n + 2 ^ 63 - 2 ^ 64"
    using n by (intro mod_pos_pos_trivial) simp_all
  finally show ?thesis by (simp add: wrap64_eq)
qed

lemma go_int_small: "unat w < 2 ^ 63 \<Longrightarrow> go_int w = int (unat w)"
  unfolding go_int_wrap by (rule wrap64_nat)

lemma go_int_big: "2 ^ 63 \<le> unat w \<Longrightarrow> go_int w = int (unat w) - 2 ^ 64"
  unfolding go_int_wrap using unat_lt_u64[of w] by (intro wrap64_nat_over) simp_all

lemma go_int_neg: "2 ^ 63 \<le> unat w \<Longrightarrow> - (2 ^ 63) \<le> go_int w \<and> go_int w < 0"
  using unat_lt_u64[of w] by (simp add: go_int_big del: of_nat_unat)

lemma unat_word_of_length: "n < 2 ^ 64 \<Longrightarrow> unat (word_of_nat n :: u64) = n"
  by (simp add: unat_of_nat)

lemma go_slice_mid: "a = length pre \<Longrightarrow> b = length pre + length bs \<Longrightarrow>
    go_slice (pre @ bs @ post) (int a) (int b) = Inr bs"
  by (simp add: go_slice_def)

lemma appendByteField_eq: "appendByteField buf f = buf @ append_uvarint (word_of_nat (length f)) @ f"
  by (simp add: appendByteField_def)

lemma readByteField_append:
  assumes fit: "fits (pre @ appendByteField [] f @ post)"
  shows "readByteField (pre @ appendByteField [] f @ post) (length pre) =
    Inr (f, length pre + length (appendByteField [] f))"
proof -
  let ?n = "word_of_nat (length f) :: u64"
  have len: "length f \<le> 2 ^ 48" "length pre + length (append_uvarint ?n) + length f \<le> 2 ^ 48"
    using fit by (simp_all add: appendByteField_eq)
  have un: "unat ?n = length f" using len(1) by (intro unat_word_of_length) simp
  have gi: "go_int ?n = int (length f)" using len(1) un by (subst go_int_small) simp_all
  let ?o = "length pre + length (append_uvarint ?n)"
  have w: "wrap64 (int ?o + go_int ?n) = int (?o + length f)"
    unfolding gi using len(2) by (subst wrap64_id) simp_all
  have sl: "go_slice (pre @ append_uvarint ?n @ f @ post) (int ?o) (int (?o + length f)) = Inr f"
    using go_slice_mid[of ?o "pre @ append_uvarint ?n" "?o + length f" f post] by simp
  have z: "?n = 0 \<longleftrightarrow> f = []" using un by (auto simp: word_unat_eq_iff)
  show ?thesis
    using len length_append_uvarint_pos[of ?n]
    by (simp add: readByteField_def appendByteField_eq w[simplified] sl[simplified] z go_make_def un Let_def nat_add_distrib)
qed

lemma readByteField_overflow:
  assumes big: "2 ^ 63 - 2 ^ 48 \<le> unat v" and fit: "fits (pre @ append_uvarint v @ post)"
    and wraps: "2 ^ 63 \<le> length pre + length (append_uvarint v) + unat v"
  shows "readByteField (pre @ append_uvarint v @ post) (length pre) = Inl WirePanic"
proof -
  let ?o = "length pre + length (append_uvarint v)"
  have o: "?o \<le> 2 ^ 48" using fit by simp
  have "wrap64 (int ?o + go_int v) \<le> int ?o"
  proof (cases "unat v < 2 ^ 63")
    case True
    have "wrap64 (int (?o + unat v)) = int (?o + unat v) - 2 ^ 64"
      using True o wraps by (intro wrap64_nat_over) simp_all
    moreover have "go_int v = int (unat v)" using True by (rule go_int_small)
    ultimately show ?thesis using True by (simp del: of_nat_unat)
  next
    case False
    then have g: "- (2 ^ 63) \<le> go_int v \<and> go_int v < 0" by (intro go_int_neg) simp
    then have "wrap64 (int ?o + go_int v) = int ?o + go_int v" using o by (intro wrap64_id) simp_all
    then show ?thesis using g by simp
  qed
  moreover have "v \<noteq> 0" using big by auto
  moreover have "go_make v 1 = Inl WirePanic" using big by (simp add: go_make_def)
  ultimately show ?thesis
    using length_append_uvarint_pos[of v] by (auto simp: readByteField_def Let_def)
qed

lemma readByteField_too_short:
  assumes short: "length post < unat v" and fit: "fits (pre @ append_uvarint v @ post)"
    and nowrap: "length pre + length (append_uvarint v) + unat v < 2 ^ 63"
  shows "readByteField (pre @ append_uvarint v @ post) (length pre) = Inl ErrWireTooShort"
proof -
  let ?o = "length pre + length (append_uvarint v)"
  have "go_int v = int (unat v)" using nowrap by (intro go_int_small) simp
  moreover have "wrap64 (int (?o + unat v)) = int (?o + unat v)" using nowrap by (rule wrap64_nat)
  ultimately have "int (length (pre @ append_uvarint v @ post)) < wrap64 (int ?o + go_int v)"
    using short by (simp del: of_nat_unat)
  then show ?thesis
    using length_append_uvarint_pos[of v] by (simp add: readByteField_def Let_def)
qed

section \<open>Round trips\<close>

lemma checkVersion_append [simp]: "checkVersion (WireVersion # d) = Inr 1"
  by (simp add: checkVersion_def)

lemma InitialRequest_roundtrip:
  assumes "0 \<le> req_Version r" "req_Version r < 2 ^ 32"
  shows "DeserializeInitialRequest (InitialRequest_Serialize r) = Inr r"
proof -
  have "uint (word_of_int (req_Version r) :: u32) = req_Version r"
    using assms by (simp add: unsigned_of_int take_bit_int_eq_self)
  then show ?thesis
    by (simp add: DeserializeInitialRequest_def InitialRequest_Serialize_def Let_def writeVersion_def go_slice_def)
qed

lemma appendOutputList_eq:
  "appendOutputList buf outs =
     buf @ append_uvarint (word_of_nat (length outs)) @ concat (map (appendOutput []) outs)"
proof -
  have "foldl appendOutput b outs = b @ concat (map (appendOutput []) outs)" for b
    by (induction outs arbitrary: b) (simp_all add: appendOutput_def)
  then show ?thesis by (simp add: appendOutputList_def)
qed

lemma length_appendOutput [simp]: "wf_hash (o_Txid out) \<Longrightarrow> length (appendOutput buf out) = length buf + 44"
  by (simp add: appendOutput_def)

lemma readOutput_append:
  assumes "wf_hash (o_Txid out)"
  shows "readOutput (pre @ appendOutput [] out @ post) (length pre) = Inr (out, length pre + 44)"
  using assms by (simp add: readOutput_def appendOutput_def go_slice_def nat_add_distrib)

lemma readOutputs_append:
  assumes "list_all (\<lambda>out. wf_hash (o_Txid out)) outs"
  shows "readOutputs (length outs) (pre @ concat (map (appendOutput []) outs) @ post) (length pre) =
    Inr (outs, length pre + 44 * length outs)"
  using assms
proof (induction outs arbitrary: pre)
  case Nil
  then show ?case by simp
next
  case (Cons out outs)
  have "readOutputs (length outs) ((pre @ appendOutput [] out) @ concat (map (appendOutput []) outs) @ post)
      (length (pre @ appendOutput [] out)) = Inr (outs, length (pre @ appendOutput [] out) + 44 * length outs)"
    using Cons.prems by (intro Cons.IH) simp
  then show ?case
    using Cons.prems readOutput_append[of out pre "concat (map (appendOutput []) outs) @ post"] by simp
qed

lemma readOutputList_append:
  assumes wf: "list_all (\<lambda>out. wf_hash (o_Txid out)) outs" and fit: "fits (pre @ appendOutputList [] outs @ post)"
  shows "readOutputList (pre @ appendOutputList [] outs @ post) (length pre) =
    Inr (outs, length pre + length (appendOutputList [] outs))"
proof -
  let ?n = "word_of_nat (length outs) :: u64" and ?body = "concat (map (appendOutput []) outs)"
  have body: "length ?body = 44 * length outs"
    using wf by (induction outs) simp_all
  have len: "length pre + length (append_uvarint ?n) + 44 * length outs + length post \<le> 2 ^ 48"
    using fit body by (simp add: appendOutputList_eq del: length_concat)
  have un: "unat ?n = length outs" using len by (intro unat_word_of_length) simp
  have gi: "go_int ?n = int (length outs)" using len un by (subst go_int_small) simp_all
  let ?o = "length pre + length (append_uvarint ?n)"
  have needed: "wrap64 (go_int ?n * 44) = int (44 * length outs)"
    unfolding gi using wrap64_nat[of "44 * length outs"] len by (simp add: mult.commute)
  have "wrap64 (int (?o + 44 * length outs)) = int (?o + 44 * length outs)"
    by (rule wrap64_nat) (use len in simp)
  then have guard: "\<not> int (length (pre @ append_uvarint ?n @ ?body @ post)) < wrap64 (int ?o + wrap64 (go_int ?n * 44))"
    unfolding needed using body by (simp del: length_concat)
  have mk: "go_make ?n 8 = Inr ()" using len un by (simp add: go_make_def)
  have rd: "readOutputs (unat ?n) (pre @ append_uvarint ?n @ ?body @ post) ?o = Inr (outs, ?o + 44 * length outs)"
    using readOutputs_append[OF wf, of "pre @ append_uvarint ?n" post] un by simp
  show ?thesis
    using guard mk rd length_append_uvarint_pos[of ?n] body
    by (simp add: readOutputList_def appendOutputList_eq Let_def del: length_concat of_nat_unat)
qed

lemma InitialResponse_roundtrip:
  assumes "list_all (\<lambda>out. wf_hash (o_Txid out)) (resp_UTXOList r)" "fits (InitialResponse_Serialize r @ post)"
  shows "DeserializeInitialResponse (InitialResponse_Serialize r @ post) = Inr r"
proof -
  let ?pre = "WireVersion # le_bytes 8 (resp_Since r)"
  have eq: "InitialResponse_Serialize r @ post = ?pre @ appendOutputList [] (resp_UTXOList r) @ post"
    by (simp add: InitialResponse_Serialize_def writeVersion_def appendOutputList_eq)
  have "readOutputList (?pre @ appendOutputList [] (resp_UTXOList r) @ post) (length ?pre) =
      Inr (resp_UTXOList r, length ?pre + length (appendOutputList [] (resp_UTXOList r)))"
    using assms by (intro readOutputList_append) (simp_all only: eq)
  then show ?thesis
    by (simp add: eq DeserializeInitialResponse_def go_slice_def)
qed

lemma InitialReply_roundtrip:
  assumes "list_all (\<lambda>out. wf_hash (o_Txid out)) (reply_UTXOList r)" "fits (InitialReply_Serialize r @ post)"
  shows "DeserializeInitialReply (InitialReply_Serialize r @ post) = Inr r"
proof -
  have eq: "InitialReply_Serialize r @ post = [WireVersion] @ appendOutputList [] (reply_UTXOList r) @ post"
    by (simp add: InitialReply_Serialize_def writeVersion_def appendOutputList_eq)
  have "readOutputList ([WireVersion] @ appendOutputList [] (reply_UTXOList r) @ post) (length [WireVersion]) =
      Inr (reply_UTXOList r, length [WireVersion] + length (appendOutputList [] (reply_UTXOList r)))"
    using assms by (intro readOutputList_append) (simp_all only: eq)
  then show ?thesis by (simp add: eq DeserializeInitialReply_def)
qed

text \<open>A nil graph id or transaction id is sent as zero bytes, and read back as the zero value.\<close>

definition graph_id_or_zero :: "Outpoint option \<Rightarrow> Outpoint" where
  "graph_id_or_zero g = (case g of Some op \<Rightarrow> op | None \<Rightarrow> \<lparr>op_Txid = zero_hash, op_Index = 0\<rparr>)"

definition txid_or_zero :: "hash option \<Rightarrow> hash" where
  "txid_or_zero t = (case t of Some h \<Rightarrow> h | None \<Rightarrow> zero_hash)"

lemma append_graph_id_eq:
  "append_graph_id buf g = buf @ op_Txid (graph_id_or_zero g) @ le_bytes 4 (op_Index (graph_id_or_zero g))"
proof -
  have "le_bytes 4 (0 :: u32) = replicate 4 0" by code_simp
  then show ?thesis
    by (simp add: append_graph_id_def graph_id_or_zero_def zero_hash_def replicate_add[symmetric] split: option.split)
qed

lemma NodeRequest_roundtrip:
  assumes "\<And>op. nr_GraphID r = Some op \<Longrightarrow> wf_hash (op_Txid op)" "\<And>h. nr_Txid r = Some h \<Longrightarrow> wf_hash h"
  shows "DeserializeNodeRequest (NodeRequest_Serialize r) =
    Inr (r\<lparr>nr_GraphID := Some (graph_id_or_zero (nr_GraphID r)), nr_Txid := Some (txid_or_zero (nr_Txid r))\<rparr>)"
proof -
  let ?g = "graph_id_or_zero (nr_GraphID r)" and ?t = "txid_or_zero (nr_Txid r)"
  have wf: "wf_hash (op_Txid ?g)" "wf_hash ?t"
    using assms by (simp_all add: graph_id_or_zero_def txid_or_zero_def split: option.split)
  have eq: "NodeRequest_Serialize r = WireVersion # op_Txid ?g @ le_bytes 4 (op_Index ?g) @ ?t @
      le_bytes 4 (nr_OutputIndex r) @ [if nr_Metadata r then 1 else 0]"
    by (simp add: NodeRequest_Serialize_def writeVersion_def append_graph_id_eq txid_or_zero_def zero_hash_def
        split: option.split)
  show ?thesis
    using wf by (simp add: eq DeserializeNodeRequest_def go_slice_def nth_Cons' nth_append)
qed

lemma readByteField_at:
  "d = pre @ appendByteField [] f @ post \<Longrightarrow> fits d \<Longrightarrow> off = length pre \<Longrightarrow>
     readByteField d off = Inr (f, length (pre @ appendByteField [] f))"
  using readByteField_append by simp

lemma readInputs_append:
  assumes "fits (pre @ concat (map (\<lambda>h. appendByteField [] (bytes_of h)) order) @ post)"
  shows "readInputs (length order) (pre @ concat (map (\<lambda>h. appendByteField [] (bytes_of h)) order) @ post) (length pre) m =
    Inr (\<lambda>k. if k \<in> set order then Some k else m k,
      length (pre @ concat (map (\<lambda>h. appendByteField [] (bytes_of h)) order)))"
  using assms
proof (induction order arbitrary: pre m)
  case Nil
  then show ?case by simp
next
  case (Cons h order)
  let ?f = "appendByteField [] (bytes_of h)" and ?rest = "concat (map (\<lambda>h. appendByteField [] (bytes_of h)) order)"
  have head: "readByteField (pre @ ?f @ ?rest @ post) (length pre) = Inr (bytes_of h, length (pre @ ?f))"
    using Cons.prems by (intro readByteField_at[where post = "?rest @ post"]) simp_all
  have tail: "readInputs (length order) ((pre @ ?f) @ ?rest @ post) (length (pre @ ?f)) (m(h \<mapsto> h)) =
      Inr (\<lambda>k. if k \<in> set order then Some k else (m(h \<mapsto> h)) k, length ((pre @ ?f) @ ?rest))"
    using Cons.prems by (intro Cons.IH) simp
  have "(\<lambda>k. if k \<in> set order then Some k else (m(h \<mapsto> h)) k) = (\<lambda>k. if k \<in> set (h # order) then Some k else m k)"
    by (auto simp: fun_eq_iff)
  with head tail show ?case by simp
qed

lemma card_order: "distinct order \<Longrightarrow> set order = dom m \<Longrightarrow> card (dom m) = length order"
  by (metis distinct_card)

lemma deserializeNodeInputs_append:
  assumes fit: "fits (pre @ append_uvarint (word_of_nat (length order)) @
      concat (map (\<lambda>h. appendByteField [] (bytes_of h)) order) @ post)" (is "fits ?d")
    and cnt: "length order < 2 ^ 32"
  shows "deserializeNodeInputs ?d (length pre) = Inr (\<lambda>k. if k \<in> set order then Some k else None,
    length ?d - length post)"
proof -
  let ?n = "word_of_nat (length order) :: u64"
  have un: "unat ?n = length order" using cnt by (intro unat_word_of_length) simp
  have small: "\<not> 0xFFFFFFFF < ?n" using cnt un by (simp add: word_less_nat_alt)
  have z: "?n = 0 \<longleftrightarrow> order = []" using un by (auto simp: word_unat_eq_iff)
  have rd: "readInputs (length order) ((pre @ append_uvarint ?n) @
        concat (map (\<lambda>h. appendByteField [] (bytes_of h)) order) @ post) (length (pre @ append_uvarint ?n)) Map.empty =
      Inr (\<lambda>k. if k \<in> set order then Some k else Map.empty k,
        length ((pre @ append_uvarint ?n) @ concat (map (\<lambda>h. appendByteField [] (bytes_of h)) order)))"
    using fit by (intro readInputs_append) simp
  show ?thesis
  proof (cases "order = []")
    case True
    then show ?thesis
      using z length_append_uvarint_pos[of ?n]
      by (simp add: deserializeNodeInputs_def Let_def small fun_eq_iff)
  next
    case False
    then show ?thesis
      using z rd length_append_uvarint_pos[of ?n]
      by (simp add: deserializeNodeInputs_def Let_def small un del: length_concat of_nat_unat)
  qed
qed

definition node_read_back :: "Node \<Rightarrow> Node" where
  "node_read_back n = n\<lparr>n_GraphID := Some (graph_id_or_zero (n_GraphID n)),
     n_Inputs := (\<lambda>k. if k \<in> dom (n_Inputs n) then Some k else None)\<rparr>"

lemma Node_Serialize_eq:
  assumes "distinct order" "set order = dom (n_Inputs n)"
  shows "Node_Serialize order n = WireVersion # op_Txid (graph_id_or_zero (n_GraphID n)) @
    le_bytes 4 (op_Index (graph_id_or_zero (n_GraphID n))) @ le_bytes 4 (n_OutputIndex n) @
    appendByteField [] (n_RawTx n) @ appendByteField [] (n_Proof n) @
    appendByteField [] (bytes_of (n_TxMetadata n)) @ appendByteField [] (bytes_of (n_OutputMetadata n)) @
    append_uvarint (word_of_nat (length order)) @ concat (map (\<lambda>h. appendByteField [] (bytes_of h)) order)"
proof -
  have "foldl (\<lambda>buf h. appendByteField buf (bytes_of h)) b order =
      b @ concat (map (\<lambda>h. appendByteField [] (bytes_of h)) order)" for b
    by (induction order arbitrary: b) (simp_all add: appendByteField_eq)
  then show ?thesis
    using card_order[OF assms]
    by (simp add: Node_Serialize_def Let_def writeVersion_def append_graph_id_eq appendByteField_eq[of "_ @ _"]
        appendByteField_eq[of "_ # _"] appendByteField_eq[of "[]"])
qed

lemma Node_roundtrip:
  assumes wf: "\<And>op. n_GraphID n = Some op \<Longrightarrow> wf_hash (op_Txid op)"
    and order: "distinct order" "set order = dom (n_Inputs n)" "length order < 2 ^ 32"
    and fit: "fits (Node_Serialize order n)"
  shows "DeserializeNode (Node_Serialize order n) = Inr (node_read_back n)"
proof -
  let ?g = "graph_id_or_zero (n_GraphID n)"
  let ?h = "WireVersion # op_Txid ?g @ le_bytes 4 (op_Index ?g) @ le_bytes 4 (n_OutputIndex n)"
  let ?f1 = "appendByteField [] (n_RawTx n)" and ?f2 = "appendByteField [] (n_Proof n)"
  let ?f3 = "appendByteField [] (bytes_of (n_TxMetadata n))" and ?f4 = "appendByteField [] (bytes_of (n_OutputMetadata n))"
  let ?t = "append_uvarint (word_of_nat (length order)) @ concat (map (\<lambda>h. appendByteField [] (bytes_of h)) order)"
  define d where "d = Node_Serialize order n"
  have d: "d = ?h @ ?f1 @ ?f2 @ ?f3 @ ?f4 @ ?t"
    unfolding d_def using Node_Serialize_eq[OF order(1,2)] by simp
  have fd: "fits d" using fit by (simp add: d_def)
  have g: "wf_hash (op_Txid ?g)" using wf by (simp add: graph_id_or_zero_def split: option.split)
  have hd: "checkVersion d = Inr 1" "\<not> length d - Suc 0 < 40" using g by (simp_all add: d)
  have s: "go_slice d 1 33 = Inr (op_Txid ?g)" "go_slice d 33 37 = Inr (le_bytes 4 (op_Index ?g))"
    "go_slice d 37 41 = Inr (le_bytes 4 (n_OutputIndex n))"
    using g by (simp_all add: d go_slice_def)
  have r1: "readByteField d 41 = Inr (n_RawTx n, length (?h @ ?f1))"
    by (rule readByteField_at[OF _ fd]) (use g d in simp_all)
  have r2: "readByteField d (length (?h @ ?f1)) = Inr (n_Proof n, length ((?h @ ?f1) @ ?f2))"
    by (rule readByteField_at[OF _ fd]) (use d in simp_all)
  have r3: "readByteField d (length ((?h @ ?f1) @ ?f2)) = Inr (bytes_of (n_TxMetadata n), length (((?h @ ?f1) @ ?f2) @ ?f3))"
    by (rule readByteField_at[OF _ fd]) (use d in simp_all)
  have r4: "readByteField d (length (((?h @ ?f1) @ ?f2) @ ?f3)) =
      Inr (bytes_of (n_OutputMetadata n), length ((((?h @ ?f1) @ ?f2) @ ?f3) @ ?f4))"
    by (rule readByteField_at[OF _ fd]) (use d in simp_all)
  have "d = ((((?h @ ?f1) @ ?f2) @ ?f3) @ ?f4) @ append_uvarint (word_of_nat (length order)) @
      concat (map (\<lambda>h. appendByteField [] (bytes_of h)) order) @ []" by (simp add: d)
  then have r5: "deserializeNodeInputs d (length ((((?h @ ?f1) @ ?f2) @ ?f3) @ ?f4)) =
      Inr (\<lambda>k. if k \<in> set order then Some k else None, length d)"
    using deserializeNodeInputs_append[of "(((?h @ ?f1) @ ?f2) @ ?f3) @ ?f4" order "[]"] order(3) fd by simp
  show ?thesis
    unfolding d_def[symmetric] DeserializeNode_def
    by (simp add: hd s r1 r2 r3 r4 r5 node_read_back_def order(2) del: length_append length_Cons append_assoc append_Cons)
qed

definition requested_entry :: "NodeResponse \<Rightarrow> Outpoint \<Rightarrow> byte list" where
  "requested_entry r op = op_Txid op @ le_bytes 4 (op_Index op) @ (if RequestedInputs r op = Some True then [1] else [0])"

lemma readRequested_append:
  assumes "list_all (\<lambda>op. wf_hash (op_Txid op)) order" "set order \<subseteq> dom (RequestedInputs r)"
  shows "readRequested (length order) (pre @ concat (map (requested_entry r) order) @ post) (length pre) m =
    Inr (\<lambda>op. if op \<in> set order then RequestedInputs r op else m op, length pre + 37 * length order)"
  using assms
proof (induction order arbitrary: pre m)
  case Nil
  then show ?case by simp
next
  case (Cons op order)
  define b where "b = (if RequestedInputs r op = Some True then 1 else 0 :: byte)"
  let ?e = "requested_entry r op" and ?rest = "concat (map (requested_entry r) order)"
  let ?d = "pre @ ?e @ ?rest @ post"
  have wf: "wf_hash (op_Txid op)" using Cons.prems by simp
  then have e: "?e = op_Txid op @ le_bytes 4 (op_Index op) @ [b]" "length ?e = 37"
    by (simp_all add: requested_entry_def b_def)
  have eta: "\<lparr>op_Txid = op_Txid op, op_Index = op_Index op\<rparr> = op" by simp
  have s: "go_slice ?d (int (length pre)) (int (length pre) + 32) = Inr (op_Txid op)"
    "go_slice ?d (int (length pre) + 32) (int (length pre) + 36) = Inr (le_bytes 4 (op_Index op))"
    "go_slice ?d (int (length pre) + 36) (int (length pre) + 37) = Inr [b]"
    using wf e(2) by (simp_all add: go_slice_def e(1) nat_add_distrib)
  have val: "RequestedInputs r op = Some (b \<noteq> 0)" using Cons.prems by (auto simp: b_def)
  let ?m = "m(op \<mapsto> b \<noteq> 0)"
  have "readRequested (length order) ((pre @ ?e) @ ?rest @ post) (length (pre @ ?e)) ?m =
      Inr (\<lambda>op. if op \<in> set order then RequestedInputs r op else ?m op, length (pre @ ?e) + 37 * length order)"
    using Cons.prems by (intro Cons.IH) simp_all
  moreover have "(\<lambda>q. if q \<in> set order then RequestedInputs r q else ?m q) =
      (\<lambda>q. if q \<in> set (op # order) then RequestedInputs r q else m q)"
    using val by (auto simp: fun_eq_iff)
  ultimately have "readRequested (length order) ?d (length pre + 37) ?m =
      Inr (\<lambda>q. if q \<in> set (op # order) then RequestedInputs r q else m q, length pre + 37 * length (op # order))"
    by (simp add: e(2) del: fun_upd_apply)
  with s show ?case by (simp add: eta del: fun_upd_apply)
qed

lemma NodeResponse_Serialize_eq:
  assumes "distinct order" "set order = dom (RequestedInputs r)"
  shows "NodeResponse_Serialize order r =
    WireVersion # append_uvarint (word_of_nat (length order)) @ concat (map (requested_entry r) order)"
proof -
  have "foldl (\<lambda>buf op. ((buf @ op_Txid op) @ le_bytes 4 (op_Index op)) @
      (if RequestedInputs r op = Some True then [1] else [0])) b ops = b @ concat (map (requested_entry r) ops)" for b ops
    by (induction ops arbitrary: b) (simp_all add: requested_entry_def)
  then show ?thesis using card_order[OF assms] by (simp add: NodeResponse_Serialize_def writeVersion_def)
qed

lemma NodeResponse_roundtrip:
  assumes wf: "\<And>op. op \<in> dom (RequestedInputs r) \<Longrightarrow> wf_hash (op_Txid op)"
    and order: "distinct order" "set order = dom (RequestedInputs r)"
    and fit: "fits (NodeResponse_Serialize order r)"
  shows "DeserializeNodeResponse (NodeResponse_Serialize order r) = Inr r"
proof -
  let ?n = "word_of_nat (length order) :: u64" and ?body = "concat (map (requested_entry r) order)"
  define d where "d = WireVersion # append_uvarint ?n @ ?body"
  have ser: "NodeResponse_Serialize order r = d" by (simp add: d_def NodeResponse_Serialize_eq[OF order])
  have all: "list_all (\<lambda>op. wf_hash (op_Txid op)) order" using wf order(2) by (auto simp: list_all_iff)
  then have body: "length ?body = 37 * length order"
    by (induction order) (simp_all add: requested_entry_def)
  have len: "1 + length (append_uvarint ?n) + 37 * length order \<le> 2 ^ 48"
    using fit body unfolding ser by (simp add: d_def del: length_concat)
  have un: "unat ?n = length order" using len by (intro unat_word_of_length) simp
  have gi: "go_int ?n = int (length order)" using len un by (subst go_int_small) simp_all
  have needed: "wrap64 (go_int ?n * 37) = int (37 * length order)"
    unfolding gi using wrap64_nat[of "37 * length order"] len by (simp add: mult.commute)
  have "wrap64 (int (1 + length (append_uvarint ?n) + 37 * length order)) =
      int (1 + length (append_uvarint ?n) + 37 * length order)"
    by (rule wrap64_nat) (use len in simp)
  then have guard: "\<not> int (length d) < wrap64 (int (1 + length (append_uvarint ?n)) + wrap64 (go_int ?n * 37))"
    unfolding needed of_nat_add[symmetric] using body by (simp add: d_def del: length_concat)
  have rd: "readRequested (length order) d (1 + length (append_uvarint ?n)) Map.empty =
      Inr (RequestedInputs r, 1 + length (append_uvarint ?n) + 37 * length order)"
  proof -
    have "(\<lambda>op. if op \<in> set order then RequestedInputs r op else None) = RequestedInputs r"
      using order(2) by (auto simp: fun_eq_iff)
    then show ?thesis
      using readRequested_append[OF all, of r "WireVersion # append_uvarint ?n" "[]" Map.empty] order(2)
      by (simp add: d_def)
  qed
  have uv: "checkVersion d = Inr 1" "uvarint (drop 1 d) = (?n, int (length (append_uvarint ?n)))"
    by (simp_all add: d_def)
  have "1 + length (append_uvarint ?n) + 37 * length order = length d"
    using body by (simp add: d_def del: length_concat)
  then show ?thesis
    using guard rd length_append_uvarint_pos[of ?n]
    by (simp add: ser DeserializeNodeResponse_def uv[simplified] gi Let_def)
qed

section \<open>Lengths beyond the 63 bits of an int\<close>

text \<open>
  The bound checks convert the announced length or count to \<open>int\<close> before they add or multiply, so
  a peer can choose one that wraps around: the field reader then panics, and the response reader
  takes a huge count for an empty list.
\<close>

lemma DeserializeNode_overflow:
  assumes "length hdr = 40" "2 ^ 63 \<le> unat v" "fits (WireVersion # hdr @ append_uvarint v @ rest)"
  shows "DeserializeNode (WireVersion # hdr @ append_uvarint v @ rest) = Inl WirePanic"
proof -
  let ?pre = "WireVersion # hdr"
  have "readByteField (?pre @ append_uvarint v @ rest) (length ?pre) = Inl WirePanic"
    using assms by (intro readByteField_overflow) simp_all
  then show ?thesis
    using assms(1) by (simp add: DeserializeNode_def go_slice_def)
qed


section \<open>Properties\<close>

text \<open>
  C25: a node survives the wire in every iteration order of its inputs, except that a nil graph id
  comes back as the zero outpoint and each input's hash as its key.
\<close>

theorem Node_wire_roundtrip:
  assumes "\<forall>op. n_GraphID n = Some op \<longrightarrow> wf_hash (op_Txid op)"
    and "distinct order" "set order = dom (n_Inputs n)" "length order < 2 ^ 32" "fits (Node_Serialize order n)"
  shows "DeserializeNode (Node_Serialize order n) = Inr (node_read_back n)"
  using assms by (intro Node_roundtrip) auto

definition demo_node :: Node where
  "demo_node = \<lparr>n_GraphID = None, n_RawTx = [1, 2], n_OutputIndex = 3, n_Proof = [], n_TxMetadata = ''m'',
     n_OutputMetadata = [], n_Inputs = [''a'' \<mapsto> ''a'', ''b'' \<mapsto> ''b'']\<rparr>"

lemma demo_node_dom: "dom (n_Inputs demo_node) = {''a'', ''b''}"
  by (auto simp: demo_node_def)

lemma length_demo_node: "length (Node_Serialize [''b'', ''a''] demo_node) = 53"
proof -
  have "Node_Serialize [''b'', ''a''] demo_node = WireVersion # op_Txid (graph_id_or_zero None) @
    le_bytes 4 (op_Index (graph_id_or_zero None)) @ le_bytes 4 (3 :: u32) @
    appendByteField [] [1, 2] @ appendByteField [] [] @ appendByteField [] (bytes_of ''m'') @
    appendByteField [] [] @ append_uvarint 2 @ appendByteField [] (bytes_of ''b'') @ appendByteField [] (bytes_of ''a'')"
    by (subst Node_Serialize_eq) (auto simp: demo_node_def)
  moreover have "length (append_uvarint 0) = 1" "length (append_uvarint 1) = 1" "length (append_uvarint 2) = 1"
    by code_simp+
  ultimately show ?thesis by (simp add: appendByteField_eq graph_id_or_zero_def)
qed

theorem Node_wire_roundtrip_witness:
  "DeserializeNode (Node_Serialize [''b'', ''a''] demo_node) = Inr (node_read_back demo_node)"
proof (rule Node_wire_roundtrip)
  show "set [''b'', ''a''] = dom (n_Inputs demo_node)" by (auto simp: demo_node_dom)
  show "fits (Node_Serialize [''b'', ''a''] demo_node)" by (simp add: length_demo_node)
qed (simp_all add: demo_node_def)

text \<open>A node response survives the wire in every iteration order of its requested inputs.\<close>

theorem NodeResponse_wire_roundtrip:
  assumes "\<forall>op \<in> dom (RequestedInputs r). wf_hash (op_Txid op)"
    and "distinct order" "set order = dom (RequestedInputs r)" "fits (NodeResponse_Serialize order r)"
  shows "DeserializeNodeResponse (NodeResponse_Serialize order r) = Inr r"
  using assms by (intro NodeResponse_roundtrip) auto

definition demo_response :: NodeResponse where
  "demo_response = \<lparr>RequestedInputs = [\<lparr>op_Txid = zero_hash, op_Index = 1\<rparr> \<mapsto> True]\<rparr>"

theorem NodeResponse_wire_roundtrip_witness:
  "DeserializeNodeResponse (NodeResponse_Serialize [\<lparr>op_Txid = zero_hash, op_Index = 1\<rparr>] demo_response) = Inr demo_response"
proof (rule NodeResponse_wire_roundtrip)
  have "length (append_uvarint 1) = 1" by code_simp
  then show "fits (NodeResponse_Serialize [\<lparr>op_Txid = zero_hash, op_Index = 1\<rparr>] demo_response)"
    by (subst NodeResponse_Serialize_eq) (simp_all add: demo_response_def requested_entry_def)
qed (simp_all add: demo_response_def)

text \<open>An initial response survives the wire; bytes behind it are not noticed.\<close>

theorem InitialResponse_wire_roundtrip:
  assumes "list_all (\<lambda>out. wf_hash (o_Txid out)) (resp_UTXOList r)" "fits (InitialResponse_Serialize r @ post)"
  shows "DeserializeInitialResponse (InitialResponse_Serialize r @ post) = Inr r"
  using assms by (rule InitialResponse_roundtrip)

definition demo_initial_response :: InitialResponse where
  "demo_initial_response = \<lparr>resp_UTXOList = [\<lparr>o_Txid = zero_hash, o_OutputIndex = 1, o_Score = 5\<rparr>], resp_Since = 9\<rparr>"

theorem InitialResponse_wire_roundtrip_witness:
  "DeserializeInitialResponse (InitialResponse_Serialize demo_initial_response @ [7]) = Inr demo_initial_response"
proof (rule InitialResponse_wire_roundtrip)
  have "length (append_uvarint 1) = 1" by code_simp
  then show "fits (InitialResponse_Serialize demo_initial_response @ [7])"
    by (simp add: InitialResponse_Serialize_def demo_initial_response_def writeVersion_def appendOutputList_eq)
qed (simp add: demo_initial_response_def)

text \<open>
  C26: a node message whose first field announces a length of 2^63 or more passes the bound check and
  makes the decoder panic, whatever the other bytes are.
\<close>

theorem DeserializeNode_panics:
  assumes "length hdr = 40" "2 ^ 63 \<le> unat v" "fits (WireVersion # hdr @ append_uvarint v @ rest)"
  shows "DeserializeNode (WireVersion # hdr @ append_uvarint v @ rest) = Inl WirePanic"
  using assms by (rule DeserializeNode_overflow)

theorem DeserializeNode_panics_witness:
  "DeserializeNode (WireVersion # replicate 40 0 @ append_uvarint (2 ^ 63) @ []) = Inl WirePanic"
proof (rule DeserializeNode_panics)
  have "length (append_uvarint (2 ^ 63)) = 10" by code_simp
  then show "fits (WireVersion # replicate 40 0 @ append_uvarint (2 ^ 63) @ [])" by simp
qed simp_all

end
