(* ===== verification/Engine_Types.thy ===== *)
theory Engine_Types
  imports Admission_Contract Effects Gasp_Wire Basm_Proof
begin

text \<open>
  The data of the engine (\<^verbatim>\<open>pkg/core/engine/output.go\<close>, \<^verbatim>\<open>storage.go\<close>, \<^verbatim>\<open>topic-manager.go\<close>,
  \<^verbatim>\<open>lookup-service.go\<close> and the types of \<^verbatim>\<open>engine.go\<close> and \<^verbatim>\<open>admission_submit.go\<close>), its registries and its
  constructor. Interfaces are records of functions over the outside state; the SDK's BEEF container
  is an opaque type \<open>'b\<close> used through the functions of record \<open>sdk_tx\<close>.
\<close>

section \<open>Errors and results\<close>

datatype engine_error =
  ErrUnknownTopic | ErrInvalidBeef | ErrInvalidTransaction | ErrMissingInput | ErrMissingOutput
| ErrInputSpent | ErrMissingDependencyTx | ErrMissingBeef | ErrUnableToFindOutput
| ErrMissingSourceTransaction | ErrMissingTransaction | ErrNoDocumentationFound | ErrInvalidMerkleProof
| AdmissionError admission_error
| OtherError string \<comment> \<open>an error of a parameter, or one without a sentinel\<close>
| Panic \<comment> \<open>a run-time panic of the code\<close>
| NoFuel \<comment> \<open>a recursion deeper than the bound it was given\<close>

type_synonym ('w, 'a) op = "('w, engine_error, 'a) outside"

section \<open>Transactions and outputs\<close>

text \<open>
  The fields of the SDK's transactions that the code reads. The transactions of a parsed BEEF
  carry the id of every source transaction.
\<close>

record TxOutput =
  to_Satoshis :: u64
  to_LockingScript :: "byte list option"

datatype Tx =
  Tx (tx_Version: u32) (tx_Inputs: "TxInput list") (tx_Outputs: "TxOutput option list")
     (tx_LockTime: u32) (tx_MerklePath: "MerklePath option")
and TxInput =
  TxInput (in_SourceTXID: hash) (in_SourceTxOutIndex: u32) (in_UnlockingScript: "byte list option")
     (in_SequenceNumber: u32) (in_SourceTransaction: "Tx option")

datatype MerkleState =
  MerkleStateUnmined | MerkleStateValidated | MerkleStateInvalidated | MerkleStateImmutable
| OtherMerkleState u32

record 'b EOutput =
  eo_Outpoint :: Outpoint
  eo_Topic :: string
  eo_Spent :: bool
  eo_OutputsConsumed :: "Outpoint list"
  eo_ConsumedBy :: "Outpoint list"
  eo_BlockHeight :: u32
  eo_BlockIdx :: u64
  eo_Score :: float64
  eo_Beef :: "'b option"
  eo_AncillaryTxids :: "hash option list"
  eo_MerkleRoot :: "hash option"
  eo_MerkleState :: MerkleState

text \<open>
  The SDK's admittance instructions: nil and empty slices differ for the first two, because the
  propagation step compares them with nil.
\<close>

record Admittance =
  ad_OutputsToAdmit :: "u32 list option"
  ad_CoinsToRetain :: "u32 list option"
  ad_CoinsRemoved :: "u32 list option"
  ad_AncillaryTxids :: "hash option list"

definition zero_admittance :: Admittance where
  "zero_admittance = \<lparr>ad_OutputsToAdmit = None, ad_CoinsToRetain = None, ad_CoinsRemoved = None, ad_AncillaryTxids = []\<rparr>"

text \<open>The elements of a slice; a nil slice has none.\<close>

abbreviation elems :: "'a list option \<Rightarrow> 'a list" where
  "elems x \<equiv> (case x of None \<Rightarrow> [] | Some ys \<Rightarrow> ys)"

type_synonym Steak = "(string \<times> Admittance option) list"
type_synonym 'b inputs = "(u32 \<times> 'b EOutput) list"
type_synonym 'b topic_inputs = "(string \<times> 'b inputs) list"

text \<open>Entry of a map of maps; a missing key reads as the nil map.\<close>

definition inputs_of :: "'b topic_inputs \<Rightarrow> string \<Rightarrow> 'b inputs" where
  "inputs_of tis t = (case map_of tis t of None \<Rightarrow> [] | Some i \<Rightarrow> i)"

section \<open>Interfaces\<close>

record 'b sdk_tx =
  ParseBeef :: "byte list \<Rightarrow> engine_error + ('b \<times> Tx option \<times> hash option)"
  FindTransactionForSigningByHash :: "'b \<Rightarrow> hash \<Rightarrow> Tx option"
  FindTransactionByHash :: "'b \<Rightarrow> hash \<Rightarrow> Tx option"
  MergeBeef :: "'b \<Rightarrow> 'b \<Rightarrow> engine_error + 'b"
  AtomicBytes :: "'b \<Rightarrow> hash \<Rightarrow> engine_error + byte list"
  TxID :: "Tx \<Rightarrow> hash"
  TxBytes :: "Tx \<Rightarrow> byte list"
  TxBEEF :: "Tx \<Rightarrow> engine_error + byte list"
  TxAtomicBEEF :: "Tx \<Rightarrow> engine_error + byte list"
  ComputeRoot :: "MerklePath \<Rightarrow> hash option \<Rightarrow> engine_error + hash"
  PathBytes :: "MerklePath \<Rightarrow> byte list"
  NewMerklePathFromBinary :: "byte list \<Rightarrow> engine_error + MerklePath"

record 'w admissionHost =
  ah_Scope :: StorageScope
  ah_PublishPayload :: "AdmissionPayloadRef \<Rightarrow> byte list \<Rightarrow> ('w, unit) op"
  ah_CurrentHistoryFence :: "string \<Rightarrow> ('w, HistoryFence) op"
  ah_EnsureHistoryFence :: "string \<Rightarrow> HistoryFence \<Rightarrow> ('w, unit) op"

text \<open>
  \<open>st_any\<close> and \<open>st_host\<close> are the storage value seen by the two type assertions: as a provider
  of the admission capability and as an admission host.
\<close>

record ('w, 'b) Storage =
  st_InsertOutputs :: "string \<Rightarrow> hash \<Rightarrow> u32 list \<Rightarrow> Outpoint list \<Rightarrow> 'b \<Rightarrow> hash option list \<Rightarrow> ('w, unit) op"
  st_FindOutput :: "Outpoint \<Rightarrow> string option \<Rightarrow> bool option \<Rightarrow> bool \<Rightarrow> ('w, 'b EOutput option) op"
  st_FindOutputs :: "Outpoint list \<Rightarrow> string \<Rightarrow> bool option \<Rightarrow> bool \<Rightarrow> ('w, 'b EOutput option list) op"
  st_FindOutputsForTransaction :: "hash \<Rightarrow> bool \<Rightarrow> ('w, 'b EOutput list) op"
  st_FindUTXOsForTopic :: "string \<Rightarrow> float64 \<Rightarrow> u32 \<Rightarrow> bool \<Rightarrow> ('w, 'b EOutput list) op"
  st_DeleteOutput :: "Outpoint \<Rightarrow> string \<Rightarrow> ('w, unit) op"
  st_MarkUTXOsAsSpent :: "Outpoint list \<Rightarrow> string \<Rightarrow> hash \<Rightarrow> ('w, unit) op"
  st_UpdateConsumedBy :: "Outpoint \<Rightarrow> string \<Rightarrow> Outpoint list \<Rightarrow> ('w, unit) op"
  st_UpdateTransactionBEEF :: "hash \<Rightarrow> 'b \<Rightarrow> ('w, unit) op"
  st_UpdateOutputBlockHeight :: "Outpoint \<Rightarrow> string \<Rightarrow> u32 \<Rightarrow> u64 \<Rightarrow> ('w, unit) op"
  st_InsertAppliedTransaction :: "hash \<Rightarrow> string \<Rightarrow> ('w, unit) op"
  st_DoesAppliedTransactionExist :: "hash \<Rightarrow> string \<Rightarrow> ('w, bool) op"
  st_UpdateLastInteraction :: "string \<Rightarrow> string \<Rightarrow> float64 \<Rightarrow> ('w, unit) op"
  st_GetLastInteraction :: "string \<Rightarrow> string \<Rightarrow> ('w, float64) op"
  st_FindOutpointsByMerkleState :: "string \<Rightarrow> MerkleState \<Rightarrow> u32 \<Rightarrow> ('w, Outpoint list) op"
  st_LoadAncillaryBeef :: "'b EOutput \<Rightarrow> ('w, 'b EOutput) op"
  st_any :: "('w, engine_error) AdmissionStorage any any"
  st_host :: "'w admissionHost option"

record MetaData =
  md_Name :: string
  md_Description :: string
  md_Icon :: string
  md_Version :: string
  md_InfoUrl :: string

record ('w, 'b) TopicManager =
  tm_IdentifyAdmissibleOutputs :: "'b \<Rightarrow> hash \<Rightarrow> u32 list \<Rightarrow> ('w, Admittance) op"
  tm_IdentifyNeededInputs :: "'b \<Rightarrow> hash \<Rightarrow> ('w, Outpoint list) op"
  tm_GetDocumentation :: string
  tm_GetMetaData :: "MetaData option"

record OutputAdmittedByTopic =
  oa_Topic :: string
  oa_OutputIndex :: u32
  oa_AtomicBEEF :: "byte list"
  oa_OffChainValues :: "byte list"

record OutputSpent =
  os_Outpoint :: Outpoint
  os_Topic :: string
  os_SpendingTxid :: hash
  os_InputIndex :: u32
  os_UnlockingScript :: "byte list option"
  os_SequenceNumber :: u32
  os_SpendingAtomicBEEF :: "byte list"

text \<open>
  The SDK's lookup questions and answers. A formula names an output, with an optional selector of
  its history that sees the BEEF, the output index and the depth.
\<close>

record LookupQuestion =
  lq_Service :: string
  lq_Query :: "byte list"

record OutputListItem =
  li_Beef :: "byte list"
  li_OutputIndex :: u32

type_synonym 'b history_selector = "'b option \<Rightarrow> u32 \<Rightarrow> u32 \<Rightarrow> bool"

record 'b LookupFormula =
  lf_Outpoint :: Outpoint
  lf_History :: "'b history_selector option"

definition AnswerTypeOutputList :: string where
  "AnswerTypeOutputList = ''output-list''"

definition AnswerTypeFreeform :: string where
  "AnswerTypeFreeform = ''freeform''"

record 'b LookupAnswer =
  la_Type :: string
  la_Outputs :: "OutputListItem list"
  la_Formulas :: "'b LookupFormula list"
  la_Result :: string

record ('w, 'b) LookupService =
  ls_OutputAdmittedByTopic :: "OutputAdmittedByTopic \<Rightarrow> ('w, unit) op"
  ls_OutputSpent :: "OutputSpent \<Rightarrow> ('w, unit) op"
  ls_OutputNoLongerRetainedInHistory :: "Outpoint \<Rightarrow> string \<Rightarrow> ('w, unit) op"
  ls_OutputEvicted :: "Outpoint \<Rightarrow> ('w, unit) op"
  ls_OutputBlockHeightUpdated :: "hash \<Rightarrow> u32 \<Rightarrow> u64 \<Rightarrow> ('w, unit) op"
  ls_Lookup :: "LookupQuestion \<Rightarrow> ('w, 'b LookupAnswer) op"
  ls_GetDocumentation :: string
  ls_GetMetaData :: "MetaData option"

text \<open>Advertisements of hosted topics and services (\<^verbatim>\<open>pkg/core/advertiser/advertiser.go\<close>).\<close>

record Advertisement =
  av_Protocol :: string
  av_IdentityKey :: string
  av_Domain :: string
  av_TopicOrService :: string
  av_Beef :: "byte list"
  av_OutputIndex :: u32

record AdvertisementData =
  avd_Protocol :: string
  avd_TopicOrServiceName :: string

record TaggedBEEF =
  tb_Beef :: "byte list"
  tb_Topics :: "string list"
  tb_OffChainValues :: "byte list"

record 'w Advertiser =
  CreateAdvertisements :: "AdvertisementData list \<Rightarrow> ('w, TaggedBEEF) op"
  FindAllAdvertisements :: "string \<Rightarrow> ('w, Advertisement list) op"
  RevokeAdvertisements :: "Advertisement list \<Rightarrow> ('w, TaggedBEEF) op"
  ParseAdvertisement :: "byte list \<Rightarrow> ('w, Advertisement option) op"

record ('w, 'b) LookupResolverProvider =
  lr_SetSLAPTrackers :: "string list \<Rightarrow> 'w \<Rightarrow> 'w"
  lr_Query :: "LookupQuestion \<Rightarrow> ('w, 'b LookupAnswer) op"

section \<open>Effects\<close>

datatype effect =
  MarkSpent "Outpoint list" string hash
| NotifySpent OutputSpent
| BroadcastTx
| SteakReady Steak
| NotifyAdmission hash Steak
| DeleteEffect Outpoint string
| NotifyRemoved Outpoint string
| InsertEffect string hash "u32 list" "Outpoint list"
| NotifyAdmitted OutputAdmittedByTopic
| SetConsumedBy Outpoint string "Outpoint list"
| InsertApplied hash string
| Propagate "string list"
| PublishEffect AdmissionPayloadRef "byte list"
| EnsureFence string HistoryFence
| CommitEffect AdmissionCommit
| SetBEEF hash
| SetBlockHeight Outpoint string u32 u64
| NotifyHeight hash u32 u64
| SetLastInteraction string string float64
| CreateAds "AdvertisementData list"
| RevokeAds "Advertisement list"

text \<open>The effects that write to the legacy storage.\<close>

fun legacy_write :: "effect \<Rightarrow> bool" where
  "legacy_write (MarkSpent _ _ _) = True"
| "legacy_write (DeleteEffect _ _) = True"
| "legacy_write (InsertEffect _ _ _ _) = True"
| "legacy_write (SetConsumedBy _ _ _) = True"
| "legacy_write (InsertApplied _ _) = True"
| "legacy_write (SetBEEF _) = True"
| "legacy_write (SetBlockHeight _ _ _ _) = True"
| "legacy_write (SetLastInteraction _ _ _) = True"
| "legacy_write _ = False"

type_synonym ('w, 'a) eng = "('w, effect, engine_error, 'a) em"

section \<open>The engine\<close>

type_synonym SumbitMode = string

definition SubmitModeHistorical :: SumbitMode where
  "SubmitModeHistorical = ''historical-tx''"

definition SubmitModeCurrent :: SumbitMode where
  "SubmitModeCurrent = ''current-tx''"

type_synonym SyncConfigurationType = int

definition SyncConfigurationPeers :: SyncConfigurationType where
  "SyncConfigurationPeers = 0"

definition SyncConfigurationSHIP :: SyncConfigurationType where
  "SyncConfigurationSHIP = 1"

definition SyncConfigurationNone :: SyncConfigurationType where
  "SyncConfigurationNone = 2"

record SyncConfiguration =
  sc_Type :: SyncConfigurationType
  sc_Peers :: "string list"
  sc_Concurrency :: int

text \<open>The value a Go map lookup gives for a missing key.\<close>

definition zero_sync :: SyncConfiguration where
  "zero_sync = \<lparr>sc_Type = SyncConfigurationPeers, sc_Peers = [], sc_Concurrency = 0\<rparr>"

text \<open>
  \<open>Verify\<close> is the SDK's SPV check with the engine's chain tracker; \<open>Propagation\<close> builds the SDK's
  topic broadcaster for the given topics and SLAP trackers and sends the transaction, whose
  outcome the code only logs. \<open>range_seed\<close> picks the order of the next range over a map.
\<close>

record ('w, 'b) Engine =
  managers :: "(string \<times> ('w, 'b) TopicManager option) list"
  lookupServices :: "(string \<times> ('w, 'b) LookupService) list"
  en_Storage :: "('w, 'b) Storage"
  en_IsValidRootForHeight :: "hash \<Rightarrow> u32 \<Rightarrow> ('w, bool) op"
  en_Verify :: "Tx \<Rightarrow> ('w, bool) op"
  en_HostingURL :: string
  en_SHIPTrackers :: "string list"
  en_SLAPTrackers :: "string list"
  en_Broadcaster :: "(Tx \<Rightarrow> ('w, unit) op) option"
  en_Propagation :: "(string list \<Rightarrow> string list \<Rightarrow> Tx \<Rightarrow> ('w, unit) op) option"
  en_Advertiser :: "'w Advertiser option"
  en_LookupResolver :: "('w, 'b) LookupResolverProvider"
  en_SyncConfiguration :: "(string \<times> SyncConfiguration) list"
  en_OnAdmission :: "(hash \<Rightarrow> Steak \<Rightarrow> byte list \<Rightarrow> 'w \<Rightarrow> 'w) option"
  range_seed :: "'w \<Rightarrow> nat list \<times> 'w"
  sdk_of :: "'b sdk_tx"

definition callback :: "('w \<Rightarrow> 'w) \<Rightarrow> ('w, unit) op" where
  "callback f = (\<lambda>w. (Inr (), f w))"

subsection \<open>Registries\<close>

definition RegisterTopicManager :: "('w, 'b) Engine \<Rightarrow> string \<Rightarrow> ('w, 'b) TopicManager option \<Rightarrow> ('w, 'b) Engine" where
  "RegisterTopicManager e name m = e\<lparr>managers := AList.update name m (managers e)\<rparr>"

definition UnregisterTopicManager :: "('w, 'b) Engine \<Rightarrow> string \<Rightarrow> ('w, 'b) Engine" where
  "UnregisterTopicManager e name = e\<lparr>managers := AList.delete name (managers e)\<rparr>"

definition GetTopicManager :: "('w, 'b) Engine \<Rightarrow> string \<Rightarrow> ('w, 'b) TopicManager option option" where
  "GetTopicManager e name = map_of (managers e) name"

definition HasTopicManager :: "('w, 'b) Engine \<Rightarrow> string \<Rightarrow> bool" where
  "HasTopicManager e name = (map_of (managers e) name \<noteq> None)"

definition RegisterLookupService :: "('w, 'b) Engine \<Rightarrow> string \<Rightarrow> ('w, 'b) LookupService \<Rightarrow> ('w, 'b) Engine" where
  "RegisterLookupService e name l = e\<lparr>lookupServices := AList.update name l (lookupServices e)\<rparr>"

definition UnregisterLookupService :: "('w, 'b) Engine \<Rightarrow> string \<Rightarrow> ('w, 'b) Engine" where
  "UnregisterLookupService e name = e\<lparr>lookupServices := AList.delete name (lookupServices e)\<rparr>"

definition GetLookupService :: "('w, 'b) Engine \<Rightarrow> string \<Rightarrow> ('w, 'b) LookupService option" where
  "GetLookupService e name = map_of (lookupServices e) name"

definition HasLookupService :: "('w, 'b) Engine \<Rightarrow> string \<Rightarrow> bool" where
  "HasLookupService e name = (map_of (lookupServices e) name \<noteq> None)"

definition getLookupServicesSnapshot :: "('w, 'b) Engine \<Rightarrow> ('w, ('w, 'b) LookupService list) eng" where
  "getLookupServicesSnapshot e = ebind (erange (range_seed e) (lookupServices e)) (\<lambda>ls. eret (map snd ls))"

definition GetDocumentationForTopicManager :: "('w, 'b) Engine \<Rightarrow> string \<Rightarrow> engine_error + string" where
  "GetDocumentationForTopicManager e name =
     (case GetTopicManager e name of
        None \<Rightarrow> Inl ErrNoDocumentationFound
      | Some None \<Rightarrow> Inl Panic
      | Some (Some m) \<Rightarrow> Inr (tm_GetDocumentation m))"

definition GetDocumentationForLookupServiceProvider :: "('w, 'b) Engine \<Rightarrow> string \<Rightarrow> engine_error + string" where
  "GetDocumentationForLookupServiceProvider e name =
     (case GetLookupService e name of
        None \<Rightarrow> Inl ErrNoDocumentationFound
      | Some l \<Rightarrow> Inr (ls_GetDocumentation l))"

text \<open>A nil manager is a panic, as its metadata is read through it.\<close>

fun list_metadata :: "(string \<times> ('w, 'b) TopicManager option) list \<Rightarrow> engine_error + (string \<times> MetaData option) list" where
  "list_metadata [] = Inr []"
| "list_metadata ((name, manager) # ms) =
     (case manager of
        None \<Rightarrow> Inl Panic
      | Some tm \<Rightarrow> rbind (list_metadata ms) (\<lambda>rest. Inr ((name, tm_GetMetaData tm) # rest)))"

definition ListTopicManagers :: "('w, 'b) Engine \<Rightarrow> engine_error + (string \<times> MetaData option) list" where
  "ListTopicManagers e = list_metadata (managers e)"

definition ListLookupServiceProviders :: "('w, 'b) Engine \<Rightarrow> (string \<times> MetaData option) list" where
  "ListLookupServiceProviders e = map (\<lambda>(name, provider). (name, ls_GetMetaData provider)) (lookupServices e)"

lemma emits_snapshot [emits_intros]: "emits P (getLookupServicesSnapshot e)"
  unfolding getLookupServicesSnapshot_def by (intro emits_intros)

subsection \<open>Construction\<close>

text \<open>The two peer lists as a set; the result lists the set in the order of a range over it.\<close>

definition mergePeers :: "nat list \<Rightarrow> string list \<Rightarrow> string list \<Rightarrow> string list" where
  "mergePeers seed trackers existing =
     permute seed (map fst (fold (\<lambda>p m. AList.update p () m) existing (fold (\<lambda>p m. AList.update p () m) trackers [])))"

text \<open>
  The loop over the configured managers: a manager without an entry reads the zero
  configuration, whose type is peers.
\<close>

fun process_sync :: "(string \<Rightarrow> nat list) \<Rightarrow> string list \<Rightarrow> string list \<Rightarrow>
    (string \<times> ('w, 'b) TopicManager option) list \<Rightarrow> (string \<times> SyncConfiguration) list \<Rightarrow> (string \<times> SyncConfiguration) list" where
  "process_sync seeds ship slap [] sync = sync"
| "process_sync seeds ship slap ((name, manager) # ms) sync =
     (let config = (case map_of sync name of None \<Rightarrow> zero_sync | Some c \<Rightarrow> c) in
      if manager = None \<or> sc_Type config \<noteq> SyncConfigurationPeers then process_sync seeds ship slap ms sync
      else if name = ''tm_ship'' \<and> ship \<noteq> [] then
        process_sync seeds ship slap ms (AList.update name (config\<lparr>sc_Peers := mergePeers (seeds name) ship (sc_Peers config)\<rparr>) sync)
      else if name = ''tm_slap'' \<and> slap \<noteq> [] then
        process_sync seeds ship slap ms (AList.update name (config\<lparr>sc_Peers := mergePeers (seeds name) slap (sc_Peers config)\<rparr>) sync)
      else process_sync seeds ship slap ms sync)"

text \<open>The configuration has the fields of the engine; a nil sync map is the empty one.\<close>

definition NewEngine :: "(string \<Rightarrow> nat list) \<Rightarrow> ('w, 'b) Engine \<Rightarrow> ('w, 'b) Engine" where
  "NewEngine seeds cfg =
     cfg\<lparr>en_OnAdmission := None,
         managers := fold (\<lambda>(n, m) al. AList.update n m al) (managers cfg) [],
         lookupServices := fold (\<lambda>(n, m) al. AList.update n m al) (lookupServices cfg) [],
         en_SyncConfiguration := process_sync seeds (en_SHIPTrackers cfg) (en_SLAPTrackers cfg) (managers cfg) (en_SyncConfiguration cfg)\<rparr>"

lemma dom_insert_all:
  "map_of (fold (\<lambda>p m. AList.update p () m) ps al) = map_of al ++ (\<lambda>x. if x \<in> set ps then Some () else None)"
  by (induction ps arbitrary: al) (auto simp: fun_eq_iff map_add_def AList.update_conv' split: option.splits)

lemma set_mergePeers: "set (mergePeers seed a b) = set a \<union> set b"
proof -
  let ?m = "fold (\<lambda>p m. AList.update p () m) b (fold (\<lambda>p m. AList.update p () m) a [])"
  have "fst ` set ?m = dom (map_of ?m)" by (rule dom_map_of_conv_image_fst[symmetric])
  also have "\<dots> = set a \<union> set b" by (auto simp: dom_insert_all map_add_def split: option.splits if_splits)
  finally show ?thesis by (simp add: mergePeers_def)
qed

lemma distinct_insert_all: "distinct (map fst al) \<Longrightarrow> distinct (map fst (fold (\<lambda>p m. AList.update p () m) ps al))"
  by (induction ps arbitrary: al) (auto simp: AList.distinct_update)

lemma distinct_mergePeers: "distinct (mergePeers seed a b)"
proof -
  have "distinct (map fst (fold (\<lambda>p m. AList.update p () m) b (fold (\<lambda>p m. AList.update p () m) a [])))"
    by (intro distinct_insert_all) simp
  then show ?thesis unfolding mergePeers_def by (metis mset_permute mset_eq_imp_distinct_iff)
qed

section \<open>A small instance\<close>

text \<open>
  Parameters for concrete runs: an SDK whose container is the transaction itself, a storage that
  holds nothing and accepts every write, a topic manager that admits output 0.
\<close>

definition demo_txid :: hash where
  "demo_txid = replicate 32 0"

definition demo_tx :: Tx where
  "demo_tx = Tx 1 [TxInput demo_txid 0 None 0 None] [Some \<lparr>to_Satoshis = 7, to_LockingScript = Some [1, 2]\<rparr>] 0 None"

definition demo_sdk :: "Tx sdk_tx" where
  "demo_sdk = \<lparr>ParseBeef = \<lambda>_. Inr (demo_tx, Some demo_tx, Some demo_txid),
     FindTransactionForSigningByHash = \<lambda>b _. Some b, FindTransactionByHash = \<lambda>b _. Some b, MergeBeef = \<lambda>a b. Inr a,
     AtomicBytes = \<lambda>_ _. Inr [1], TxID = \<lambda>_. demo_txid, TxBytes = \<lambda>_. [1], TxBEEF = \<lambda>_. Inr [1], TxAtomicBEEF = \<lambda>_. Inr [1],
     ComputeRoot = \<lambda>_ _. Inr demo_txid, PathBytes = \<lambda>_. [1],
     NewMerklePathFromBinary = \<lambda>_. Inr \<lparr>mp_BlockHeight = 0, mp_Path = [[]]\<rparr>\<rparr>"

definition demo_storage :: "(unit, Tx) Storage" where
  "demo_storage = \<lparr>st_InsertOutputs = \<lambda>_ _ _ _ _ _ w. (Inr (), w), st_FindOutput = \<lambda>_ _ _ _ w. (Inr None, w),
     st_FindOutputs = \<lambda>ops _ _ _ w. (Inr (map (\<lambda>_. None) ops), w), st_FindOutputsForTransaction = \<lambda>_ _ w. (Inr [], w),
     st_FindUTXOsForTopic = \<lambda>_ _ _ _ w. (Inr [], w), st_DeleteOutput = \<lambda>_ _ w. (Inr (), w),
     st_MarkUTXOsAsSpent = \<lambda>_ _ _ w. (Inr (), w), st_UpdateConsumedBy = \<lambda>_ _ _ w. (Inr (), w),
     st_UpdateTransactionBEEF = \<lambda>_ _ w. (Inr (), w), st_UpdateOutputBlockHeight = \<lambda>_ _ _ _ w. (Inr (), w),
     st_InsertAppliedTransaction = \<lambda>_ _ w. (Inr (), w), st_DoesAppliedTransactionExist = \<lambda>_ _ w. (Inr False, w),
     st_UpdateLastInteraction = \<lambda>_ _ _ w. (Inr (), w), st_GetLastInteraction = \<lambda>_ _ w. (Inr 0, w),
     st_FindOutpointsByMerkleState = \<lambda>_ _ _ w. (Inr [], w), st_LoadAncillaryBeef = \<lambda>o1 w. (Inr o1, w),
     st_any = AnyNil, st_host = None\<rparr>"

definition demo_manager :: "(unit, Tx) TopicManager" where
  "demo_manager = \<lparr>tm_IdentifyAdmissibleOutputs = \<lambda>_ _ _ w. (Inr (zero_admittance\<lparr>ad_OutputsToAdmit := Some [0]\<rparr>), w),
     tm_IdentifyNeededInputs = \<lambda>_ _ w. (Inr [], w), tm_GetDocumentation = ''doc'',
     tm_GetMetaData = None\<rparr>"

definition demo_resolver :: "(unit, Tx) LookupResolverProvider" where
  "demo_resolver = \<lparr>lr_SetSLAPTrackers = \<lambda>_ w. w,
     lr_Query = \<lambda>_ w. (Inr \<lparr>la_Type = AnswerTypeOutputList, la_Outputs = [], la_Formulas = [], la_Result = ''''\<rparr>, w)\<rparr>"

definition demo_engine :: "(unit, Tx) Engine" where
  "demo_engine = \<lparr>managers = [(''tm_a'', Some demo_manager)], lookupServices = [], en_Storage = demo_storage,
     en_IsValidRootForHeight = \<lambda>_ _ w. (Inr True, w), en_Verify = \<lambda>_ w. (Inr True, w), en_HostingURL = ''https://a'',
     en_SHIPTrackers = [], en_SLAPTrackers = [], en_Broadcaster = Some (\<lambda>_ w. (Inr (), w)),
     en_Propagation = Some (\<lambda>_ _ _ w. (Inr (), w)), en_Advertiser = None,
     en_LookupResolver = demo_resolver, en_SyncConfiguration = [], en_OnAdmission = None,
     range_seed = \<lambda>w. ([], w), sdk_of = demo_sdk\<rparr>"

lemmas demo_defs = demo_engine_def demo_resolver_def demo_manager_def demo_storage_def demo_sdk_def

end
