(* ===== verification/Admission_Submit.thy ===== *)
theory Admission_Submit
  imports Engine_Types
begin

text \<open>
  Submission through the admission capability, \<^verbatim>\<open>pkg/core/engine/admission_submit.go\<close>: the plan that
  is built for one transaction, the payloads published before it, the operation id, and the
  translation of the provider's result. The two helpers of \<^verbatim>\<open>engine.go\<close> it shares with the legacy
  path come first.
\<close>

section \<open>Steps shared with the legacy path\<close>

record ('w, 'b) submit_params =
  p_Beef :: 'b
  p_Txid :: hash
  p_Topics :: "string list"
  p_AtomicBeef :: "byte list"
  p_OffChainValues :: "byte list"
  p_Mode :: SumbitMode
  p_OnSteakReady :: "(Steak \<Rightarrow> 'w \<Rightarrow> 'w) option"

definition broadcastIfNeeded :: "('w, 'b) Engine \<Rightarrow> Tx \<Rightarrow> SumbitMode \<Rightarrow> ('w, unit) eng" where
  "broadcastIfNeeded e tx mode =
     (if mode = SubmitModeHistorical then eret ()
      else case en_Broadcaster e of
        None \<Rightarrow> eret ()
      | Some broadcast \<Rightarrow> ecall BroadcastTx (broadcast tx))"

text \<open>
  The retained outputs, and the map without them: the code deletes them from the caller's map
  while it ranges over it.
\<close>

definition separateRetainedCoins :: "('w, 'b) Engine \<Rightarrow> 'b inputs \<Rightarrow> u32 list \<Rightarrow>
    ('w, 'b EOutput list \<times> Outpoint list \<times> 'b inputs) eng" where
  "separateRetainedCoins e topicInputs coinsToRetain =
     (if topicInputs = [] \<or> coinsToRetain = [] then eret ([], [], topicInputs)
      else ebind (erange (range_seed e) topicInputs) (\<lambda>order.
        let retained = filter (\<lambda>(vin, _). vin \<in> set coinsToRetain) order in
        eret (map snd retained, map (\<lambda>(_, o1). eo_Outpoint o1) retained,
              filter (\<lambda>(vin, _). vin \<notin> set coinsToRetain) topicInputs)))"

section \<open>Digests\<close>

definition writeFramedField :: "string \<Rightarrow> string" where
  "writeFramedField field = format_uint (length field) @ '':'' @ field"

definition admissionOperationIDDomain :: string where
  "admissionOperationIDDomain = ''overlay-admission-operation-id-v1''"

text \<open>The loop with the \<open>seen\<close> set: the first occurrence of every topic stays.\<close>

fun dedupe :: "string list \<Rightarrow> string list \<Rightarrow> string list" where
  "dedupe seen [] = []"
| "dedupe seen (t # ts) = (if t \<in> set seen then dedupe seen ts else t # dedupe (t # seen) ts)"

definition operation_fields :: "AdmissionMode \<Rightarrow> string \<Rightarrow> string list \<Rightarrow> string list" where
  "operation_fields mode txid topics = [admissionOperationIDDomain, mode, txid] @ sort (dedupe [] topics)"

definition operation_bytes :: "AdmissionMode \<Rightarrow> string \<Rightarrow> string list \<Rightarrow> byte list" where
  "operation_bytes mode txid topics = bytes_of (concat (map writeFramedField (operation_fields mode txid topics)))"

definition admissionOperationID :: "AdmissionMode \<Rightarrow> string \<Rightarrow> string list \<Rightarrow> string" where
  "admissionOperationID mode txid topics = hex_encode (sha256 (operation_bytes mode txid topics))"

definition contextDigest :: "byte list \<Rightarrow> string" where
  "contextDigest values = hex_encode (sha256 values)"

definition admissionOutpointFrom :: "Outpoint \<Rightarrow> AdmissionOutpoint" where
  "admissionOutpointFrom o1 = \<lparr>ao_TxID = hex_encode (op_Txid o1), ao_OutputIndex = format_uint (unat (op_Index o1))\<rparr>"

definition copyTopicInputs :: "'b inputs \<Rightarrow> 'b inputs" where
  "copyTopicInputs inputs = inputs"

section \<open>Payloads\<close>

record admissionPayloads =
  ap_raw :: AdmissionPayloadRef
  ap_scripts :: "(u32 \<times> AdmissionPayloadRef) list"

definition payload_ref :: "byte list \<Rightarrow> AdmissionPayloadKind \<Rightarrow> AdmissionPayloadRef" where
  "payload_ref bs kind = \<lparr>pr_Digest = hex_encode (sha256 bs), pr_ByteLength = format_uint (length bs), pr_Kind = kind\<rparr>"

definition publishBytes :: "'w admissionHost \<Rightarrow> byte list \<Rightarrow> AdmissionPayloadKind \<Rightarrow> ('w, AdmissionPayloadRef) eng" where
  "publishBytes host bs kind =
     (let ref = payload_ref bs kind in
      ebind (ecall (PublishEffect ref bs) (ah_PublishPayload host ref bs)) (\<lambda>_. eret ref))"

text \<open>\<open>tx.Outputs[vout]\<close> behind the guard \<open>int(vout) >= len(tx.Outputs) || tx.Outputs[vout] == nil\<close>.\<close>

definition tx_output_at :: "Tx \<Rightarrow> u32 \<Rightarrow> TxOutput option" where
  "tx_output_at tx vout = (if length (tx_Outputs tx) \<le> unat vout then None else tx_Outputs tx ! unat vout)"

definition output_script :: "Tx \<Rightarrow> u32 \<Rightarrow> byte list option" where
  "output_script tx vout = (case tx_output_at tx vout of None \<Rightarrow> None | Some o1 \<Rightarrow> to_LockingScript o1)"

definition publish_script :: "'w admissionHost \<Rightarrow> Tx \<Rightarrow> u32 \<Rightarrow>
    AdmissionPayloadRef list \<times> (u32 \<times> AdmissionPayloadRef) list \<Rightarrow>
    ('w, AdmissionPayloadRef list \<times> (u32 \<times> AdmissionPayloadRef) list) eng" where
  "publish_script host tx vout = (\<lambda>(payloads, scripts).
     case output_script tx vout of
       None \<Rightarrow> eret (payloads, scripts)
     | Some script \<Rightarrow>
         if map_of scripts vout \<noteq> None then eret (payloads, scripts)
         else ebind (publishBytes host script AdmissionPayloadLockingScript) (\<lambda>ref.
           eret (payloads @ [ref], AList.update vout ref scripts)))"

definition publish_scripts :: "'w admissionHost \<Rightarrow> Tx \<Rightarrow> string \<times> Admittance option \<Rightarrow>
    AdmissionPayloadRef list \<times> (u32 \<times> AdmissionPayloadRef) list \<Rightarrow>
    ('w, AdmissionPayloadRef list \<times> (u32 \<times> AdmissionPayloadRef) list) eng" where
  "publish_scripts host tx entry acc =
     (case snd entry of
        None \<Rightarrow> eret acc
      | Some admit \<Rightarrow> efold (publish_script host tx) (elems (ad_OutputsToAdmit admit)) acc)"

definition publishAdmissionPayloads :: "('w, 'b) Engine \<Rightarrow> 'w admissionHost \<Rightarrow> ('w, 'b) submit_params \<Rightarrow> Tx \<Rightarrow> Steak \<Rightarrow>
    ('w, AdmissionPayloadRef list \<times> admissionPayloads) eng" where
  "publishAdmissionPayloads e host p tx steak =
     ebind (publishBytes host (TxBytes (sdk_of e) tx) AdmissionPayloadRawTransaction) (\<lambda>raw.
     ebind (erange (range_seed e) steak) (\<lambda>order.
     ebind (efold (publish_scripts host tx) order ([raw], [])) (\<lambda>(payloads, scripts).
     if 0 < length (p_AtomicBeef p) then
       ebind (publishBytes host (p_AtomicBeef p) AdmissionPayloadBEEFManifest) (\<lambda>beefRef.
         eret (payloads @ [beefRef], \<lparr>ap_raw = raw, ap_scripts = scripts\<rparr>))
     else eret (payloads, \<lparr>ap_raw = raw, ap_scripts = scripts\<rparr>))))"

section \<open>Topic decisions\<close>

definition admissionSpends :: "('w, 'b) Engine \<Rightarrow> 'b inputs \<Rightarrow> string \<Rightarrow> ('w, AdmissionSpend list) eng" where
  "admissionSpends e inputs spender =
     ebind (erange (range_seed e) inputs) (\<lambda>order.
       eret (map (\<lambda>(_, output). \<lparr>sp_Outpoint = admissionOutpointFrom (eo_Outpoint output),
                                sp_ExpectedVersion = ''1'', sp_Spender = spender\<rparr>) order))"

definition admissionAncillaryIDs :: "Admittance \<Rightarrow> string list" where
  "admissionAncillaryIDs admit = map hex_encode (List.map_filter id (ad_AncillaryTxids admit))"

definition admittedOutputValue :: "Tx \<Rightarrow> u32 \<Rightarrow> AdmissionPayloadRef \<Rightarrow> StorageUint64 \<times> StorageUint64" where
  "admittedOutputValue tx vout scriptRef =
     (case tx_output_at tx vout of
        None \<Rightarrow> (''0'', pr_ByteLength scriptRef)
      | Some o1 \<Rightarrow>
          (format_uint (unat (to_Satoshis o1)),
           case to_LockingScript o1 of None \<Rightarrow> pr_ByteLength scriptRef | Some s \<Rightarrow> format_uint (length s)))"

definition admissionOutputs :: "Tx \<Rightarrow> string \<Rightarrow> Admittance \<Rightarrow> admissionPayloads \<Rightarrow> AdmissionOutput list" where
  "admissionOutputs tx txid admit payloads =
     map (\<lambda>vout.
       let scriptRef = (case map_of (ap_scripts payloads) vout of None \<Rightarrow> ap_raw payloads | Some r \<Rightarrow> r);
           (satoshis, scriptLen) = admittedOutputValue tx vout scriptRef
       in \<lparr>out_AdmissionOutpoint = \<lparr>ao_TxID = txid, ao_OutputIndex = format_uint (unat vout)\<rparr>,
           out_Satoshis = satoshis, out_Score = ''0'',
           out_Script = \<lparr>sr_Payload = scriptRef, sr_Offset = ''0'', sr_ByteLength = scriptLen\<rparr>,
           out_Ancillary = admissionAncillaryIDs admit\<rparr>)
       (elems (ad_OutputsToAdmit admit))"

definition admissionEdges :: "Outpoint list \<Rightarrow> AdmissionOutput list \<Rightarrow> AdmissionEdge list" where
  "admissionEdges sources outputs =
     concat (map (\<lambda>source. map (\<lambda>output. \<lparr>ed_Source = admissionOutpointFrom source,
       ed_Consumer = out_AdmissionOutpoint output\<rparr>) outputs) sources)"

definition buildTopicDecision :: "('w, 'b) Engine \<Rightarrow> 'w admissionHost \<Rightarrow> ('w, 'b) submit_params \<Rightarrow> Tx \<Rightarrow> string \<Rightarrow>
    Admittance option \<Rightarrow> 'b inputs \<Rightarrow> admissionPayloads \<Rightarrow> ('w, AdmissionTopicDecision) eng" where
  "buildTopicDecision e host p tx topic admit0 inputs payloads =
     (let admit = (case admit0 of None \<Rightarrow> zero_admittance | Some a \<Rightarrow> a) in
      ebind (eread (ah_CurrentHistoryFence host topic)) (\<lambda>fence.
      ebind (ecall (EnsureFence topic fence) (ah_EnsureHistoryFence host topic fence)) (\<lambda>_.
      let txid = hex_encode (p_Txid p); outputs = admissionOutputs tx txid admit payloads in
      ebind (separateRetainedCoins e (copyTopicInputs inputs) (elems (ad_CoinsToRetain admit))) (\<lambda>(_, consumed, _).
      ebind (admissionSpends e inputs txid) (\<lambda>spends.
      eret \<lparr>td_Topic = topic, td_ExpectedHistory = fence, td_Reads = [], td_Spends = spends, td_Evictions = [],
            td_Outputs = outputs, td_Edges = admissionEdges consumed outputs,
            td_Applied = \<lparr>aa_TxID = txid, aa_FirstSeenHeight = None, aa_Proof = None, aa_Block = None\<rparr>,
            td_HistoryUpdate = None\<rparr>)))))"

section \<open>The saved answer\<close>

text \<open>
  The JSON document of the answer has one entry per topic, with nil lists replaced by empty ones.
  \<open>encoding/json\<close> on it is the pair of parameters \<open>marshal\<close> and \<open>unmarshal\<close>; the decoder distinguishes
  a missing or null list (nil) from a list.
\<close>

record steakJSONEntry =
  sj_OutputsToAdmit :: "u32 list option"
  sj_CoinsToRetain :: "u32 list option"
  sj_CoinsRemoved :: "u32 list option"

record json_codec =
  marshal :: "(string \<times> steakJSONEntry) list \<Rightarrow> engine_error + string"
  unmarshal :: "string \<Rightarrow> engine_error + (string \<times> steakJSONEntry) list"

definition steak_entry :: "Admittance option \<Rightarrow> steakJSONEntry" where
  "steak_entry a =
     (case a of
        None \<Rightarrow> \<lparr>sj_OutputsToAdmit = Some [], sj_CoinsToRetain = Some [], sj_CoinsRemoved = Some []\<rparr>
      | Some admit \<Rightarrow> \<lparr>sj_OutputsToAdmit = Some (elems (ad_OutputsToAdmit admit)),
                       sj_CoinsToRetain = Some (elems (ad_CoinsToRetain admit)),
                       sj_CoinsRemoved = Some (elems (ad_CoinsRemoved admit))\<rparr>)"

definition encodeSteakJSON :: "json_codec \<Rightarrow> Steak \<Rightarrow> engine_error + string" where
  "encodeSteakJSON json steak = marshal json (map (\<lambda>(topic, admit). (topic, steak_entry admit)) steak)"

definition parseSavedSteak :: "json_codec \<Rightarrow> string \<Rightarrow> engine_error + Steak" where
  "parseSavedSteak json raw =
     rbind (unmarshal json raw) (\<lambda>doc.
       Inr (map (\<lambda>(topic, entry). (topic, Some \<lparr>ad_OutputsToAdmit = sj_OutputsToAdmit entry,
         ad_CoinsToRetain = sj_CoinsToRetain entry, ad_CoinsRemoved = sj_CoinsRemoved entry, ad_AncillaryTxids = []\<rparr>)) doc))"

section \<open>The plan\<close>

definition admission_mode :: "SumbitMode \<Rightarrow> AdmissionMode" where
  "admission_mode mode = (if mode = SubmitModeHistorical then AdmissionModeHistorical else AdmissionModeLive)"

definition plan_identity :: "'w admissionHost \<Rightarrow> ('w, 'b) submit_params \<Rightarrow> AdmissionIdentity" where
  "plan_identity host p =
     \<lparr>ai_Scope = ah_Scope host, ai_TxID = hex_encode (p_Txid p), ai_Mode = admission_mode (p_Mode p),
      ai_ContextDigest = contextDigest (p_OffChainValues p),
      ai_Topics = map (\<lambda>t. \<lparr>at_Topic = t, at_PolicyID = t\<rparr>) (dedupe [] (p_Topics p))\<rparr>"

definition plan_outbox :: "AdmissionMode \<Rightarrow> string \<Rightarrow> AdmissionPayloadRef \<Rightarrow> string list \<Rightarrow> AdmissionOutboxIntent list" where
  "plan_outbox mode operationID raw lookupNames =
     (if mode = AdmissionModeLive
      then [\<lparr>oi_EventID = operationID @ '':propagate'', oi_Kind = AdmissionOutboxPropagation,
             oi_Target = ''overlay-network'', oi_Payloads = [raw]\<rparr>] else []) @
     map (\<lambda>name. \<lparr>oi_EventID = operationID @ '':lookup:'' @ name, oi_Kind = AdmissionOutboxLookup,
                  oi_Target = name, oi_Payloads = [raw]\<rparr>) lookupNames"

definition buildAdmissionPlan :: "json_codec \<Rightarrow> ('w, 'b) Engine \<Rightarrow> 'w admissionHost \<Rightarrow> ('w, 'b) submit_params \<Rightarrow> Tx \<Rightarrow>
    Steak \<Rightarrow> 'b topic_inputs \<Rightarrow> ('w, AdmissionCommit) eng" where
  "buildAdmissionPlan json e host p tx steak topicInputs =
     (let mode = admission_mode (p_Mode p); identity = plan_identity host p in
      ebind (elift (map_error AdmissionError (AdmissionSemanticDigest identity))) (\<lambda>digest.
      ebind (publishAdmissionPayloads e host p tx steak) (\<lambda>(payloads, payloadIndex).
      ebind (efold (\<lambda>topic decisions.
          ebind (buildTopicDecision e host p tx (at_Topic topic)
                   (case map_of steak (at_Topic topic) of None \<Rightarrow> None | Some a \<Rightarrow> a)
                   (inputs_of topicInputs (at_Topic topic)) payloadIndex) (\<lambda>d. eret (decisions @ [d])))
          (ai_Topics identity) []) (\<lambda>decisions.
      let operationID = admissionOperationID mode (ai_TxID identity) (map at_Topic (ai_Topics identity)) in
      ebind (erange (range_seed e) (map fst (lookupServices e))) (\<lambda>lookupNames.
      ebind (elift (encodeSteakJSON json steak)) (\<lambda>encodedSteak.
      eret \<lparr>ac_Key = \<lparr>ok_Scope = ai_Scope identity, ok_OperationID = operationID, ok_SemanticDigest = digest\<rparr>,
            ac_Identity = identity, ac_Payloads = payloads, ac_Decisions = decisions,
            ac_Outbox = plan_outbox mode operationID (ap_raw payloadIndex) lookupNames,
            ac_Steak = encodedSteak\<rparr>))))))"

section \<open>Submission\<close>

text \<open>The two callbacks after a successful submission.\<close>

definition notify_submitted :: "('w, 'b) Engine \<Rightarrow> ('w, 'b) submit_params \<Rightarrow> Steak \<Rightarrow> ('w, unit) eng" where
  "notify_submitted e p steak =
     ebind (case p_OnSteakReady p of None \<Rightarrow> eret () | Some f \<Rightarrow> ecall (SteakReady steak) (callback (f steak))) (\<lambda>_.
       if p_Mode p = SubmitModeHistorical then eret ()
       else case en_OnAdmission e of
         None \<Rightarrow> eret ()
       | Some f \<Rightarrow> ecall (NotifyAdmission (p_Txid p) steak) (callback (f (p_Txid p) steak (p_AtomicBeef p))))"

definition submitWithAdmission :: "json_codec \<Rightarrow> ('w, 'b) Engine \<Rightarrow> ('w, 'b) submit_params \<Rightarrow> Tx \<Rightarrow> Steak \<Rightarrow>
    'b topic_inputs \<Rightarrow> ('w, Steak) eng" where
  "submitWithAdmission json e p tx steak topicInputs =
     (case (GetAdmissionStorage (st_any (en_Storage e)), st_host (en_Storage e)) of
        (Some admission, Some host) \<Rightarrow>
          ebind (broadcastIfNeeded e tx (p_Mode p)) (\<lambda>_.
          ebind (buildAdmissionPlan json e host p tx steak topicInputs) (\<lambda>plan.
          ebind (ecall (CommitEffect plan) (CommitAdmission admission plan)) (\<lambda>result.
          case cr_State result of
            AdmissionCommitStateCommitted \<Rightarrow>
              (case cr_Receipt result of
                 None \<Rightarrow> efail (AdmissionError ErrAdmissionRejected)
               | Some receipt \<Rightarrow>
                   ebind (elift (parseSavedSteak json (re_Steak receipt))) (\<lambda>committed.
                   ebind (notify_submitted e p committed) (\<lambda>_. eret committed)))
          | AdmissionCommitStatePending \<Rightarrow> efail (AdmissionError ErrAdmissionPending)
          | AdmissionCommitStateRejected \<Rightarrow> efail (AdmissionError ErrAdmissionRejected)
          | AdmissionCommitStateAborted \<Rightarrow> efail (AdmissionError ErrAdmissionRejected)
          | OtherCommitState _ \<Rightarrow> efail (AdmissionError ErrAdmissionPending))))
      | _ \<Rightarrow> efail (AdmissionError ErrAdmissionUnsupported))"

section \<open>Operation ids\<close>

lemma writeFramedField_frame: "writeFramedField = frame"
  by (simp add: writeFramedField_def frame_def fun_eq_iff)

lemma operation_bytes_frames: "operation_bytes m t ts = bytes_of (concat (map frame (operation_fields m t ts)))"
  by (simp only: operation_bytes_def writeFramedField_frame)

lemma dedupe_props: "set (dedupe seen ts) = set ts - set seen" "distinct (dedupe seen ts)"
  by (induction seen ts rule: dedupe.induct) auto

lemma sort_dedupe: "set ts = set us \<Longrightarrow> sort (dedupe [] ts) = sort (dedupe [] us)"
  by (intro sorted_distinct_set_unique) (auto simp: dedupe_props)

lemma operation_bytes_eq:
  "operation_bytes m t ts = operation_bytes m' t' ts' \<longleftrightarrow> m = m' \<and> t = t' \<and> set ts = set ts'"
proof -
  have "set ts = set ts'" if "sort (dedupe [] ts) = sort (dedupe [] ts')"
    using arg_cong[OF that, of set] by (simp add: dedupe_props)
  moreover have "operation_bytes m t ts = operation_bytes m' t' ts' \<longleftrightarrow> operation_fields m t ts = operation_fields m' t' ts'"
    by (simp only: operation_bytes_frames bytes_of_inject frames_inject)
  ultimately show ?thesis by (auto simp: operation_fields_def intro: sort_dedupe)
qed

text \<open>C29: an operation id names one mode, transaction and set of topics: two ids are equal exactly
  when these three agree, however often and in which order the topics are listed, unless the two
  framed inputs are a SHA-256 collision; and the framed input of an operation id is never the
  framed input of a semantic digest, so that the two kinds of id are separated by their domain.\<close>

theorem admissionOperationID_identifies:
  "(admissionOperationID m t ts = admissionOperationID m' t' ts' \<longleftrightarrow>
      m = m' \<and> t = t' \<and> set ts = set ts' \<or>
      collision sha256 (operation_bytes m t ts) (operation_bytes m' t' ts')) \<and>
   identity_bytes i \<noteq> operation_bytes m t ts"
proof
  show "admissionOperationID m t ts = admissionOperationID m' t' ts' \<longleftrightarrow>
      m = m' \<and> t = t' \<and> set ts = set ts' \<or>
      collision sha256 (operation_bytes m t ts) (operation_bytes m' t' ts')"
    using operation_bytes_eq[of m t ts m' t' ts'] by (auto simp: admissionOperationID_def collision_def)
  show "identity_bytes i \<noteq> operation_bytes m t ts"
    unfolding identity_bytes_def operation_bytes_frames bytes_of_inject frames_inject
    by (simp add: identity_fields_def operation_fields_def AdmissionStorageProtocol_def admissionOperationIDDomain_def)
qed

section \<open>Effects of a submission\<close>

text \<open>
  A submission publishes payloads under the digest and length of their bytes, fences topics,
  commits, and calls back; it never writes to the legacy tables.
\<close>

fun honest_publish :: "effect \<Rightarrow> bool" where
  "honest_publish (PublishEffect ref bs) = (ref = payload_ref bs (pr_Kind ref))"
| "honest_publish _ = True"

definition admission_effect :: "effect \<Rightarrow> bool" where
  "admission_effect f \<longleftrightarrow> \<not> legacy_write f \<and> honest_publish f"

fun is_commit :: "effect \<Rightarrow> bool" where
  "is_commit (CommitEffect _) = True"
| "is_commit _ = False"

abbreviation plan_effect :: "effect \<Rightarrow> bool" where
  "plan_effect f \<equiv> admission_effect f \<and> \<not> is_commit f"

lemma emits_publishBytes [emits_intros]: "emits plan_effect (publishBytes host bs kind)"
  unfolding publishBytes_def Let_def
  by (intro emits_intros) (simp add: admission_effect_def payload_ref_def)

lemma emits_separateRetainedCoins [emits_intros]: "emits P (separateRetainedCoins e ins coins)"
  unfolding separateRetainedCoins_def Let_def by (intro emits_intros)

lemma emits_publish_script [emits_intros]: "emits plan_effect (publish_script host tx vout acc)"
  unfolding publish_script_def by (cases acc) (simp, intro emits_intros)

lemma emits_publishAdmissionPayloads [emits_intros]: "emits plan_effect (publishAdmissionPayloads e host p tx steak)"
  unfolding publishAdmissionPayloads_def publish_scripts_def by (intro emits_intros)

lemma emits_buildTopicDecision [emits_intros]: "emits plan_effect (buildTopicDecision e host p tx topic admit ins idx)"
  unfolding buildTopicDecision_def admissionSpends_def Let_def
  by (intro emits_intros) (simp_all add: admission_effect_def)

lemma emits_buildAdmissionPlan [emits_intros]: "emits plan_effect (buildAdmissionPlan json e host p tx steak tis)"
  unfolding buildAdmissionPlan_def Let_def by (intro emits_intros)

lemma emits_broadcastIfNeeded [emits_intros]: "P BroadcastTx \<Longrightarrow> emits P (broadcastIfNeeded e tx mode)"
  unfolding broadcastIfNeeded_def by (intro emits_intros)

lemma emits_notify_submitted [emits_intros]:
  "(\<And>st. P (SteakReady st)) \<Longrightarrow> (\<And>st. P (NotifyAdmission (p_Txid p) st)) \<Longrightarrow> emits P (notify_submitted e p steak)"
  unfolding notify_submitted_def by (intro emits_intros)

text \<open>The payload references a plan uses.\<close>

definition plan_refs :: "AdmissionCommit \<Rightarrow> AdmissionPayloadRef set" where
  "plan_refs plan = set (ac_Payloads plan) \<union>
     (\<Union>d \<in> set (ac_Decisions plan). (\<lambda>o1. sr_Payload (out_Script o1)) ` set (td_Outputs d)) \<union>
     (\<Union>i \<in> set (ac_Outbox plan). set (oi_Payloads i))"

definition published :: "effect list \<Rightarrow> AdmissionPayloadRef set" where
  "published log = {ref. \<exists>bs. PublishEffect ref bs \<in> set log}"

lemma published_mono: "published l \<subseteq> published (l @ l')"
  by (auto simp: published_def)

text \<open>The invariant of the loops that publish: what is referenced has been published.\<close>

definition refs_ok :: "AdmissionPayloadRef list \<times> (u32 \<times> AdmissionPayloadRef) list \<Rightarrow> 'w \<times> effect list \<Rightarrow> bool" where
  "refs_ok acc s \<longleftrightarrow> set (fst acc) \<subseteq> published (snd s) \<and> snd ` set (snd acc) \<subseteq> set (fst acc)"

lemma publishBytes_run:
  "publishBytes host bs kind s = (Inr ref, t) \<Longrightarrow> snd t = snd s @ [PublishEffect ref bs] \<and> ref = payload_ref bs kind"
  by (auto simp: publishBytes_def Let_def ebind_Inr ecall_Inr)

lemma refs_ok_publish_script:
  assumes "publish_script host tx vout acc s = (Inr acc', t)" "refs_ok acc s"
  shows "refs_ok acc' t \<and> set (fst acc) \<subseteq> set (fst acc')"
proof -
  obtain payloads scripts where acc: "acc = (payloads, scripts)" by (cases acc)
  from assms(1) consider "acc' = acc" "t = s"
    | script ref where "publishBytes host script AdmissionPayloadLockingScript s = (Inr ref, t)"
        "acc' = (payloads @ [ref], AList.update vout ref scripts)"
    by (auto simp: publish_script_def acc ebind_Inr split: option.splits if_splits)
  then show ?thesis
  proof cases
    case 1
    with assms show ?thesis by simp
  next
    case 2
    have "snd ` set (AList.update vout ref scripts) \<subseteq> insert ref (snd ` set scripts)"
      by (induction scripts) auto
    with 2 assms(2) show ?thesis using publishBytes_run[OF 2(1)]
      by (auto simp: refs_ok_def acc published_def)
  qed
qed

lemma refs_ok_publish_scripts:
  assumes "publish_scripts host tx entry acc s = (Inr acc', t)" "refs_ok acc s"
  shows "refs_ok acc' t \<and> set (fst acc) \<subseteq> set (fst acc')"
proof (cases "snd entry")
  case None
  with assms show ?thesis by (simp add: publish_scripts_def)
next
  case (Some admit)
  then have "efold (publish_script host tx) (elems (ad_OutputsToAdmit admit)) acc s = (Inr acc', t)"
    using assms(1) by (simp add: publish_scripts_def)
  then show ?thesis
    by (rule efold_invariant[where I = "\<lambda>a u. refs_ok a u \<and> set (fst acc) \<subseteq> set (fst a)"])
      (use assms(2) refs_ok_publish_script in \<open>blast+\<close>)
qed

lemma publishAdmissionPayloads_run:
  assumes "publishAdmissionPayloads e host p tx steak s = (Inr (payloads, idx), t)"
  shows "insert (ap_raw idx) (snd ` set (ap_scripts idx)) \<subseteq> set payloads" "set payloads \<subseteq> published (snd t)"
proof -
  from assms[unfolded publishAdmissionPayloads_def] obtain raw s1 where
    raw: "publishBytes host (TxBytes (sdk_of e) tx) AdmissionPayloadRawTransaction s = (Inr raw, s1)" and
    r1: "ebind (erange (range_seed e) steak) (\<lambda>order.
     ebind (efold (publish_scripts host tx) order ([raw], [])) (\<lambda>(payloads, scripts).
     if 0 < length (p_AtomicBeef p) then
       ebind (publishBytes host (p_AtomicBeef p) AdmissionPayloadBEEFManifest) (\<lambda>beefRef.
         eret (payloads @ [beefRef], \<lparr>ap_raw = raw, ap_scripts = scripts\<rparr>))
     else eret (payloads, \<lparr>ap_raw = raw, ap_scripts = scripts\<rparr>))) s1 = (Inr (payloads, idx), t)"
    by (rule ebind_InrE)
  from r1 obtain order s2 where order: "erange (range_seed e) steak s1 = (Inr order :: engine_error + _, s2)" and
    r2: "ebind (efold (publish_scripts host tx) order ([raw], [])) (\<lambda>(payloads, scripts).
     if 0 < length (p_AtomicBeef p) then
       ebind (publishBytes host (p_AtomicBeef p) AdmissionPayloadBEEFManifest) (\<lambda>beefRef.
         eret (payloads @ [beefRef], \<lparr>ap_raw = raw, ap_scripts = scripts\<rparr>))
     else eret (payloads, \<lparr>ap_raw = raw, ap_scripts = scripts\<rparr>)) s2 = (Inr (payloads, idx), t)"
    by (rule ebind_InrE)
  from r2 obtain acc s3 where loop: "efold (publish_scripts host tx) order ([raw], []) s2 = (Inr acc, s3)" and
    rest: "(case acc of (ps, scripts) \<Rightarrow> if 0 < length (p_AtomicBeef p) then
       ebind (publishBytes host (p_AtomicBeef p) AdmissionPayloadBEEFManifest) (\<lambda>beefRef.
         eret (ps @ [beefRef], \<lparr>ap_raw = raw, ap_scripts = scripts\<rparr>))
     else eret (ps, \<lparr>ap_raw = raw, ap_scripts = scripts\<rparr>)) s3 = (Inr (payloads, idx), t)"
    by (rule ebind_InrE)
  obtain ps scripts where acc: "acc = (ps, scripts)" by (cases acc)
  have "refs_ok ([raw], []) s2"
    using publishBytes_run[OF raw] erange_Inr[OF order] by (auto simp: refs_ok_def published_def)
  then have loop_ok: "refs_ok acc s3 \<and> raw \<in> set (fst acc)"
    using efold_invariant[OF loop, of "\<lambda>a u. refs_ok a u \<and> raw \<in> set (fst a)"] refs_ok_publish_scripts
    by fastforce
  consider "payloads = ps" "idx = \<lparr>ap_raw = raw, ap_scripts = scripts\<rparr>" "t = s3"
    | ref where "payloads = ps @ [ref]" "idx = \<lparr>ap_raw = raw, ap_scripts = scripts\<rparr>"
        "snd t = snd s3 @ [PublishEffect ref (p_AtomicBeef p)]"
    using rest publishBytes_run by (fastforce simp: acc ebind_Inr split: if_splits)
  then show "insert (ap_raw idx) (snd ` set (ap_scripts idx)) \<subseteq> set payloads" "set payloads \<subseteq> published (snd t)"
    using loop_ok by (cases; auto simp: refs_ok_def published_def acc)+
qed

lemma admissionOutputs_refs:
  "o1 \<in> set (admissionOutputs tx txid admit idx) \<Longrightarrow>
     sr_Payload (out_Script o1) \<in> insert (ap_raw idx) (snd ` set (ap_scripts idx))"
  by (force simp: admissionOutputs_def Let_def split: prod.splits option.splits dest!: map_of_SomeD)

lemma buildTopicDecision_run:
  assumes "buildTopicDecision e host p tx topic admit ins idx s = (Inr d, t)"
  shows "td_Outputs d = admissionOutputs tx (hex_encode (p_Txid p)) (case admit of None \<Rightarrow> zero_admittance | Some a \<Rightarrow> a) idx"
    and "td_Topic d = topic"
  using assms by (auto simp: buildTopicDecision_def Let_def ebind_Inr split: prod.splits)

lemma buildAdmissionPlan_run:
  assumes "buildAdmissionPlan json e host p tx steak tis s = (Inr plan, t)"
  shows "ac_Identity plan = plan_identity host p"
    and "map_error AdmissionError (AdmissionSemanticDigest (plan_identity host p)) = Inr (ok_SemanticDigest (ac_Key plan))"
    and "ok_Scope (ac_Key plan) = ah_Scope host"
    and "ok_OperationID (ac_Key plan) =
           admissionOperationID (admission_mode (p_Mode p)) (hex_encode (p_Txid p)) (dedupe [] (p_Topics p))"
    and "encodeSteakJSON json steak = Inr (ac_Steak plan)"
    and "plan_refs plan \<subseteq> published (snd t)"
proof -
  let ?topics = "map (\<lambda>t. \<lparr>at_Topic = t, at_PolicyID = t\<rparr>) (dedupe [] (p_Topics p))"
  have names: "map at_Topic ?topics = dedupe [] (p_Topics p)" by (simp add: comp_def)
  obtain digest payloads idx decisions names enc s1 s2 s3 s4 where
    digest: "map_error AdmissionError (AdmissionSemanticDigest (plan_identity host p)) = Inr digest" and
    pub: "publishAdmissionPayloads e host p tx steak s1 = (Inr (payloads, idx), s2)" and
    loop: "efold (\<lambda>topic decisions.
          ebind (buildTopicDecision e host p tx (at_Topic topic)
                   (case map_of steak (at_Topic topic) of None \<Rightarrow> None | Some a \<Rightarrow> a)
                   (inputs_of tis (at_Topic topic)) idx) (\<lambda>d. eret (decisions @ [d])))
          ?topics [] s2 = (Inr decisions, s3)" and
    order: "erange (range_seed e) (map fst (lookupServices e)) s3 = (Inr names :: engine_error + _, s4)" and
    enc: "encodeSteakJSON json steak = Inr enc" and
    plan: "plan = \<lparr>ac_Key = \<lparr>ok_Scope = ah_Scope host, ok_OperationID =
              admissionOperationID (admission_mode (p_Mode p)) (hex_encode (p_Txid p)) (map at_Topic ?topics), ok_SemanticDigest = digest\<rparr>,
            ac_Identity = plan_identity host p, ac_Payloads = payloads, ac_Decisions = decisions,
            ac_Outbox = plan_outbox (admission_mode (p_Mode p)) (admissionOperationID (admission_mode (p_Mode p)) (hex_encode (p_Txid p)) (map at_Topic ?topics)) (ap_raw idx) names,
            ac_Steak = enc\<rparr>" "t = s4"
    using assms unfolding buildAdmissionPlan_def Let_def
    by (elim ebind_InrE) (clarsimp elim!: ebind_InrE, rule that, (assumption | simp add: plan_identity_def)+)
  show "ac_Identity plan = plan_identity host p" "ok_Scope (ac_Key plan) = ah_Scope host"
    "ok_OperationID (ac_Key plan) =
       admissionOperationID (admission_mode (p_Mode p)) (hex_encode (p_Txid p)) (dedupe [] (p_Topics p))"
    "encodeSteakJSON json steak = Inr (ac_Steak plan)"
    "map_error AdmissionError (AdmissionSemanticDigest (plan_identity host p)) = Inr (ok_SemanticDigest (ac_Key plan))"
    using plan digest enc names by simp_all
  have refs: "insert (ap_raw idx) (snd ` set (ap_scripts idx)) \<subseteq> set payloads" "set payloads \<subseteq> published (snd s2)"
    using publishAdmissionPayloads_run[OF pub] by auto
  have "emits plan_effect (efold (\<lambda>topic decisions.
          ebind (buildTopicDecision e host p tx (at_Topic topic)
                   (case map_of steak (at_Topic topic) of None \<Rightarrow> None | Some a \<Rightarrow> a)
                   (inputs_of tis (at_Topic topic)) idx) (\<lambda>d. eret (decisions @ [d]))) ?topics [])"
    by (intro emits_intros)
  from emitsD[OF this loop] obtain l where "snd s3 = snd s2 @ l" by blast
  with refs(2) published_mono have pubs: "set payloads \<subseteq> published (snd s4)"
    using erange_Inr[OF order] by (metis subset_trans)
  let ?ok = "\<lambda>d. \<exists>txid admit. td_Outputs d = admissionOutputs tx txid admit idx"
  have "list_all ?ok decisions"
  proof (rule efold_invariant[OF loop, where I = "\<lambda>ds _. list_all ?ok ds"])
    fix x ds u ds' v
    assume "list_all ?ok ds" and body: "ebind (buildTopicDecision e host p tx (at_Topic x)
                   (case map_of steak (at_Topic x) of None \<Rightarrow> None | Some a \<Rightarrow> a)
                   (inputs_of tis (at_Topic x)) idx) (\<lambda>d. eret (ds @ [d])) u = (Inr ds', v)"
    from body show "list_all ?ok ds'"
      by (rule ebind_InrE) (use \<open>list_all ?ok ds\<close> in \<open>auto dest: buildTopicDecision_run(1)\<close>)
  qed simp
  then have "sr_Payload (out_Script o1) \<in> set payloads" if "d \<in> set decisions" "o1 \<in> set (td_Outputs d)" for d o1
    using that refs(1) admissionOutputs_refs unfolding list_all_iff by (metis subsetD)
  then show "plan_refs plan \<subseteq> published (snd t)"
    using pubs refs(1) plan by (auto simp: plan_refs_def plan_outbox_def)
qed

text \<open>What follows a commit: the answer of the provider decides the result.\<close>

definition after_commit :: "json_codec \<Rightarrow> ('w, 'b) Engine \<Rightarrow> ('w, 'b) submit_params \<Rightarrow> AdmissionCommitResult \<Rightarrow> ('w, Steak) eng" where
  "after_commit json e p result =
     (case cr_State result of
        AdmissionCommitStateCommitted \<Rightarrow>
          (case cr_Receipt result of
             None \<Rightarrow> efail (AdmissionError ErrAdmissionRejected)
           | Some receipt \<Rightarrow>
               ebind (elift (parseSavedSteak json (re_Steak receipt))) (\<lambda>committed.
               ebind (notify_submitted e p committed) (\<lambda>_. eret committed)))
      | AdmissionCommitStatePending \<Rightarrow> efail (AdmissionError ErrAdmissionPending)
      | AdmissionCommitStateRejected \<Rightarrow> efail (AdmissionError ErrAdmissionRejected)
      | AdmissionCommitStateAborted \<Rightarrow> efail (AdmissionError ErrAdmissionRejected)
      | OtherCommitState _ \<Rightarrow> efail (AdmissionError ErrAdmissionPending))"

definition before_commit :: "json_codec \<Rightarrow> ('w, 'b) Engine \<Rightarrow> 'w admissionHost \<Rightarrow> ('w, 'b) submit_params \<Rightarrow> Tx \<Rightarrow> Steak \<Rightarrow>
    'b topic_inputs \<Rightarrow> ('w, AdmissionCommit) eng" where
  "before_commit json e host p tx steak tis =
     ebind (broadcastIfNeeded e tx (p_Mode p)) (\<lambda>_. buildAdmissionPlan json e host p tx steak tis)"

lemma submitWithAdmission_split:
  "submitWithAdmission json e p tx steak tis =
     (case (GetAdmissionStorage (st_any (en_Storage e)), st_host (en_Storage e)) of
        (Some admission, Some host) \<Rightarrow>
          ebind (before_commit json e host p tx steak tis) (\<lambda>plan.
          ebind (ecall (CommitEffect plan) (CommitAdmission admission plan)) (after_commit json e p))
      | _ \<Rightarrow> efail (AdmissionError ErrAdmissionUnsupported))"
  unfolding submitWithAdmission_def before_commit_def after_commit_def[abs_def] ebind_assoc ..

lemma emits_before_commit: "emits plan_effect (before_commit json e host p tx steak tis)"
  unfolding before_commit_def by (intro emits_intros) (simp_all add: admission_effect_def)

lemma emits_after_commit: "emits plan_effect (after_commit json e p result)"
  unfolding after_commit_def
  by (auto intro!: emits_intros simp: admission_effect_def split: AdmissionCommitState.split)

lemma after_commit_Inr:
  "after_commit json e p result s = (Inr committed, t) \<Longrightarrow>
     cr_State result = AdmissionCommitStateCommitted \<and>
     (\<exists>receipt. cr_Receipt result = Some receipt \<and> parseSavedSteak json (re_Steak receipt) = Inr committed)"
  by (auto simp: after_commit_def ebind_Inr split: AdmissionCommitState.splits option.splits)

text \<open>
  The shape of every run: no commit, or a commit of a plan all of whose payloads were published
  before.
\<close>

lemma submitWithAdmission_shape:
  assumes run: "submitWithAdmission json e p tx steak tis (w, []) = (r, t)"
  obtains "list_all plan_effect (snd t)" "\<forall>c. r \<noteq> Inr c"
  | admission host plan pre post w1 w2 answer where
      "GetAdmissionStorage (st_any (en_Storage e)) = Some admission" "st_host (en_Storage e) = Some host"
      "snd t = pre @ CommitEffect plan # post" "list_all plan_effect pre" "list_all plan_effect post"
      "plan_refs plan \<subseteq> published pre" "ac_Identity plan = plan_identity host p"
      "CommitAdmission admission plan w1 = (answer, w2)"
      "\<forall>c. r = Inr c \<longrightarrow> (\<exists>result receipt. answer = Inr result \<and> cr_State result = AdmissionCommitStateCommitted \<and>
         cr_Receipt result = Some receipt \<and> parseSavedSteak json (re_Steak receipt) = Inr c)"
proof (cases "(GetAdmissionStorage (st_any (en_Storage e)), st_host (en_Storage e))")
  case (Pair ga ho)
  show thesis
  proof (cases "\<exists>admission host. ga = Some admission \<and> ho = Some host")
    case False
    then have "submitWithAdmission json e p tx steak tis = efail (AdmissionError ErrAdmissionUnsupported)"
      using Pair by (auto simp: submitWithAdmission_split split: option.splits)
    with run show thesis by (intro that(1)) (auto simp: efail_def)
  next
    case True
    then obtain admission host where caps: "GetAdmissionStorage (st_any (en_Storage e)) = Some admission"
      "st_host (en_Storage e) = Some host" using Pair by auto
    obtain r1 s1 where b: "before_commit json e host p tx steak tis (w, []) = (r1, s1)" by (rule prod.exhaust)
    obtain pre where pre: "snd s1 = pre" "list_all plan_effect pre" using emitsD[OF emits_before_commit b] by auto
    show thesis
    proof (cases r1)
      case (Inl err)
      with run caps b have "r = Inl err" "t = s1" by (auto simp: submitWithAdmission_split ebind_def)
      with pre show thesis by (intro that(1)) auto
    next
      case (Inr plan)
      obtain s0 where "buildAdmissionPlan json e host p tx steak tis s0 = (Inr plan, s1)"
        using b Inr by (auto simp: before_commit_def elim: ebind_InrE)
      note plan = buildAdmissionPlan_run[OF this]
      obtain answer w2 where c: "CommitAdmission admission plan (fst s1) = (answer, w2)" by (rule prod.exhaust)
      have step: "ecall (CommitEffect plan) (CommitAdmission admission plan) s1 = (answer, (w2, pre @ [CommitEffect plan]))"
        using c pre by (cases s1) (auto simp: ecall_def)
      have rest: "(case answer of Inl err \<Rightarrow> (Inl err, (w2, pre @ [CommitEffect plan]))
          | Inr result \<Rightarrow> after_commit json e p result (w2, pre @ [CommitEffect plan])) = (r, t)"
        using run caps b Inr step by (simp add: submitWithAdmission_split ebind_def split: sum.splits)
      have "\<exists>post. snd t = (pre @ [CommitEffect plan]) @ post \<and> list_all plan_effect post"
      proof (cases answer)
        case (Inl err)
        with rest show ?thesis by auto
      next
        case (Inr result)
        with rest emitsD[OF emits_after_commit, of json e p result "(w2, pre @ [CommitEffect plan])" r t] show ?thesis by simp
      qed
      then obtain post where "snd t = pre @ CommitEffect plan # post" "list_all plan_effect post" by auto
      moreover have "\<forall>k. r = Inr k \<longrightarrow> (\<exists>result receipt. answer = Inr result \<and> cr_State result = AdmissionCommitStateCommitted \<and>
         cr_Receipt result = Some receipt \<and> parseSavedSteak json (re_Steak receipt) = Inr k)"
        using rest by (auto split: sum.splits dest: after_commit_Inr)
      ultimately show thesis using that(2)[OF caps, of pre plan post "fst s1" answer w2] plan(1,6) pre c by simp
    qed
  qed
qed


text \<open>A retry of a submission addresses the same operation: two plans built for the same
  transaction, mode and off-chain values and the same set of topics, listed in any order and with
  any repetitions, carry the same operation key.\<close>

theorem buildAdmissionPlan_retry:
  assumes "buildAdmissionPlan json e host p tx steak tis s = (Inr plan, t)"
    and "buildAdmissionPlan json' e' host p' tx' steak' tis' s' = (Inr plan', t')"
    and "p_Txid p' = p_Txid p" "p_Mode p' = p_Mode p" "p_OffChainValues p' = p_OffChainValues p"
    and "set (p_Topics p') = set (p_Topics p)"
  shows "ac_Key plan' = ac_Key plan"
proof -
  have "mset (dedupe [] (p_Topics p')) = mset (dedupe [] (p_Topics p))"
    using assms(6) by (intro iffD1[OF set_eq_iff_mset_eq_distinct]) (auto simp: dedupe_props)
  then have "mset (ai_Topics (plan_identity host p')) = mset (ai_Topics (plan_identity host p))"
    by (simp add: plan_identity_def)
  from AdmissionSemanticDigest_topics[OF this]
  have "AdmissionSemanticDigest (plan_identity host p') = AdmissionSemanticDigest (plan_identity host p)"
    using assms(3-5) by (simp add: plan_identity_def)
  then have "ok_SemanticDigest (ac_Key plan') = ok_SemanticDigest (ac_Key plan)"
    using buildAdmissionPlan_run(2)[OF assms(1)] buildAdmissionPlan_run(2)[OF assms(2)] by simp
  moreover have "admissionOperationID m txid (dedupe [] (p_Topics p')) = admissionOperationID m txid (dedupe [] (p_Topics p))" for m txid
    unfolding admissionOperationID_def using operation_bytes_eq[of m txid "dedupe [] (p_Topics p')" m txid "dedupe [] (p_Topics p)"] assms(6)
    by (simp add: dedupe_props)
  ultimately show ?thesis
    using buildAdmissionPlan_run(3,4)[OF assms(1)] buildAdmissionPlan_run(3,4)[OF assms(2)] assms(3,4)
    by (intro AdmissionOperationKey.equality) auto
qed

section \<open>A concrete submission\<close>

definition demo_json :: json_codec where
  "demo_json = \<lparr>marshal = \<lambda>_. Inr ''{}'', unmarshal = \<lambda>_. Inr []\<rparr>"

definition demo_admission :: "(unit, engine_error) AdmissionStorage" where
  "demo_admission = \<lparr>AdmissionProtocol = AdmissionStorageProtocol,
     CommitAdmission = \<lambda>plan w. (Inr \<lparr>cr_State = AdmissionCommitStateCommitted,
       cr_Receipt = Some \<lparr>re_OperationID = ok_OperationID (ac_Key plan), re_SemanticDigest = ok_SemanticDigest (ac_Key plan),
         re_Durability = ''atomic-local'', re_Steak = ac_Steak plan, re_Indexes = [], re_Propagation = AdmissionPropagationPending\<rparr>,
       cr_AttemptID = [], cr_RejectionCode = []\<rparr>, w),
     ReconcileAdmission = \<lambda>_ _ w. (Inl Panic, w)\<rparr>"

definition demo_host :: "unit admissionHost" where
  "demo_host = \<lparr>ah_Scope = \<lparr>ss_Network = ''main'', ss_GenesisHash = demo_hex, ss_NodeID = ''n''\<rparr>,
     ah_PublishPayload = \<lambda>_ _ w. (Inr (), w), ah_CurrentHistoryFence = \<lambda>_ w. (Inr \<lparr>hf_ChainEpoch = ''0'', hf_TopicHistoryGeneration = ''0''\<rparr>, w),
     ah_EnsureHistoryFence = \<lambda>_ _ w. (Inr (), w)\<rparr>"

definition demo_admission_engine :: "(unit, Tx) Engine" where
  "demo_admission_engine = demo_engine\<lparr>en_Storage := demo_storage\<lparr>
     st_any := AnyOf K_Pointer False (Some (AnyOf K_Pointer False (Some demo_admission))), st_host := Some demo_host\<rparr>\<rparr>"

definition demo_params :: "string list \<Rightarrow> (unit, Tx) submit_params" where
  "demo_params topics = \<lparr>p_Beef = demo_tx, p_Txid = demo_txid, p_Topics = topics, p_AtomicBeef = [], p_OffChainValues = [],
     p_Mode = SubmitModeCurrent, p_OnSteakReady = None\<rparr>"

lemma hex_text: "isLowerHexHash (hex_encode (sha256 bs))" "utf8_valid (bytes_of (hex_encode bs))"
proof -
  show "isLowerHexHash (hex_encode (sha256 bs))" using hex_encode_lower[of _ "sha256 bs"] by (simp add: isLowerHexHash_def list_all_iff)
  have low: "(of_char c :: byte) < 0x80" if "is_lower_hex c" for c
    using that by (simp add: word_less_nat_alt unat_of_char is_lower_hex_def Let_def) linarith
  have "b < 0x80" if b: "b \<in> set (bytes_of (hex_encode bs))" for b
  proof -
    obtain c where "c \<in> set (hex_encode bs)" "b = of_char c" using b by (auto simp: bytes_of_def)
    then show ?thesis using hex_encode_lower low by blast
  qed
  then show "utf8_valid (bytes_of (hex_encode bs))" by (rule utf8_valid_ascii)
qed

lemma demo_digest:
  assumes "topics = [''tm_a''] \<or> topics = [''tm_a'', ''tm_a'']"
  shows "\<exists>d. AdmissionSemanticDigest (plan_identity demo_host (demo_params topics)) = Inr d"
proof -
  let ?i = "plan_identity demo_host (demo_params topics)"
  have i: "?i = \<lparr>ai_Scope = ah_Scope demo_host, ai_TxID = hex_encode demo_txid, ai_Mode = AdmissionModeLive,
      ai_ContextDigest = hex_encode (sha256 []), ai_Topics = [\<lparr>at_Topic = ''tm_a'', at_PolicyID = ''tm_a''\<rparr>]\<rparr>"
    using assms by (auto simp: plan_identity_def demo_params_def admission_mode_def contextDigest_def
        SubmitModeCurrent_def SubmitModeHistorical_def)
  have ok: "isLowerHexHash (hex_encode demo_txid)" "isLowerHexHash demo_hex" by code_simp+
  have ascii: "utf8_valid (bytes_of demo_hex)" "utf8_valid (bytes_of AdmissionStorageProtocol)" "utf8_valid (bytes_of ''main'')"
    "utf8_valid (bytes_of ''n'')" "utf8_valid (bytes_of AdmissionModeLive)" "utf8_valid (bytes_of (format_uint (Suc 0)))"
    "utf8_valid (bytes_of ''tm_a'')" "demo_hex \<noteq> []" by code_simp+
  have nonempty: "hex_encode (sha256 []) \<noteq> []" "hex_encode demo_txid \<noteq> []"
    using length_hex_encode[of "sha256 []"] length_hex_encode[of demo_txid] by (auto simp: demo_txid_def simp del: length_hex_encode)
  have fields: "identity_fields ?i (ai_Topics ?i) = [AdmissionStorageProtocol, ''main'', demo_hex, ''n'', hex_encode demo_txid,
      AdmissionModeLive, hex_encode (sha256 []), format_uint (Suc 0), ''tm_a'', ''tm_a'']"
    unfolding i by (simp add: identity_fields_def demo_host_def)
  have "list_all (\<lambda>f. f \<noteq> [] \<and> utf8_valid (bytes_of f)) (identity_fields ?i (ai_Topics ?i))"
    unfolding fields list.pred_inject using ascii hex_text(2) nonempty
    by (intro conjI; (assumption | rule hex_text(2) | simp add: AdmissionStorageProtocol_def AdmissionModeLive_def)?)
  then have "\<exists>bs. write_fields (identity_fields ?i (ai_Topics ?i)) = Inr bs" by (simp add: write_fields_Inr)
  with ok hex_text(1) show ?thesis unfolding i by (auto simp: AdmissionSemanticDigest_def demo_host_def)
qed

lemma demo_outputs_script: "output_script demo_tx 0 = Some [1, 2]"
  by (simp add: output_script_def tx_output_at_def demo_tx_def)

lemma demo_plan:
  assumes "topics = [''tm_a''] \<or> topics = [''tm_a'', ''tm_a'']"
  shows "\<exists>plan t. buildAdmissionPlan demo_json demo_admission_engine demo_host (demo_params topics) demo_tx
    [(''tm_a'', Some (zero_admittance\<lparr>ad_OutputsToAdmit := Some [0]\<rparr>))] [] s = (Inr plan, t) \<and>
    ac_Steak plan = ''{}''"
proof -
  obtain d where d: "AdmissionSemanticDigest (plan_identity demo_host (demo_params topics)) = Inr d"
    using demo_digest[OF assms] by blast
  have ts: "ai_Topics (plan_identity demo_host (demo_params topics)) = [\<lparr>at_Topic = ''tm_a'', at_PolicyID = ''tm_a''\<rparr>]"
    using assms by (auto simp: plan_identity_def demo_params_def)
  have beef: "p_AtomicBeef (demo_params topics) = []" by (simp add: demo_params_def)
  show ?thesis
    unfolding buildAdmissionPlan_def publishAdmissionPayloads_def buildTopicDecision_def publishBytes_def
      publish_scripts_def separateRetainedCoins_def admissionSpends_def encodeSteakJSON_def d ts Let_def
    by (cases s) (simp add: Let_def beef publish_script_def publishBytes_def erange_def eread_def ecall_def ebind_def eret_def elift_def
      demo_admission_engine_def demo_host_def demo_json_def demo_outputs_script zero_admittance_def inputs_of_def copyTopicInputs_def
      demo_defs)
qed

lemma demo_submit:
  "\<exists>t. submitWithAdmission demo_json demo_admission_engine (demo_params [''tm_a'']) demo_tx
     [(''tm_a'', Some (zero_admittance\<lparr>ad_OutputsToAdmit := Some [0]\<rparr>))] [] ((), []) = (Inr [], t)"
proof -
  let ?steak = "[(''tm_a'', Some (zero_admittance\<lparr>ad_OutputsToAdmit := Some [0]\<rparr>))]"
  obtain plan t where plan: "buildAdmissionPlan demo_json demo_admission_engine demo_host (demo_params [''tm_a'']) demo_tx
    ?steak [] ((), [BroadcastTx]) = (Inr plan, t)" "ac_Steak plan = ''{}''"
    using demo_plan[of "[''tm_a'']" "((), [BroadcastTx])"] by auto
  have mode: "p_Mode (demo_params [''tm_a'']) = SubmitModeCurrent" "p_OnSteakReady (demo_params [''tm_a'']) = None"
    by (simp_all add: demo_params_def)
  have bc: "broadcastIfNeeded demo_admission_engine demo_tx SubmitModeCurrent ((), []) = (Inr (), ((), [BroadcastTx]))"
    by (simp add: broadcastIfNeeded_def SubmitModeCurrent_def SubmitModeHistorical_def demo_admission_engine_def demo_defs ecall_def)
  have caps: "GetAdmissionStorage (st_any (en_Storage demo_admission_engine)) = Some demo_admission"
    "st_host (en_Storage demo_admission_engine) = Some demo_host" "en_OnAdmission demo_admission_engine = None"
    by (simp_all add: GetAdmissionStorage_def demo_admission_engine_def demo_admission_def demo_defs)
  show ?thesis
    unfolding submitWithAdmission_def caps using plan
    by (cases t) (simp add: mode bc caps ebind_def ecall_def demo_admission_def parseSavedSteak_def demo_json_def elift_def
      notify_submitted_def eret_def)
qed


theorem buildAdmissionPlan_retry_witness:
  "\<exists>plan t plan' t'. buildAdmissionPlan demo_json demo_admission_engine demo_host (demo_params [''tm_a'']) demo_tx
     [(''tm_a'', Some (zero_admittance\<lparr>ad_OutputsToAdmit := Some [0]\<rparr>))] [] ((), []) = (Inr plan, t) \<and>
   buildAdmissionPlan demo_json demo_admission_engine demo_host (demo_params [''tm_a'', ''tm_a'']) demo_tx
     [(''tm_a'', Some (zero_admittance\<lparr>ad_OutputsToAdmit := Some [0]\<rparr>))] [] ((), []) = (Inr plan', t') \<and>
   ac_Key plan' = ac_Key plan"
proof -
  obtain plan t where a: "buildAdmissionPlan demo_json demo_admission_engine demo_host (demo_params [''tm_a'']) demo_tx
     [(''tm_a'', Some (zero_admittance\<lparr>ad_OutputsToAdmit := Some [0]\<rparr>))] [] ((), []) = (Inr plan, t)"
    using demo_plan[of "[''tm_a'']" "((), [])"] by auto
  obtain plan' t' where b: "buildAdmissionPlan demo_json demo_admission_engine demo_host (demo_params [''tm_a'', ''tm_a'']) demo_tx
     [(''tm_a'', Some (zero_admittance\<lparr>ad_OutputsToAdmit := Some [0]\<rparr>))] [] ((), []) = (Inr plan', t')"
    using demo_plan[of "[''tm_a'', ''tm_a'']" "((), [])"] by auto
  have "ac_Key plan' = ac_Key plan" by (rule buildAdmissionPlan_retry[OF a b]) (simp_all add: demo_params_def)
  with a b show ?thesis by blast
qed

end
