(* ===== verification/Engine_Submit.thy ===== *)
theory Engine_Submit
  imports Admission_Submit
begin

text \<open>
  Submission of a transaction to topics, the pipeline of \<^verbatim>\<open>pkg/core/engine/engine.go\<close> from \<open>Submit\<close>
  to the propagation, and the deletion of an output with the history only it needed.
\<close>

section \<open>Deep deletion\<close>

text \<open>
  Go's recursion over the history is bounded by \<open>fuel\<close>; \<open>deleteUTXODeep_terminates\<close> shows how much
  is enough. Two outpoints are equal exactly when their 36 bytes are.
\<close>

definition delete_unconsumed :: "('w, 'b) Engine \<Rightarrow> 'b EOutput \<Rightarrow> ('w, unit) eng" where
  "delete_unconsumed e output =
     (if eo_ConsumedBy output = [] then
        ebind (ecall (DeleteEffect (eo_Outpoint output) (eo_Topic output))
                 (st_DeleteOutput (en_Storage e) (eo_Outpoint output) (eo_Topic output))) (\<lambda>_.
        ebind (getLookupServicesSnapshot e) (\<lambda>ls.
          eforeach (\<lambda>l. ecall (NotifyRemoved (eo_Outpoint output) (eo_Topic output))
            (ls_OutputNoLongerRetainedInHistory l (eo_Outpoint output) (eo_Topic output))) ls))
      else eret ())"

definition drop_consumer :: "('w, 'b) Engine \<Rightarrow> Outpoint \<Rightarrow> 'b EOutput \<Rightarrow> ('w, 'b EOutput) eng" where
  "drop_consumer e consumer stale =
     (if eo_ConsumedBy stale \<noteq> [] then
        let stale' = stale\<lparr>eo_ConsumedBy := filter (\<lambda>o1. o1 \<noteq> consumer) (eo_ConsumedBy stale)\<rparr> in
        ebind (ecall (SetConsumedBy (eo_Outpoint stale) (eo_Topic stale) (eo_ConsumedBy stale'))
                 (st_UpdateConsumedBy (en_Storage e) (eo_Outpoint stale) (eo_Topic stale) (eo_ConsumedBy stale'))) (\<lambda>_.
          eret stale')
      else eret stale)"

primrec deleteUTXODeep :: "nat \<Rightarrow> ('w, 'b) Engine \<Rightarrow> 'b EOutput \<Rightarrow> ('w, unit) eng" where
  "deleteUTXODeep 0 e output = efail NoFuel"
| "deleteUTXODeep (Suc fuel) e output =
     ebind (delete_unconsumed e output) (\<lambda>_.
       eforeach (\<lambda>outpoint.
         ebind (eread (st_FindOutput (en_Storage e) outpoint (Some (eo_Topic output)) None False)) (\<lambda>found.
           case found of
             None \<Rightarrow> eret ()
           | Some stale \<Rightarrow>
               ebind (drop_consumer e (eo_Outpoint output) stale) (\<lambda>stale'. deleteUTXODeep fuel e stale')))
         (eo_OutputsConsumed output))"

section \<open>Identification\<close>

fun managers_for :: "(string \<times> ('w, 'b) TopicManager option) list \<Rightarrow> string list \<Rightarrow>
    (string \<times> ('w, 'b) TopicManager option) list \<Rightarrow> engine_error + (string \<times> ('w, 'b) TopicManager option) list" where
  "managers_for registry [] acc = Inr acc"
| "managers_for registry (t # ts) acc =
     (case map_of registry t of
        None \<Rightarrow> Inl ErrUnknownTopic
      | Some m \<Rightarrow> managers_for registry ts (AList.update t m acc))"

definition validateTopicsAndGetManagers :: "('w, 'b) Engine \<Rightarrow> string list \<Rightarrow>
    engine_error + (string \<times> ('w, 'b) TopicManager option) list" where
  "validateTopicsAndGetManagers e topics = managers_for (managers e) topics []"

definition verifyTransaction :: "('w, 'b) Engine \<Rightarrow> Tx \<Rightarrow> ('w, unit) eng" where
  "verifyTransaction e tx =
     ebind (eread (en_Verify e tx)) (\<lambda>valid. if \<not> valid then efail ErrInvalidTransaction else eret ())"

definition buildInpoints :: "Tx \<Rightarrow> Outpoint list" where
  "buildInpoints tx = map (\<lambda>i. \<lparr>op_Txid = in_SourceTXID i, op_Index = in_SourceTxOutIndex i\<rparr>) (tx_Inputs tx)"

text \<open>The loop over the found outputs, with the index of the input.\<close>

fun merge_outputs :: "'b sdk_tx \<Rightarrow> nat \<Rightarrow> 'b EOutput option list \<Rightarrow> u32 list \<Rightarrow> 'b \<Rightarrow> 'b inputs \<Rightarrow>
    engine_error + (u32 list \<times> 'b \<times> 'b inputs)" where
  "merge_outputs sdk vin [] coins beef ins = Inr (coins, beef, ins)"
| "merge_outputs sdk vin (None # outputs) coins beef ins = merge_outputs sdk (Suc vin) outputs coins beef ins"
| "merge_outputs sdk vin (Some output # outputs) coins beef ins =
     rbind (case eo_Beef output of None \<Rightarrow> Inr beef | Some b \<Rightarrow> MergeBeef sdk beef b) (\<lambda>beef'.
       merge_outputs sdk (Suc vin) outputs (coins @ [word_of_nat vin]) beef' (AList.update (word_of_nat vin) output ins))"

definition mergeExistingOutputs :: "('w, 'b) Engine \<Rightarrow> 'b \<Rightarrow> Outpoint list \<Rightarrow> string \<Rightarrow> 'b topic_inputs \<Rightarrow>
    ('w, u32 list \<times> 'b \<times> 'b topic_inputs) eng" where
  "mergeExistingOutputs e beef inpoints topic tis =
     ebind (eread (st_FindOutputs (en_Storage e) inpoints topic None True)) (\<lambda>outputs.
     ebind (elift (merge_outputs (sdk_of e) 0 outputs [] beef [])) (\<lambda>(coins, beef', ins).
       eret (coins, beef', AList.update topic ins tis)))"

text \<open>What the identification loop carries: the merged BEEF, the answers, the inputs, the duplicates.\<close>

record 'b ident =
  id_Beef :: 'b
  id_steak :: Steak
  id_inputs :: "'b topic_inputs"
  id_dupes :: "string list"

definition identify_topic :: "('w, 'b) Engine \<Rightarrow> ('w, 'b) submit_params \<Rightarrow> (string \<times> ('w, 'b) TopicManager option) list \<Rightarrow>
    Outpoint list \<Rightarrow> string \<Rightarrow> 'b ident \<Rightarrow> ('w, 'b ident) eng" where
  "identify_topic e p ms inpoints t st =
     ebind (if GetAdmissionStorage (st_any (en_Storage e)) = None
            then eread (st_DoesAppliedTransactionExist (en_Storage e) (p_Txid p) t) else eret False) (\<lambda>exists.
     if exists then
       eret (st\<lparr>id_steak := AList.update t (Some zero_admittance) (id_steak st), id_dupes := List.insert t (id_dupes st)\<rparr>)
     else
       ebind (mergeExistingOutputs e (id_Beef st) inpoints t (id_inputs st)) (\<lambda>(coins, beef', tis).
         case map_of ms t of
           Some (Some m) \<Rightarrow>
             ebind (eread (tm_IdentifyAdmissibleOutputs m beef' (p_Txid p) coins)) (\<lambda>admit.
               eret (st\<lparr>id_Beef := beef', id_inputs := tis, id_steak := AList.update t (Some admit) (id_steak st)\<rparr>))
         | _ \<Rightarrow> efail Panic))"

definition identifyAdmissibleOutputsPerTopic :: "('w, 'b) Engine \<Rightarrow> ('w, 'b) submit_params \<Rightarrow>
    (string \<times> ('w, 'b) TopicManager option) list \<Rightarrow> Outpoint list \<Rightarrow> ('w, 'b ident) eng" where
  "identifyAdmissibleOutputsPerTopic e p ms inpoints =
     efold (identify_topic e p ms inpoints) (p_Topics p)
       \<lparr>id_Beef = p_Beef p, id_steak = [], id_inputs = [], id_dupes = []\<rparr>"

section \<open>Spent outputs\<close>

definition markTopicUTXOsSpent :: "('w, 'b) Engine \<Rightarrow> 'b inputs \<Rightarrow> string \<Rightarrow> hash \<Rightarrow> ('w, unit) eng" where
  "markTopicUTXOsSpent e inputs topic txid =
     (if inputs = [] then eret ()
      else ebind (erange (range_seed e) inputs) (\<lambda>order.
        let topicInpoints = map (\<lambda>(_, o1). eo_Outpoint o1) order in
        ecall (MarkSpent topicInpoints topic txid) (st_MarkUTXOsAsSpent (en_Storage e) topicInpoints topic txid)))"

definition notify_spent :: "string \<Rightarrow> Tx \<Rightarrow> hash \<Rightarrow> byte list \<Rightarrow> u32 \<times> 'b EOutput \<Rightarrow> ('w, 'b) LookupService \<Rightarrow> ('w, unit) eng" where
  "notify_spent topic tx txid atomicBeef = (\<lambda>(vin, output) l.
     if length (tx_Inputs tx) \<le> unat vin then efail Panic
     else let i = tx_Inputs tx ! unat vin;
              payload = \<lparr>os_Outpoint = eo_Outpoint output, os_Topic = topic, os_SpendingTxid = txid, os_InputIndex = vin,
                os_UnlockingScript = in_UnlockingScript i, os_SequenceNumber = in_SequenceNumber i,
                os_SpendingAtomicBEEF = atomicBeef\<rparr>
          in ecall (NotifySpent payload) (ls_OutputSpent l payload))"

definition notifySpentOutputs :: "('w, 'b) Engine \<Rightarrow> 'b inputs \<Rightarrow> string \<Rightarrow> Tx \<Rightarrow> hash \<Rightarrow> byte list \<Rightarrow> ('w, unit) eng" where
  "notifySpentOutputs e inputs topic tx txid atomicBeef =
     ebind (getLookupServicesSnapshot e) (\<lambda>ls.
     ebind (erange (range_seed e) inputs) (\<lambda>order.
       eforeach (\<lambda>entry. eforeach (notify_spent topic tx txid atomicBeef entry) ls) order))"

definition markSpentAndNotify :: "('w, 'b) Engine \<Rightarrow> string list \<Rightarrow> string list \<Rightarrow> 'b topic_inputs \<Rightarrow> Tx \<Rightarrow> hash \<Rightarrow> byte list \<Rightarrow>
    ('w, unit) eng" where
  "markSpentAndNotify e topics dupes tis tx txid atomicBeef =
     eforeach (\<lambda>t. if t \<in> set dupes then eret ()
       else ebind (markTopicUTXOsSpent e (inputs_of tis t) t txid) (\<lambda>_.
              notifySpentOutputs e (inputs_of tis t) t tx txid atomicBeef)) topics"

section \<open>Commit of admitted outputs\<close>

definition notifyAdmittedOutputs :: "('w, 'b) Engine \<Rightarrow> string \<Rightarrow> hash \<Rightarrow> u32 list \<Rightarrow> byte list \<Rightarrow> byte list \<Rightarrow>
    ('w, Outpoint list) eng" where
  "notifyAdmittedOutputs e topic txid outputsToAdmit atomicBeef offChainValues =
     ebind (getLookupServicesSnapshot e) (\<lambda>ls.
       efold (\<lambda>vout newOutpoints.
         let payload = \<lparr>oa_Topic = topic, oa_OutputIndex = vout, oa_AtomicBEEF = atomicBeef, oa_OffChainValues = offChainValues\<rparr> in
         ebind (eforeach (\<lambda>l. ecall (NotifyAdmitted payload) (ls_OutputAdmittedByTopic l payload)) ls) (\<lambda>_.
           eret (newOutpoints @ [\<lparr>op_Txid = txid, op_Index = vout\<rparr>]))) outputsToAdmit [])"

definition updateConsumedByReferences :: "('w, 'b) Engine \<Rightarrow> 'b EOutput list \<Rightarrow> Outpoint list \<Rightarrow> ('w, unit) eng" where
  "updateConsumedByReferences e outputsConsumed newOutpoints =
     eforeach (\<lambda>output.
       let consumedBy = eo_ConsumedBy output @ newOutpoints in
       ecall (SetConsumedBy (eo_Outpoint output) (eo_Topic output) consumedBy)
         (st_UpdateConsumedBy (en_Storage e) (eo_Outpoint output) (eo_Topic output) consumedBy)) outputsConsumed"

text \<open>
  The answer of the topic with the removed coins appended, and the inputs that are left: the code
  changes both in place.
\<close>

definition commitTopicOutputs :: "nat \<Rightarrow> ('w, 'b) Engine \<Rightarrow> string \<Rightarrow> ('w, 'b) submit_params \<Rightarrow> Admittance \<Rightarrow> 'b inputs \<Rightarrow>
    ('w, Admittance \<times> 'b inputs) eng" where
  "commitTopicOutputs fuel e topic p admit inputs =
     ebind (separateRetainedCoins e inputs (elems (ad_CoinsToRetain admit))) (\<lambda>(outputsConsumed, outpointsConsumed, rest).
     ebind (erange (range_seed e) rest) (\<lambda>order.
     ebind (eforeach (\<lambda>(vin, output). deleteUTXODeep fuel e output) order) (\<lambda>_.
     let outs = elems (ad_OutputsToAdmit admit);
         removed = (if order = [] then ad_CoinsRemoved admit else Some (elems (ad_CoinsRemoved admit) @ map fst order)) in
     ebind (ecall (InsertEffect topic (p_Txid p) outs outpointsConsumed)
              (st_InsertOutputs (en_Storage e) topic (p_Txid p) outs outpointsConsumed (p_Beef p) (ad_AncillaryTxids admit))) (\<lambda>_.
     ebind (notifyAdmittedOutputs e topic (p_Txid p) outs (p_AtomicBeef p) (p_OffChainValues p)) (\<lambda>newOutpoints.
     ebind (updateConsumedByReferences e outputsConsumed newOutpoints) (\<lambda>_.
     ebind (ecall (InsertApplied (p_Txid p) topic) (st_InsertAppliedTransaction (en_Storage e) (p_Txid p) topic)) (\<lambda>_.
       eret (admit\<lparr>ad_CoinsRemoved := removed\<rparr>, rest))))))))"

definition commitAdmittedOutputs :: "nat \<Rightarrow> ('w, 'b) Engine \<Rightarrow> ('w, 'b) submit_params \<Rightarrow> string list \<Rightarrow>
    Steak \<times> 'b topic_inputs \<Rightarrow> ('w, Steak \<times> 'b topic_inputs) eng" where
  "commitAdmittedOutputs fuel e p dupes =
     efold (\<lambda>t (steak, tis).
       if t \<in> set dupes then eret (steak, tis)
       else case map_of steak t of
         Some (Some admit) \<Rightarrow>
           ebind (commitTopicOutputs fuel e t p admit (inputs_of tis t)) (\<lambda>(admit', rest).
             eret (AList.update t (Some admit') steak, AList.update t rest tis))
       | _ \<Rightarrow> efail Panic) (p_Topics p)"

section \<open>Propagation and the pipeline\<close>

definition relevant_topics :: "(string \<times> Admittance option) list \<Rightarrow> string list \<Rightarrow> engine_error + string list" where
  "relevant_topics order dupes =
     (if \<exists>(t, a) \<in> set order. a = None then Inl Panic
      else Inr (map fst (filter (\<lambda>(t, a). case a of None \<Rightarrow> False
        | Some s \<Rightarrow> (ad_OutputsToAdmit s \<noteq> None \<or> ad_CoinsToRetain s \<noteq> None) \<and> t \<notin> set dupes) order)))"

definition propagateToNetwork :: "('w, 'b) Engine \<Rightarrow> Tx \<Rightarrow> Steak \<Rightarrow> string list \<Rightarrow> SumbitMode \<Rightarrow> ('w, unit) eng" where
  "propagateToNetwork e tx steak dupes mode =
     (case en_Propagation e of
        None \<Rightarrow> eret ()
      | Some propagate \<Rightarrow>
          if mode = SubmitModeHistorical then eret ()
          else ebind (erange (range_seed e) steak) (\<lambda>order.
            ebind (elift (relevant_topics order dupes)) (\<lambda>topics.
              if topics = [] then eret ()
              else eignore (ecall (Propagate topics) (propagate topics (en_SLAPTrackers e) tx)))))"

definition submitLegacy :: "nat \<Rightarrow> ('w, 'b) Engine \<Rightarrow> ('w, 'b) submit_params \<Rightarrow> Tx \<Rightarrow> 'b ident \<Rightarrow> ('w, Steak) eng" where
  "submitLegacy fuel e p tx st =
     ebind (markSpentAndNotify e (p_Topics p) (id_dupes st) (id_inputs st) tx (p_Txid p) (p_AtomicBeef p)) (\<lambda>_.
     ebind (broadcastIfNeeded e tx (p_Mode p)) (\<lambda>_.
     ebind (notify_submitted e p (id_steak st)) (\<lambda>_.
     ebind (commitAdmittedOutputs fuel e (p\<lparr>p_Beef := id_Beef st\<rparr>) (id_dupes st) (id_steak st, id_inputs st)) (\<lambda>(steak, _).
     ebind (propagateToNetwork e tx steak (id_dupes st) (p_Mode p)) (\<lambda>_.
       eret steak)))))"

definition submitParsedBeefInternal :: "json_codec \<Rightarrow> nat \<Rightarrow> ('w, 'b) Engine \<Rightarrow> ('w, 'b) submit_params \<Rightarrow> ('w, Steak) eng" where
  "submitParsedBeefInternal json fuel e p =
     ebind (elift (validateTopicsAndGetManagers e (p_Topics p))) (\<lambda>ms.
     case FindTransactionForSigningByHash (sdk_of e) (p_Beef p) (p_Txid p) of
       None \<Rightarrow> efail ErrInvalidBeef
     | Some tx \<Rightarrow>
         ebind (verifyTransaction e tx) (\<lambda>_.
         ebind (identifyAdmissibleOutputsPerTopic e p ms (buildInpoints tx)) (\<lambda>st.
         if GetAdmissionStorage (st_any (en_Storage e)) \<noteq> None
         then submitWithAdmission json e (p\<lparr>p_Beef := id_Beef st\<rparr>) tx (id_steak st) (id_inputs st)
         else submitLegacy fuel e p tx st)))"

definition Submit :: "json_codec \<Rightarrow> nat \<Rightarrow> ('w, 'b) Engine \<Rightarrow> byte list \<Rightarrow> string list \<Rightarrow> byte list \<Rightarrow> SumbitMode \<Rightarrow>
    (Steak \<Rightarrow> 'w \<Rightarrow> 'w) option \<Rightarrow> ('w, Steak) eng" where
  "Submit json fuel e beefBytes topics offChainValues mode onSteakReady =
     ebind (elift (ParseBeef (sdk_of e) beefBytes)) (\<lambda>(beef, tx, txid).
       case (tx, txid) of
         (None, _) \<Rightarrow> efail ErrInvalidBeef
       | (Some _, None) \<Rightarrow> efail Panic
       | (Some _, Some h) \<Rightarrow> submitParsedBeefInternal json fuel e
           \<lparr>p_Beef = beef, p_Txid = h, p_Topics = topics, p_AtomicBeef = beefBytes, p_OffChainValues = offChainValues,
            p_Mode = mode, p_OnSteakReady = onSteakReady\<rparr>)"

section \<open>Phases of a submission\<close>

fun spend_effect :: "effect \<Rightarrow> bool" where
  "spend_effect (MarkSpent _ _ _) = True"
| "spend_effect (NotifySpent _) = True"
| "spend_effect _ = False"

fun delete_effect :: "effect \<Rightarrow> bool" where
  "delete_effect (DeleteEffect _ _) = True"
| "delete_effect (NotifyRemoved _ _) = True"
| "delete_effect (SetConsumedBy _ _ _) = True"
| "delete_effect _ = False"

fun commit_effect :: "effect \<Rightarrow> bool" where
  "commit_effect (InsertEffect _ _ _ _) = True"
| "commit_effect (NotifyAdmitted _) = True"
| "commit_effect (InsertApplied _ _) = True"
| "commit_effect f = delete_effect f"

fun network_effect :: "effect \<Rightarrow> bool" where
  "network_effect BroadcastTx = True"
| "network_effect (Propagate _) = True"
| "network_effect (NotifyAdmission _ _) = True"
| "network_effect _ = False"

lemma delete_commit: "delete_effect f \<Longrightarrow> commit_effect f"
  by (cases f) auto

lemma emits_deleteUTXODeep: "emits delete_effect (deleteUTXODeep fuel e o1)"
proof (induction fuel arbitrary: o1)
  case 0
  then show ?case by (auto intro: emits_intros)
next
  case (Suc fuel)
  then show ?case
    unfolding deleteUTXODeep.simps delete_unconsumed_def drop_consumer_def Let_def by (intro emits_intros) simp_all
qed

lemmas emits_delete_commit [emits_intros] = emits_mono[OF emits_deleteUTXODeep delete_commit]

lemma emits_notifyAdmittedOutputs [emits_intros]:
  "(\<And>pl. P (NotifyAdmitted pl)) \<Longrightarrow> emits P (notifyAdmittedOutputs e topic txid outs ab oc)"
  unfolding notifyAdmittedOutputs_def Let_def by (intro emits_intros)

lemma emits_updateConsumedByReferences [emits_intros]:
  "(\<And>a b c. P (SetConsumedBy a b c)) \<Longrightarrow> emits P (updateConsumedByReferences e outs new)"
  unfolding updateConsumedByReferences_def Let_def by (intro emits_intros)

lemma emits_commitTopicOutputs: "emits commit_effect (commitTopicOutputs fuel e t p admit ins)"
  unfolding commitTopicOutputs_def Let_def by (intro emits_intros) simp_all

lemma emits_commitAdmittedOutputs: "emits commit_effect (commitAdmittedOutputs fuel e p dupes acc)"
  unfolding commitAdmittedOutputs_def
  by (intro emits_efold) (auto intro!: emits_intros emits_commitTopicOutputs split: prod.split option.split)

lemma emits_notify_spent [emits_intros]: "emits spend_effect (notify_spent topic tx txid ab entry l)"
  unfolding notify_spent_def Let_def by (cases entry) (auto intro!: emits_intros)

lemma emits_markSpentAndNotify: "emits spend_effect (markSpentAndNotify e topics dupes tis tx txid ab)"
  unfolding markSpentAndNotify_def markTopicUTXOsSpent_def notifySpentOutputs_def Let_def
  by (intro emits_intros) simp_all

lemma emits_identify: "emits (\<lambda>_. False) (identifyAdmissibleOutputsPerTopic e p ms ips)"
  unfolding identifyAdmissibleOutputsPerTopic_def identify_topic_def mergeExistingOutputs_def by (intro emits_intros)

lemma emits_verifyTransaction: "emits P (verifyTransaction e tx)"
  unfolding verifyTransaction_def by (intro emits_intros)

lemma emits_propagateToNetwork [emits_intros]:
  "(\<And>ts. mode \<noteq> SubmitModeHistorical \<Longrightarrow> P (Propagate ts)) \<Longrightarrow> emits P (propagateToNetwork e tx steak dupes mode)"
  unfolding propagateToNetwork_def by (intro emits_intros)

lemma managers_for_known: "managers_for registry ts acc = Inr ms \<Longrightarrow> set ts \<subseteq> dom (map_of registry)"
  by (induction ts arbitrary: acc) (auto split: option.splits)

text \<open>After the inputs are marked: the broadcast, and everything that needs it to succeed.\<close>

definition after_broadcast :: "nat \<Rightarrow> ('w, 'b) Engine \<Rightarrow> ('w, 'b) submit_params \<Rightarrow> Tx \<Rightarrow> 'b ident \<Rightarrow> ('w, Steak) eng" where
  "after_broadcast fuel e p tx st =
     ebind (notify_submitted e p (id_steak st)) (\<lambda>_.
     ebind (commitAdmittedOutputs fuel e (p\<lparr>p_Beef := id_Beef st\<rparr>) (id_dupes st) (id_steak st, id_inputs st)) (\<lambda>(steak, _).
     ebind (propagateToNetwork e tx steak (id_dupes st) (p_Mode p)) (\<lambda>_.
       eret steak)))"

definition late_effect :: "SumbitMode \<Rightarrow> effect \<Rightarrow> bool" where
  "late_effect mode f \<longleftrightarrow> \<not> spend_effect f \<and> f \<noteq> BroadcastTx \<and> (mode = SubmitModeHistorical \<longrightarrow> \<not> network_effect f)"

lemma commit_late: "commit_effect f \<Longrightarrow> late_effect mode f"
  by (cases f) (auto simp: late_effect_def)

lemma emits_after_broadcast: "emits (late_effect (p_Mode p)) (after_broadcast fuel e p tx st)"
proof -
  have callbacks: "emits (late_effect (p_Mode p)) (notify_submitted e p steak)" for steak
    unfolding notify_submitted_def by (intro emits_intros) (auto simp: late_effect_def)
  show ?thesis
    unfolding after_broadcast_def
    by (intro emits_ebind[OF callbacks] emits_ebind[OF emits_mono[OF emits_commitAdmittedOutputs commit_late]]
        emits_case_prod emits_ebind[OF emits_propagateToNetwork] emits_eret) (auto simp: late_effect_def)
qed

lemma broadcastIfNeeded_run:
  assumes "broadcastIfNeeded e tx mode s = (r, t)"
  shows "if mode = SubmitModeHistorical \<or> en_Broadcaster e = None then r = Inr () \<and> t = s
    else \<exists>b. en_Broadcaster e = Some b \<and> snd t = snd s @ [BroadcastTx] \<and> b tx (fst s) = (r, fst t)"
  using assms by (auto simp: broadcastIfNeeded_def ecall_Inr eret_def split: option.splits if_splits)

lemma submitLegacy_split:
  "submitLegacy fuel e p tx st =
     ebind (markSpentAndNotify e (p_Topics p) (id_dupes st) (id_inputs st) tx (p_Txid p) (p_AtomicBeef p)) (\<lambda>_.
     ebind (broadcastIfNeeded e tx (p_Mode p)) (\<lambda>_. after_broadcast fuel e p tx st))"
  unfolding submitLegacy_def after_broadcast_def ..

lemma submitLegacy_phases:
  assumes "submitLegacy fuel e p tx st (w, []) = (r, t)"
  shows "\<exists>spent bc late. snd t = spent @ bc @ late \<and> list_all spend_effect spent \<and> list_all (late_effect (p_Mode p)) late \<and>
    (if p_Mode p = SubmitModeHistorical \<or> en_Broadcaster e = None then bc = []
     else set bc \<subseteq> {BroadcastTx} \<and> length bc \<le> 1 \<and>
       (late \<noteq> [] \<or> (\<exists>y. r = Inr y) \<longrightarrow> bc = [BroadcastTx] \<and> (\<exists>b w1 w2. en_Broadcaster e = Some b \<and> b tx w1 = (Inr (), w2))))"
proof -
  obtain r1 s1 where m: "markSpentAndNotify e (p_Topics p) (id_dupes st) (id_inputs st) tx (p_Txid p) (p_AtomicBeef p) (w, []) = (r1, s1)"
    by (rule prod.exhaust)
  have spent: "list_all spend_effect (snd s1)" using emitsD[OF emits_markSpentAndNotify m] by auto
  show ?thesis
  proof (cases r1)
    case (Inl err)
    then have "t = s1" "\<forall>y. r \<noteq> Inr y" using assms m by (auto simp: submitLegacy_split ebind_def)
    with spent show ?thesis by (intro exI[of _ "snd s1"] exI[of _ "[]"]) auto
  next
    case (Inr u)
    then have run: "ebind (broadcastIfNeeded e tx (p_Mode p)) (\<lambda>_. after_broadcast fuel e p tx st) s1 = (r, t)"
      using assms m by (auto simp: submitLegacy_split ebind_def)
    obtain r2 s2 where b: "broadcastIfNeeded e tx (p_Mode p) s1 = (r2, s2)" by (rule prod.exhaust)
    note bc = broadcastIfNeeded_run[OF b]
    show ?thesis
    proof (cases r2)
      case (Inl err)
      then have "t = s2" "\<forall>y. r \<noteq> Inr y" using run b by (auto simp: ebind_def)
      with spent bc Inl show ?thesis
        by (intro exI[of _ "snd s1"] exI[of _ "[BroadcastTx]"] exI[of _ "[]"]) (auto split: if_splits)
    next
      case (Inr v)
      then have "after_broadcast fuel e p tx st s2 = (r, t)" using run b by (auto simp: ebind_def)
      then obtain late where "snd t = snd s2 @ late" "list_all (late_effect (p_Mode p)) late"
        using emitsD[OF emits_after_broadcast] by blast
      with spent bc Inr show ?thesis
        by (intro exI[of _ "snd s1"] exI[of _ "drop (length (snd s1)) (snd s2)"] exI[of _ late]) (auto split: if_splits)
    qed
  qed
qed

lemma submit_stages:
  assumes "submitParsedBeefInternal json fuel e p (w, []) = (r, t)"
    and "GetAdmissionStorage (st_any (en_Storage e)) = None"
  obtains "snd t = []" "\<forall>y. r \<noteq> Inr y"
  | ms tx w1 st w2 where "validateTopicsAndGetManagers e (p_Topics p) = Inr ms"
      "FindTransactionForSigningByHash (sdk_of e) (p_Beef p) (p_Txid p) = Some tx" "en_Verify e tx w = (Inr True, w1)"
      "identifyAdmissibleOutputsPerTopic e p ms (buildInpoints tx) (w1, []) = (Inr st, (w2, []))"
      "submitLegacy fuel e p tx st (w2, []) = (r, t)"
proof (cases "\<exists>ms tx. validateTopicsAndGetManagers e (p_Topics p) = Inr ms \<and>
    FindTransactionForSigningByHash (sdk_of e) (p_Beef p) (p_Txid p) = Some tx")
  case False
  then have "snd t = []" "\<forall>y. r \<noteq> Inr y"
    using assms(1) by (auto simp: submitParsedBeefInternal_def ebind_def elift_def efail_def split: sum.splits option.splits)
  then show thesis by (rule that(1))
next
  case True
  then obtain ms tx where known: "validateTopicsAndGetManagers e (p_Topics p) = Inr ms"
    "FindTransactionForSigningByHash (sdk_of e) (p_Beef p) (p_Txid p) = Some tx" by blast
  have run: "ebind (verifyTransaction e tx) (\<lambda>_.
      ebind (identifyAdmissibleOutputsPerTopic e p ms (buildInpoints tx)) (submitLegacy fuel e p tx)) (w, []) = (r, t)"
    using assms known by (simp add: submitParsedBeefInternal_def ebind_def elift_def)
  obtain rv sv where v: "verifyTransaction e tx (w, []) = (rv, sv)" by (rule prod.exhaust)
  have sv: "snd sv = []" using emitsD[OF emits_verifyTransaction[of "\<lambda>_. False"] v] by (auto simp: list_all_iff)
  show thesis
  proof (cases rv)
    case (Inl err)
    with run v have "t = sv" "r = Inl err" by (auto simp: ebind_def)
    with sv show thesis by (intro that(1)) auto
  next
    case (Inr u)
    then have ok: "en_Verify e tx w = (Inr True, fst sv)"
      using v by (auto simp: verifyTransaction_def ebind_Inr eread_Inr split: if_splits)
    obtain ri si where i: "identifyAdmissibleOutputsPerTopic e p ms (buildInpoints tx) sv = (ri, si)" by (rule prod.exhaust)
    have si: "snd si = []" using emits_nothing[OF emits_identify i] sv by simp
    show thesis
    proof (cases ri)
      case (Inl err)
      with run v Inr i have "t = si" "r = Inl err" by (auto simp: ebind_def)
      with si show thesis by (intro that(1)) auto
    next
      case st: (Inr st)
      then have "submitLegacy fuel e p tx st si = (r, t)" using run v Inr i by (auto simp: ebind_def)
      with that(2)[OF known ok] i si sv st show thesis by (cases si; cases sv) auto
    qed
  qed
qed


text \<open>A submission that passes all phases.\<close>

lemma demo_run:
  "\<exists>log. submitParsedBeefInternal demo_json 1 demo_engine (demo_params [''tm_a'']) ((), []) =
     (Inr [(''tm_a'', Some (zero_admittance\<lparr>ad_OutputsToAdmit := Some [0]\<rparr>))], ((), log)) \<and> log \<noteq> []"
proof -
  have inputs: "tx_Inputs demo_tx = [TxInput demo_txid 0 None 0 None]" by (simp add: demo_tx_def)
  show ?thesis
    unfolding submitParsedBeefInternal_def submitLegacy_def identifyAdmissibleOutputsPerTopic_def identify_topic_def mergeExistingOutputs_def
      markSpentAndNotify_def markTopicUTXOsSpent_def notifySpentOutputs_def getLookupServicesSnapshot_def broadcastIfNeeded_def
      notify_submitted_def commitAdmittedOutputs_def commitTopicOutputs_def separateRetainedCoins_def notifyAdmittedOutputs_def
      updateConsumedByReferences_def propagateToNetwork_def verifyTransaction_def validateTopicsAndGetManagers_def Let_def
    by (simp add: demo_defs demo_params_def GetAdmissionStorage_def buildInpoints_def inputs inputs_of_def zero_admittance_def
      SubmitModeCurrent_def SubmitModeHistorical_def relevant_topics_def
      ebind_def eret_def elift_def eread_def ecall_def erange_def eignore_def)
qed


section \<open>What a submission records\<close>

text \<open>The inserted outputs and the applied transactions of a log, in order.\<close>

fun commit_mark :: "effect \<Rightarrow> ((string \<times> u32 list) + string) option" where
  "commit_mark (InsertEffect t _ outs _) = Some (Inl (t, outs))"
| "commit_mark (InsertApplied _ t) = Some (Inr t)"
| "commit_mark _ = None"

definition marks :: "effect list \<Rightarrow> ((string \<times> u32 list) + string) list" where
  "marks log = List.map_filter commit_mark log"

lemma marks_simps [simp]:
  "marks [] = []" "marks (a @ b) = marks a @ marks b"
  "marks (f # a) = (case commit_mark f of None \<Rightarrow> marks a | Some m \<Rightarrow> m # marks a)"
  by (auto simp: marks_def map_filter_def split: option.splits)

abbreviation unmarked :: "effect \<Rightarrow> bool" where
  "unmarked f \<equiv> commit_mark f = None"

lemma marks_unmarked: "list_all unmarked l \<Longrightarrow> marks l = []"
  by (induction l) auto

lemma emits_unmarked: "emits unmarked m \<Longrightarrow> m s = (r, t) \<Longrightarrow> marks (snd t) = marks (snd s)"
  using emitsD[of unmarked m s r t] by (auto simp: marks_unmarked)

lemma delete_unmarked: "delete_effect f \<Longrightarrow> unmarked f"
  by (cases f) auto

lemma spend_unmarked: "spend_effect f \<Longrightarrow> unmarked f"
  by (cases f) auto

definition outs_of :: "Steak \<Rightarrow> string \<Rightarrow> u32 list" where
  "outs_of steak t = (case map_of steak t of Some (Some a) \<Rightarrow> elems (ad_OutputsToAdmit a) | _ \<Rightarrow> [])"

lemma commitTopicOutputs_marks:
  assumes "commitTopicOutputs fuel e topic p admit ins s = (Inr (admit', rest), t)"
  shows "marks (snd t) = marks (snd s) @ [Inl (topic, elems (ad_OutputsToAdmit admit)), Inr topic]"
    and "ad_OutputsToAdmit admit' = ad_OutputsToAdmit admit"
proof -
  let ?outs = "elems (ad_OutputsToAdmit admit)"
  have del: "emits unmarked (eforeach (\<lambda>(vin, output). deleteUTXODeep fuel e output) order)" for order
    by (intro emits_efold emits_case_prod emits_mono[OF emits_deleteUTXODeep delete_unmarked])
  from assms obtain oc opc s1 order s2 u s3 v s4 new s5 x s6 y where
    1: "separateRetainedCoins e ins (elems (ad_CoinsToRetain admit)) s = (Inr (oc, opc, rest), s1)" and
    2: "erange (range_seed e) rest s1 = (Inr order :: engine_error + _, s2)" and
    3: "eforeach (\<lambda>(vin, output). deleteUTXODeep fuel e output) order s2 = (Inr u, s3)" and
    4: "ecall (InsertEffect topic (p_Txid p) ?outs opc)
          (st_InsertOutputs (en_Storage e) topic (p_Txid p) ?outs opc (p_Beef p) (ad_AncillaryTxids admit)) s3 = (Inr v, s4)" and
    5: "notifyAdmittedOutputs e topic (p_Txid p) ?outs (p_AtomicBeef p) (p_OffChainValues p) s4 = (Inr new, s5)" and
    6: "updateConsumedByReferences e oc new s5 = (Inr x, s6)" and
    7: "ecall (InsertApplied (p_Txid p) topic) (st_InsertAppliedTransaction (en_Storage e) (p_Txid p) topic) s6 = (Inr y, t)" and
    8: "ad_OutputsToAdmit admit' = ad_OutputsToAdmit admit"
    unfolding commitTopicOutputs_def Let_def
    by (elim ebind_InrE) (clarsimp elim!: ebind_InrE)
  have "emits unmarked (notifyAdmittedOutputs e topic (p_Txid p) ?outs (p_AtomicBeef p) (p_OffChainValues p))"
    "emits unmarked (updateConsumedByReferences e oc new)" by (intro emits_intros; simp)+
  then have "marks (snd s6) = marks (snd s4)" using emits_unmarked 5 6 by metis
  moreover have "marks (snd s4) = marks (snd s3) @ [Inl (topic, ?outs)]" using 4 by (simp add: ecall_Inr)
  moreover have "marks (snd s3) = marks (snd s)"
    using emits_unmarked[OF del 3] emits_unmarked[OF emits_separateRetainedCoins 1] erange_Inr[OF 2] by simp
  ultimately show "marks (snd t) = marks (snd s) @ [Inl (topic, ?outs), Inr topic]" using 7 by (simp add: ecall_Inr)
  show "ad_OutputsToAdmit admit' = ad_OutputsToAdmit admit" by (rule 8)
qed

lemma commitAdmittedOutputs_marks:
  assumes "efold (\<lambda>t (steak, tis).
       if t \<in> set dupes then eret (steak, tis)
       else case map_of steak t of
         Some (Some admit) \<Rightarrow>
           ebind (commitTopicOutputs fuel e t p admit (inputs_of tis t)) (\<lambda>(admit', rest).
             eret (AList.update t (Some admit') steak, AList.update t rest tis))
       | _ \<Rightarrow> efail Panic) topics (steak, tis) s = (Inr (steak', tis'), u)"
  shows "marks (snd u) = marks (snd s) @
      concat (map (\<lambda>t. [Inl (t, outs_of steak t), Inr t]) (filter (\<lambda>t. t \<notin> set dupes) topics)) \<and>
    outs_of steak' = outs_of steak"
  using assms
proof (induction topics arbitrary: steak tis s)
  case Nil
  then show ?case by simp
next
  case (Cons t topics)
  show ?case
  proof (cases "t \<in> set dupes")
    case True
    with Cons show ?thesis by simp
  next
    case False
    with Cons.prems obtain admit where a: "map_of steak t = Some (Some admit)"
      by (auto simp: ebind_def efail_def split: option.splits)
    from Cons.prems[unfolded efold.simps] obtain acc s1 where
      step: "(if t \<in> set dupes then eret (steak, tis)
       else case map_of steak t of
         Some (Some admit) \<Rightarrow>
           ebind (commitTopicOutputs fuel e t p admit (inputs_of tis t)) (\<lambda>(admit', rest).
             eret (AList.update t (Some admit') steak, AList.update t rest tis))
       | _ \<Rightarrow> efail Panic) s = (Inr acc, s1)" and
      rest: "efold (\<lambda>t (steak, tis).
       if t \<in> set dupes then eret (steak, tis)
       else case map_of steak t of
         Some (Some admit) \<Rightarrow>
           ebind (commitTopicOutputs fuel e t p admit (inputs_of tis t)) (\<lambda>(admit', rest).
             eret (AList.update t (Some admit') steak, AList.update t rest tis))
       | _ \<Rightarrow> efail Panic) topics acc s1 = (Inr (steak', tis'), u)"
      unfolding prod.case by (rule ebind_InrE)
    from step a False obtain admit' left where c: "commitTopicOutputs fuel e t p admit (inputs_of tis t) s = (Inr (admit', left), s1)"
      and acc: "acc = (AList.update t (Some admit') steak, AList.update t left tis)"
      by (auto simp: ebind_Inr)
    have "outs_of (AList.update t (Some admit') steak) = outs_of steak"
      using a commitTopicOutputs_marks(2)[OF c] by (auto simp: outs_of_def fun_eq_iff AList.update_conv')
    moreover have "outs_of steak t = elems (ad_OutputsToAdmit admit)" using a by (simp add: outs_of_def)
    ultimately show ?thesis
      using commitTopicOutputs_marks(1)[OF c] Cons.IH[OF rest[unfolded acc]] False by simp
  qed
qed

lemma identify_dupes:
  assumes "identifyAdmissibleOutputsPerTopic e p ms ips s = (Inr st, u)"
    and cap: "GetAdmissionStorage (st_any (en_Storage e)) = None"
  shows "\<forall>t \<in> set (id_dupes st). \<exists>w1 w2. st_DoesAppliedTransactionExist (en_Storage e) (p_Txid p) t w1 = (Inr True, w2)"
    and "\<forall>t \<in> set (p_Topics p). t \<in> set (id_dupes st) \<or>
           (\<exists>w1 w2. st_DoesAppliedTransactionExist (en_Storage e) (p_Txid p) t w1 = (Inr False, w2))"
proof -
  let ?ex = "\<lambda>b t. \<exists>w1 w2. st_DoesAppliedTransactionExist (en_Storage e) (p_Txid p) t w1 = (Inr b, w2)"
  have step: "(?ex True t \<and> id_dupes st' = List.insert t (id_dupes st1)) \<or> (?ex False t \<and> id_dupes st' = id_dupes st1)"
    if run: "identify_topic e p ms ips t st1 s1 = (Inr st', s')" for t st1 s1 st' s'
  proof -
    from run[unfolded identify_topic_def] obtain b s2 where
      b: "(if GetAdmissionStorage (st_any (en_Storage e)) = None
            then eread (st_DoesAppliedTransactionExist (en_Storage e) (p_Txid p) t) else eret False) s1 = (Inr b, s2)"
      and rest: "(if b then
       eret (st1\<lparr>id_steak := AList.update t (Some zero_admittance) (id_steak st1), id_dupes := List.insert t (id_dupes st1)\<rparr>)
     else
       ebind (mergeExistingOutputs e (id_Beef st1) ips t (id_inputs st1)) (\<lambda>(coins, beef', tis).
         case map_of ms t of
           Some (Some m) \<Rightarrow>
             ebind (eread (tm_IdentifyAdmissibleOutputs m beef' (p_Txid p) coins)) (\<lambda>admit.
               eret (st1\<lparr>id_Beef := beef', id_inputs := tis, id_steak := AList.update t (Some admit) (id_steak st1)\<rparr>))
         | _ \<Rightarrow> efail Panic)) s2 = (Inr st', s')" by (rule ebind_InrE)
    have "?ex b t" using b cap by (auto simp: eread_Inr)
    then show ?thesis
      using rest by (cases b) (auto elim!: ebind_InrE split: prod.splits option.splits)
  qed
  have loop: "efold (identify_topic e p ms ips) (p_Topics p) \<lparr>id_Beef = p_Beef p, id_steak = [], id_inputs = [], id_dupes = []\<rparr> s = (Inr st, u)"
    using assms(1) by (simp add: identifyAdmissibleOutputsPerTopic_def)
  show "\<forall>t \<in> set (id_dupes st). ?ex True t"
    using efold_invariant[OF loop, of "\<lambda>st _. \<forall>t \<in> set (id_dupes st). ?ex True t"] step by fastforce
  show "\<forall>t \<in> set (p_Topics p). t \<in> set (id_dupes st) \<or> ?ex False t"
  proof
    fix t assume "t \<in> set (p_Topics p)"
    with loop show "t \<in> set (id_dupes st) \<or> ?ex False t"
      by (rule efold_established[where Q = "\<lambda>t st. t \<in> set (id_dupes st) \<or> ?ex False t"]) (use step in fastforce)+
  qed
qed



section \<open>Termination of the deep deletion\<close>

text \<open>Along the history the outpoints descend: no output consumes, directly or not, itself.\<close>

definition descending :: "('w, 'b) Engine \<Rightarrow> (Outpoint \<Rightarrow> nat) \<Rightarrow> bool" where
  "descending e rank \<longleftrightarrow>
     (\<forall>outpoint topic w o1 w'. st_FindOutput (en_Storage e) outpoint topic None False w = (Inr (Some o1), w') \<longrightarrow>
        (\<forall>c \<in> set (eo_OutputsConsumed o1). rank c < rank outpoint))"

text \<open>The parameters never answer with the error that stands for the end of the fuel.\<close>

definition fuelless :: "('w, 'b) Engine \<Rightarrow> bool" where
  "fuelless e \<longleftrightarrow>
     (\<forall>op1 topic b i. outside_avoids NoFuel (st_FindOutput (en_Storage e) op1 topic b i)) \<and>
     (\<forall>op1 topic. outside_avoids NoFuel (st_DeleteOutput (en_Storage e) op1 topic)) \<and>
     (\<forall>op1 topic cs. outside_avoids NoFuel (st_UpdateConsumedBy (en_Storage e) op1 topic cs)) \<and>
     (\<forall>l \<in> snd ` set (lookupServices e). \<forall>op1 topic. outside_avoids NoFuel (ls_OutputNoLongerRetainedInHistory l op1 topic))"

lemma drop_consumer_consumed:
  "drop_consumer e c o1 s = (Inr o2, t) \<Longrightarrow> eo_OutputsConsumed o2 = eo_OutputsConsumed o1"
  by (auto simp: drop_consumer_def Let_def ebind_Inr split: if_splits)

lemma snapshot_services: "getLookupServicesSnapshot e s = (Inr ls, t) \<Longrightarrow> set ls = snd ` set (lookupServices e)"
  unfolding getLookupServicesSnapshot_def
  by (erule ebind_InrE) (metis erange_Inr eret_Inr image_set mset_eq_setD sum.inject(2))

lemma snapshot_member: "getLookupServicesSnapshot e s = (Inr ls, t) \<Longrightarrow> l \<in> set ls \<Longrightarrow> l \<in> snd ` set (lookupServices e)"
  using snapshot_services by blast

lemma avoids_delete_steps:
  assumes "fuelless e"
  shows "avoids NoFuel (delete_unconsumed e o1)" "avoids NoFuel (drop_consumer e c o1)"
proof -
  have snap: "avoids NoFuel (getLookupServicesSnapshot e)"
    unfolding getLookupServicesSnapshot_def by (intro avoids_intros)
  have del: "outside_avoids NoFuel (st_DeleteOutput (en_Storage e) op1 topic)" for op1 topic
    using assms unfolding fuelless_def by blast
  have removed: "outside_avoids NoFuel (ls_OutputNoLongerRetainedInHistory l op1 topic)"
    if "l \<in> snd ` set (lookupServices e)" for l op1 topic
    using assms that unfolding fuelless_def by blast
  show "avoids NoFuel (delete_unconsumed e o1)"
    unfolding delete_unconsumed_def
    by (intro avoids_intros del snap, rule removed, rule snapshot_member)
  show "avoids NoFuel (drop_consumer e c o1)"
    unfolding drop_consumer_def Let_def using assms by (intro avoids_intros) (auto simp: fuelless_def)
qed

lemma deleteUTXODeep_fuel:
  assumes e: "descending e rank" "fuelless e" and o1: "\<forall>c \<in> set (eo_OutputsConsumed o1). rank c < k"
  shows "avoids NoFuel (deleteUTXODeep (Suc k) e o1) \<and> (\<forall>fuel > k. deleteUTXODeep fuel e o1 = deleteUTXODeep (Suc k) e o1)"
  using o1
proof (induction k arbitrary: o1 rule: less_induct)
  case (less k)
  have deeper: "avoids NoFuel (deleteUTXODeep f e o2) \<and> deleteUTXODeep f e o2 = deleteUTXODeep k e o2"
    if "c \<in> set (eo_OutputsConsumed o1)" "st_FindOutput (en_Storage e) c topic None False w = (Inr (Some found), w')"
      "drop_consumer e d found s = (Inr o2, t)" "k \<le> f" for c topic w found w' d s o2 t f
  proof -
    have c: "rank c < k" using less.prems that(1) by blast
    have "\<forall>x \<in> set (eo_OutputsConsumed o2). rank x < rank c"
      using e(1) that(2) drop_consumer_consumed[OF that(3)] unfolding descending_def by metis
    from less.IH[OF c this] c that(4) show ?thesis by (metis less_le_trans)
  qed
  have "avoids NoFuel (deleteUTXODeep (Suc k) e o1)"
    unfolding deleteUTXODeep.simps using e(2) deeper[where f = k]
    by (intro avoids_ebind avoids_delete_steps avoids_efold avoids_eread)
       (auto simp: fuelless_def eread_Inr intro!: avoids_intros avoids_delete_steps[OF e(2)] split: option.split)
  moreover have "deleteUTXODeep fuel e o1 = deleteUTXODeep (Suc k) e o1" if lt: "k < fuel" for fuel
  proof -
    obtain f where f: "fuel = Suc f" "k \<le> f" using lt by (cases fuel) auto
    show ?thesis unfolding f(1) deleteUTXODeep.simps
      by (rule arg_cong[where f = "ebind (delete_unconsumed e o1)"], rule ext, rule efold_cong_set,
          rule ebind_cong_run) (auto simp: eread_Inr split: option.split intro!: ebind_cong_run dest: deeper[OF _ _ _ f(2)])
  qed
  ultimately show ?case by blast
qed

text \<open>The deep deletion terminates on every acyclic history: when the outpoints an output consumed
  have smaller ranks than the output itself, recursion to the depth of the rank bound suffices,
  so that any larger bound gives the same run and the bound is never reached.\<close>

theorem deleteUTXODeep_terminates:
  assumes "descending e rank" "fuelless e" "\<forall>c \<in> set (eo_OutputsConsumed o1). rank c < k"
  shows "\<forall>fuel > k. deleteUTXODeep fuel e o1 s = deleteUTXODeep (Suc k) e o1 s \<and>
    fst (deleteUTXODeep fuel e o1 s) \<noteq> Inl NoFuel"
  using deleteUTXODeep_fuel[OF assms] unfolding avoids_def by metis

text \<open>An output that consumed another one, which only it needed.\<close>

definition demo_output :: "u32 \<Rightarrow> Outpoint list \<Rightarrow> Outpoint list \<Rightarrow> Tx EOutput" where
  "demo_output i consumed consumers =
     \<lparr>eo_Outpoint = \<lparr>op_Txid = demo_txid, op_Index = i\<rparr>, eo_Topic = ''tm_a'', eo_Spent = False, eo_OutputsConsumed = consumed,
      eo_ConsumedBy = consumers, eo_BlockHeight = 0, eo_BlockIdx = 0, eo_Score = 0, eo_Beef = None, eo_AncillaryTxids = [],
      eo_MerkleRoot = None, eo_MerkleState = MerkleStateUnmined\<rparr>"

definition demo_point :: "u32 \<Rightarrow> Outpoint" where
  "demo_point i = \<lparr>op_Txid = demo_txid, op_Index = i\<rparr>"

definition demo_chain_engine :: "(unit, Tx) Engine" where
  "demo_chain_engine = demo_engine\<lparr>en_Storage := demo_storage\<lparr>st_FindOutput := \<lambda>o1 _ _ _ w.
     (Inr (if op_Index o1 = 1 then Some (demo_output 1 [demo_point 0] [demo_point 2])
           else if op_Index o1 = 0 then Some (demo_output 0 [] [demo_point 1]) else None), w)\<rparr>\<rparr>"

theorem deleteUTXODeep_terminates_witness:
  "deleteUTXODeep 1000 demo_chain_engine (demo_output 2 [demo_point 1] []) ((), []) =
     (Inr (), ((), [DeleteEffect (demo_point 2) ''tm_a'', SetConsumedBy (demo_point 1) ''tm_a'' [], DeleteEffect (demo_point 1) ''tm_a'',
       SetConsumedBy (demo_point 0) ''tm_a'' [], DeleteEffect (demo_point 0) ''tm_a'']))"
proof -
  have "descending demo_chain_engine (\<lambda>o1. unat (op_Index o1))"
    by (auto simp: descending_def demo_chain_engine_def demo_defs demo_output_def demo_point_def split: if_splits)
  moreover have "fuelless demo_chain_engine"
    by (auto simp: fuelless_def outside_avoids_def demo_chain_engine_def demo_defs)
  moreover have "\<forall>c \<in> set (eo_OutputsConsumed (demo_output 2 [demo_point 1] [])). unat (op_Index c) < 2"
    by (simp add: demo_output_def demo_point_def)
  ultimately have bound: "\<forall>fuel > 2. deleteUTXODeep fuel demo_chain_engine (demo_output 2 [demo_point 1] []) ((), []) =
     deleteUTXODeep (Suc 2) demo_chain_engine (demo_output 2 [demo_point 1] []) ((), []) \<and>
     fst (deleteUTXODeep fuel demo_chain_engine (demo_output 2 [demo_point 1] []) ((), [])) \<noteq> Inl NoFuel"
    by (rule deleteUTXODeep_terminates)
  have "(2::nat) < 1000" by simp
  from conjunct1[OF mp[OF spec[OF bound] this]]
  have "deleteUTXODeep 1000 demo_chain_engine (demo_output 2 [demo_point 1] []) ((), []) =
     deleteUTXODeep (Suc 2) demo_chain_engine (demo_output 2 [demo_point 1] []) ((), [])" .
  also have "\<dots> = (Inr (), ((), [DeleteEffect (demo_point 2) ''tm_a'', SetConsumedBy (demo_point 1) ''tm_a'' [],
       DeleteEffect (demo_point 1) ''tm_a'', SetConsumedBy (demo_point 0) ''tm_a'' [], DeleteEffect (demo_point 0) ''tm_a'']))"
    by code_simp
  finally show ?thesis .
qed

end
