(* ===== verification/Engine_Serve.thy ===== *)
theory Engine_Serve
  imports Engine_Submit "HOL-Library.Sublist"
begin

text \<open>
  What the engine answers: lookups with the history of the outputs found, and the two requests of a
  GASP peer (\<^verbatim>\<open>pkg/core/engine/engine.go\<close>, from \<open>Lookup\<close> to \<open>stitchSourceTransactions\<close> and from
  \<open>ProvideForeignSyncResponse\<close> to \<open>buildGASPNode\<close>). None of these writes anything. The walk over the history
  is bounded by \<open>fuel\<close>; \<open>GetUTXOHistory_terminates\<close> shows how much is enough.
\<close>

section \<open>Lookups\<close>

text \<open>Links the source transactions of the inputs whose histories were collected.\<close>

fun stitch_inputs :: "'b sdk_tx \<Rightarrow> (Outpoint \<times> 'b EOutput) list \<Rightarrow> TxInput list \<Rightarrow> engine_error + TxInput list" where
  "stitch_inputs s childHistories [] = Inr []"
| "stitch_inputs s childHistories (TxInput sid idx us sn src # ins) =
     rbind (case map_of childHistories \<lparr>op_Txid = sid, op_Index = idx\<rparr> of
              None \<Rightarrow> Inr src
            | Some child \<Rightarrow>
                (case eo_Beef child of
                   None \<Rightarrow> Inl ErrMissingBeef
                 | Some beef \<Rightarrow>
                     (case FindTransactionForSigningByHash s beef sid of
                        None \<Rightarrow> Inl ErrMissingBeef
                      | Some tx \<Rightarrow> Inr (Some tx)))) (\<lambda>src'.
     rbind (stitch_inputs s childHistories ins) (\<lambda>ins'. Inr (TxInput sid idx us sn src' # ins')))"

definition stitchSourceTransactions :: "'b sdk_tx \<Rightarrow> Tx \<Rightarrow> (Outpoint \<times> 'b EOutput) list \<Rightarrow> engine_error + Tx" where
  "stitchSourceTransactions s tx childHistories =
     rbind (stitch_inputs s childHistories (tx_Inputs tx)) (\<lambda>ins.
       Inr (Tx (tx_Version tx) ins (tx_Outputs tx) (tx_LockTime tx) (tx_MerklePath tx)))"

text \<open>The histories of the consumed outputs; \<open>history\<close> is the recursive call of \<open>GetUTXOHistory\<close>.\<close>

definition collectChildHistories :: "('b EOutput \<Rightarrow> ('w, 'b EOutput option) eng) \<Rightarrow> ('w, 'b) Engine \<Rightarrow> Outpoint list \<Rightarrow>
    ('w, (Outpoint \<times> 'b EOutput) list) eng" where
  "collectChildHistories history e outputsConsumed =
     efold (\<lambda>outpoint childHistories.
       ebind (eread (st_FindOutput (en_Storage e) outpoint None None True)) (\<lambda>childOutput.
         case childOutput of
           None \<Rightarrow> eret childHistories
         | Some found \<Rightarrow>
             ebind (eread (st_LoadAncillaryBeef (en_Storage e) found)) (\<lambda>loaded.
             ebind (history loaded) (\<lambda>child.
               case child of
                 None \<Rightarrow> eret childHistories
               | Some c \<Rightarrow> eret (AList.update (eo_Outpoint c) c childHistories))))) outputsConsumed []"

text \<open>The BEEF of an output rebuilt around the histories of what it consumed.\<close>

definition rebuild_history :: "'b sdk_tx \<Rightarrow> 'b EOutput \<Rightarrow> (Outpoint \<times> 'b EOutput) list \<Rightarrow> engine_error + 'b EOutput" where
  "rebuild_history s o1 childHistories =
     (case eo_Beef o1 of
        None \<Rightarrow> Inl Panic
      | Some beef \<Rightarrow>
          (case FindTransactionForSigningByHash s beef (op_Txid (eo_Outpoint o1)) of
             None \<Rightarrow> Inl ErrMissingBeef
           | Some tx \<Rightarrow>
               rbind (stitchSourceTransactions s tx childHistories) (\<lambda>tx'.
               rbind (TxBEEF s tx') (\<lambda>beefBytes.
               rbind (ParseBeef s beefBytes) (\<lambda>(beef', _, _). Inr (o1\<lparr>eo_Beef := Some beef'\<rparr>))))))"

primrec GetUTXOHistory :: "nat \<Rightarrow> ('w, 'b) Engine \<Rightarrow> 'b history_selector option \<Rightarrow> u32 \<Rightarrow> 'b EOutput \<Rightarrow> ('w, 'b EOutput option) eng" where
  "GetUTXOHistory 0 e selector depth o1 = efail NoFuel"
| "GetUTXOHistory (Suc fuel) e selector depth o1 =
     (case selector of
        None \<Rightarrow> eret (Some o1)
      | Some select \<Rightarrow>
          if \<not> select (eo_Beef o1) (op_Index (eo_Outpoint o1)) depth then eret None
          else if eo_OutputsConsumed o1 = [] then eret (Some o1)
          else
            ebind (collectChildHistories (GetUTXOHistory fuel e selector (depth + 1)) e (eo_OutputsConsumed o1)) (\<lambda>childHistories.
            ebind (elift (rebuild_history (sdk_of e) o1 childHistories)) (\<lambda>o2. eret (Some o2))))"

definition hydrateOneFormula :: "nat \<Rightarrow> ('w, 'b) Engine \<Rightarrow> 'b LookupFormula \<Rightarrow> ('w, OutputListItem option) eng" where
  "hydrateOneFormula fuel e formula =
     ebind (eread (st_FindOutput (en_Storage e) (lf_Outpoint formula) None None True)) (\<lambda>found.
       case found of
         None \<Rightarrow> eret None
       | Some o1 \<Rightarrow>
           if eo_Beef o1 = None then eret None
           else
             ebind (eread (st_LoadAncillaryBeef (en_Storage e) o1)) (\<lambda>o2.
             ebind (GetUTXOHistory fuel e (lf_History formula) 0 o2) (\<lambda>hydrated.
               case hydrated of
                 None \<Rightarrow> eret None
               | Some o3 \<Rightarrow>
                   (case eo_Beef o3 of
                      None \<Rightarrow> eret None
                    | Some beef \<Rightarrow>
                        ebind (elift (AtomicBytes (sdk_of e) beef (op_Txid (eo_Outpoint o3)))) (\<lambda>beefBytes.
                          eret (Some \<lparr>li_Beef = beefBytes, li_OutputIndex = op_Index (eo_Outpoint o3)\<rparr>))))))"

definition hydrateFormulas :: "nat \<Rightarrow> ('w, 'b) Engine \<Rightarrow> 'b LookupFormula list \<Rightarrow> ('w, OutputListItem list) eng" where
  "hydrateFormulas fuel e formulas =
     efold (\<lambda>formula hydratedOutputs.
       ebind (hydrateOneFormula fuel e formula) (\<lambda>item.
         case item of None \<Rightarrow> eret hydratedOutputs | Some i \<Rightarrow> eret (hydratedOutputs @ [i]))) formulas []"

definition Lookup :: "nat \<Rightarrow> ('w, 'b) Engine \<Rightarrow> LookupQuestion \<Rightarrow> ('w, 'b LookupAnswer) eng" where
  "Lookup fuel e question =
     (case GetLookupService e (lq_Service question) of
        None \<Rightarrow> efail ErrUnknownTopic
      | Some l \<Rightarrow>
          ebind (eread (ls_Lookup l question)) (\<lambda>result.
            if la_Type result = AnswerTypeFreeform \<or> la_Type result = AnswerTypeOutputList then eret result
            else ebind (hydrateFormulas fuel e (la_Formulas result)) (\<lambda>hydratedOutputs.
              eret \<lparr>la_Type = AnswerTypeOutputList, la_Outputs = hydratedOutputs, la_Formulas = [], la_Result = ''''\<rparr>)))"

section \<open>Requests of a peer\<close>

definition ProvideForeignSyncResponse :: "('w, 'b) Engine \<Rightarrow> InitialRequest \<Rightarrow> string \<Rightarrow> ('w, InitialResponse) eng" where
  "ProvideForeignSyncResponse e initialRequest topic =
     ebind (eread (st_FindUTXOsForTopic (en_Storage e) topic (req_Since initialRequest) (req_Limit initialRequest) False)) (\<lambda>utxos.
       eret \<lparr>resp_UTXOList = map (\<lambda>utxo. \<lparr>o_Txid = op_Txid (eo_Outpoint utxo), o_OutputIndex = op_Index (eo_Outpoint utxo),
               o_Score = eo_Score utxo\<rparr>) utxos, resp_Since = req_Since initialRequest\<rparr>)"

definition buildGASPNode :: "'b sdk_tx \<Rightarrow> Outpoint \<Rightarrow> Outpoint \<Rightarrow> Tx \<Rightarrow> Node" where
  "buildGASPNode s graphID outpoint tx =
     \<lparr>n_GraphID = Some graphID, n_RawTx = TxBytes s tx, n_OutputIndex = op_Index outpoint,
      n_Proof = (case tx_MerklePath tx of None \<Rightarrow> [] | Some path \<Rightarrow> PathBytes s path),
      n_TxMetadata = '''', n_OutputMetadata = '''', n_Inputs = Map.empty\<rparr>"

text \<open>The first consumed output that yields a node; one that is missing or fails is passed over.\<close>

fun first_hydrated :: "('b EOutput \<Rightarrow> ('w, Node) eng) \<Rightarrow> ('w, 'b) Engine \<Rightarrow> string \<Rightarrow> Outpoint list \<Rightarrow> ('w, Node) eng" where
  "first_hydrated hydrate e topic [] = efail ErrMissingOutput"
| "first_hydrated hydrate e topic (consumed # rest) =
     ebind (etry (eread (st_FindOutput (en_Storage e) consumed (Some topic) None True))) (\<lambda>found.
       case found of
         Inl _ \<Rightarrow> first_hydrated hydrate e topic rest
       | Inr None \<Rightarrow> first_hydrated hydrate e topic rest
       | Inr (Some consumedOutput) \<Rightarrow>
           ebind (etry (hydrate consumedOutput)) (\<lambda>node.
             case node of
               Inl Panic \<Rightarrow> efail Panic
             | Inl _ \<Rightarrow> first_hydrated hydrate e topic rest
             | Inr n \<Rightarrow> eret n))"

function hydrateGASPNode :: "('w, 'b) Engine \<Rightarrow> 'b EOutput \<Rightarrow> Outpoint \<Rightarrow> Outpoint \<Rightarrow> string \<Rightarrow> nat \<Rightarrow> ('w, Node) eng" where
  "hydrateGASPNode e o1 graphID outpoint topic depth =
     (if eo_Beef o1 = None then efail ErrMissingInput
      else
        ebind (eread (st_LoadAncillaryBeef (en_Storage e) o1)) (\<lambda>o2.
          case eo_Beef o2 of
            None \<Rightarrow> efail Panic
          | Some beef \<Rightarrow>
              (case FindTransactionByHash (sdk_of e) beef (op_Txid outpoint) of
                 Some correctTx \<Rightarrow> eret (buildGASPNode (sdk_of e) graphID outpoint correctTx)
               | None \<Rightarrow>
                   if 0 < depth then efail ErrMissingOutput
                   else first_hydrated (\<lambda>consumed. hydrateGASPNode e consumed graphID outpoint topic (depth + 1)) e topic
                          (eo_OutputsConsumed o2))))"
  by pat_completeness auto
termination by (relation "measure (\<lambda>(_, _, _, _, _, depth). 1 - depth)") auto

declare hydrateGASPNode.simps [simp del]

definition ProvideForeignGASPNode :: "('w, 'b) Engine \<Rightarrow> Outpoint \<Rightarrow> Outpoint \<Rightarrow> string \<Rightarrow> ('w, Node) eng" where
  "ProvideForeignGASPNode e graphID outpoint topic =
     ebind (eread (st_FindOutput (en_Storage e) graphID (Some topic) None True)) (\<lambda>found.
       case found of
         None \<Rightarrow> efail ErrMissingOutput
       | Some o1 \<Rightarrow> hydrateGASPNode e o1 graphID outpoint topic 0)"

section \<open>Answers have no effects\<close>

lemma emits_GetUTXOHistory [emits_intros]: "emits P (GetUTXOHistory fuel e selector depth o1)"
proof (induction fuel arbitrary: depth o1)
  case 0
  then show ?case by (simp add: emits_efail)
next
  case (Suc fuel)
  show ?case unfolding GetUTXOHistory.simps collectChildHistories_def by (intro emits_intros Suc)
qed

lemma emits_hydrateOneFormula [emits_intros]: "emits P (hydrateOneFormula fuel e formula)"
  unfolding hydrateOneFormula_def by (intro emits_intros)

lemma emits_Lookup: "emits P (Lookup fuel e question)"
  unfolding Lookup_def hydrateFormulas_def by (intro emits_intros)

lemma emits_first_hydrated:
  assumes "\<And>c. emits P (hydrate c)"
  shows "emits P (first_hydrated hydrate e topic cs)"
proof (induction cs)
  case Nil
  then show ?case by (simp add: emits_efail)
next
  case (Cons c cs)
  have node: "emits P (case node of Inl Panic \<Rightarrow> efail Panic | Inl _ \<Rightarrow> first_hydrated hydrate e topic cs | Inr n \<Rightarrow> eret n)" for node
    using Cons by (auto split: sum.split engine_error.split intro: emits_intros)
  show ?case unfolding first_hydrated.simps
    by (intro emits_intros assms Cons node)
qed

lemma emits_hydrateGASPNode: "emits P (hydrateGASPNode e o1 graphID outpoint topic depth)"
proof (induction e o1 graphID outpoint topic depth rule: hydrateGASPNode.induct)
  case (1 e o1 graphID outpoint topic depth)
  show ?case by (subst hydrateGASPNode.simps) (intro emits_intros emits_first_hydrated "1.IH")
qed

section \<open>Lookups answer what was asked\<close>

text \<open>What storage promises: the output of the outpoint it was asked for, also after loading.\<close>

definition storage_answers :: "('w, 'b) Engine \<Rightarrow> bool" where
  "storage_answers e \<longleftrightarrow>
     (\<forall>outpoint topic spent b w o1 w'. st_FindOutput (en_Storage e) outpoint topic spent b w = (Inr (Some o1), w') \<longrightarrow> eo_Outpoint o1 = outpoint) \<and>
     (\<forall>o1 w o2 w'. st_LoadAncillaryBeef (en_Storage e) o1 w = (Inr o2, w') \<longrightarrow> eo_Outpoint o2 = eo_Outpoint o1)"

lemma rebuild_history_outpoint: "rebuild_history s o1 ch = Inr o2 \<Longrightarrow> eo_Outpoint o2 = eo_Outpoint o1"
  by (auto simp: rebuild_history_def rbind_Inr_iff split: option.splits)

lemma GetUTXOHistory_outpoint:
  "GetUTXOHistory fuel e selector depth o1 s = (Inr (Some o2), t) \<Longrightarrow> eo_Outpoint o2 = eo_Outpoint o1"
  by (cases fuel) (auto simp: ebind_Inr rebuild_history_outpoint split: option.splits if_splits)

lemma hydrateOneFormula_index:
  assumes "storage_answers e" "hydrateOneFormula fuel e formula s = (Inr (Some item), t)"
  shows "li_OutputIndex item = op_Index (lf_Outpoint formula)"
proof -
  obtain o1 s1 o2 s2 o3 s3 where found: "eread (st_FindOutput (en_Storage e) (lf_Outpoint formula) None None True) s = ((Inr (Some o1) :: engine_error + _), s1)"
    and loaded: "eread (st_LoadAncillaryBeef (en_Storage e) o1) s1 = ((Inr o2 :: engine_error + _), s2)"
    and history: "GetUTXOHistory fuel e (lf_History formula) 0 o2 s2 = (Inr (Some o3), s3)"
    and item: "li_OutputIndex item = op_Index (eo_Outpoint o3)"
    using assms(2) unfolding hydrateOneFormula_def
    by (auto elim!: ebind_InrE split: option.split_asm if_split_asm)
  have "eo_Outpoint o1 = lf_Outpoint formula" "eo_Outpoint o2 = eo_Outpoint o1"
    using assms(1) found loaded unfolding storage_answers_def eread_Inr by blast+
  with GetUTXOHistory_outpoint[OF history] item show ?thesis by simp
qed

lemma hydrateFormulas_subseq:
  assumes "storage_answers e"
  shows "efold (\<lambda>formula hydratedOutputs.
       ebind (hydrateOneFormula fuel e formula) (\<lambda>item.
         case item of None \<Rightarrow> eret hydratedOutputs | Some i \<Rightarrow> eret (hydratedOutputs @ [i]))) formulas acc s = (Inr items, t) \<Longrightarrow>
    \<exists>more. items = acc @ more \<and> subseq (map li_OutputIndex more) (map (op_Index \<circ> lf_Outpoint) formulas)"
proof (induction formulas arbitrary: acc s)
  case Nil
  then show ?case by simp
next
  case (Cons formula formulas)
  then obtain item s1 where item: "hydrateOneFormula fuel e formula s = (Inr item, s1)"
    and rest: "efold (\<lambda>formula hydratedOutputs.
       ebind (hydrateOneFormula fuel e formula) (\<lambda>item.
         case item of None \<Rightarrow> eret hydratedOutputs | Some i \<Rightarrow> eret (hydratedOutputs @ [i]))) formulas
         (case item of None \<Rightarrow> acc | Some i \<Rightarrow> acc @ [i]) s1 = (Inr items, t)"
    by (auto simp: ebind_Inr split: option.splits)
  obtain more where more: "items = (case item of None \<Rightarrow> acc | Some i \<Rightarrow> acc @ [i]) @ more"
    "subseq (map li_OutputIndex more) (map (op_Index \<circ> lf_Outpoint) formulas)" using Cons.IH[OF rest] by blast
  show ?case
  proof (cases item)
    case None
    with more show ?thesis by (auto simp: comp_def intro: list_emb_Cons)
  next
    case (Some i)
    with hydrateOneFormula_index[OF assms, of fuel formula s i] item more show ?thesis
      by (intro exI[of _ "i # more"]) (auto simp: comp_def)
  qed
qed


section \<open>Histories\<close>

text \<open>The fields of an input that its serialisation has.\<close>

definition kept_fields :: "TxInput \<Rightarrow> hash \<times> u32 \<times> byte list option \<times> u32" where
  "kept_fields i = (in_SourceTXID i, in_SourceTxOutIndex i, in_UnlockingScript i, in_SequenceNumber i)"

abbreviation spent_outpoint :: "TxInput \<Rightarrow> Outpoint" where
  "spent_outpoint i \<equiv> \<lparr>op_Txid = in_SourceTXID i, op_Index = in_SourceTxOutIndex i\<rparr>"

lemma stitch_inputs_Inr:
  "stitch_inputs s ch ins = Inr ins' \<Longrightarrow>
     list_all2 (\<lambda>i i'. kept_fields i' = kept_fields i \<and>
       (case map_of ch (spent_outpoint i) of
          None \<Rightarrow> in_SourceTransaction i' = in_SourceTransaction i
        | Some child \<Rightarrow> \<exists>beef tx. eo_Beef child = Some beef \<and>
            FindTransactionForSigningByHash s beef (in_SourceTXID i) = Some tx \<and> in_SourceTransaction i' = Some tx)) ins ins'"
proof (induction s ch ins arbitrary: ins' rule: stitch_inputs.induct)
  case (2 s ch sid idx us sn src ins)
  then obtain src' rest where src': "(case map_of ch \<lparr>op_Txid = sid, op_Index = idx\<rparr> of None \<Rightarrow> Inr src
        | Some child \<Rightarrow> (case eo_Beef child of None \<Rightarrow> Inl ErrMissingBeef
          | Some beef \<Rightarrow> (case FindTransactionForSigningByHash s beef sid of None \<Rightarrow> Inl ErrMissingBeef | Some tx \<Rightarrow> Inr (Some tx)))) = Inr src'"
    and rest: "stitch_inputs s ch ins = Inr rest" and ins': "ins' = TxInput sid idx us sn src' # rest"
    by (auto simp: rbind_Inr_iff)
  show ?case
  proof (cases "map_of ch \<lparr>op_Txid = sid, op_Index = idx\<rparr>")
    case None
    with src' "2.IH"[OF src' rest] show ?thesis by (simp add: ins' kept_fields_def)
  next
    case (Some child)
    with src' obtain beef tx where "eo_Beef child = Some beef" "FindTransactionForSigningByHash s beef sid = Some tx" "src' = Some tx"
      by (cases "eo_Beef child"; cases "FindTransactionForSigningByHash s (the (eo_Beef child)) sid") auto
    with Some "2.IH"[OF src' rest] show ?thesis by (simp add: ins' kept_fields_def)
  qed
qed simp

text \<open>Stitching keeps the transaction as it is serialised and links exactly the inputs whose consumed
  outputs have a collected history to the source transaction found in that history.\<close>

theorem stitchSourceTransactions_links:
  assumes "stitchSourceTransactions s tx childHistories = Inr tx'"
  shows "list_all2 (\<lambda>i i'. kept_fields i' = kept_fields i \<and>
       (case map_of childHistories (spent_outpoint i) of
          None \<Rightarrow> in_SourceTransaction i' = in_SourceTransaction i
        | Some child \<Rightarrow> \<exists>beef src. eo_Beef child = Some beef \<and>
            FindTransactionForSigningByHash s beef (in_SourceTXID i) = Some src \<and> in_SourceTransaction i' = Some src))
      (tx_Inputs tx) (tx_Inputs tx') \<and>
    tx_Version tx' = tx_Version tx \<and> tx_Outputs tx' = tx_Outputs tx \<and> tx_LockTime tx' = tx_LockTime tx \<and> tx_MerklePath tx' = tx_MerklePath tx"
  using assms stitch_inputs_Inr by (fastforce simp: stitchSourceTransactions_def rbind_Inr_iff)

text \<open>
  The history is acyclic: what a stored output consumed has a smaller rank than the output. The
  parameters never answer with the error that stands for the end of the fuel.
\<close>

definition history_descends :: "('w, 'b) Engine \<Rightarrow> (Outpoint \<Rightarrow> nat) \<Rightarrow> bool" where
  "history_descends e rank \<longleftrightarrow>
     (\<forall>outpoint w o1 w' v o2 v'. st_FindOutput (en_Storage e) outpoint None None True w = (Inr (Some o1), w') \<longrightarrow>
        st_LoadAncillaryBeef (en_Storage e) o1 v = (Inr o2, v') \<longrightarrow> (\<forall>c \<in> set (eo_OutputsConsumed o2). rank c < rank outpoint))"

definition history_fuelless :: "('w, 'b) Engine \<Rightarrow> bool" where
  "history_fuelless e \<longleftrightarrow>
     (\<forall>op1 t b i. outside_avoids NoFuel (st_FindOutput (en_Storage e) op1 t b i)) \<and>
     (\<forall>o1. outside_avoids NoFuel (st_LoadAncillaryBeef (en_Storage e) o1)) \<and>
     (\<forall>tx. TxBEEF (sdk_of e) tx \<noteq> Inl NoFuel) \<and> (\<forall>b. ParseBeef (sdk_of e) b \<noteq> Inl NoFuel)"

lemma stitch_inputs_error: "stitch_inputs s ch ins = Inl err \<Longrightarrow> err = ErrMissingBeef"
  by (induction s ch ins rule: stitch_inputs.induct) (auto simp: rbind_Inl_iff split: option.splits)

lemma rebuild_history_fuelless: "history_fuelless e \<Longrightarrow> rebuild_history (sdk_of e) o1 ch \<noteq> Inl NoFuel"
  using stitch_inputs_error[of "sdk_of e" ch]
  by (fastforce simp: rebuild_history_def stitchSourceTransactions_def history_fuelless_def rbind_Inl_iff split: option.splits)

lemma collect_cong:
  assumes "\<And>c w o1 w' v o2 v'. c \<in> set cs \<Longrightarrow> st_FindOutput (en_Storage e) c None None True w = (Inr (Some o1), w') \<Longrightarrow>
    st_LoadAncillaryBeef (en_Storage e) o1 v = (Inr o2, v') \<Longrightarrow> history o2 = history' o2"
  shows "collectChildHistories history e cs = collectChildHistories history' e cs"
  unfolding collectChildHistories_def
  by (intro efold_cong_set ebind_cong_run option.case_cong refl arg_cong[where f = "\<lambda>m. ebind m _"])
     (use assms in \<open>auto simp: eread_Inr\<close>)

lemma avoids_case_option: "(x = None \<Longrightarrow> avoids err m) \<Longrightarrow> (\<And>y. x = Some y \<Longrightarrow> avoids err (f y)) \<Longrightarrow>
    avoids err (case x of None \<Rightarrow> m | Some y \<Rightarrow> f y)"
  by (cases x) auto

lemma avoids_collect:
  assumes "history_fuelless e" "\<And>c w o1 w' v o2 v'. c \<in> set cs \<Longrightarrow> st_FindOutput (en_Storage e) c None None True w = (Inr (Some o1), w') \<Longrightarrow>
    st_LoadAncillaryBeef (en_Storage e) o1 v = (Inr o2, v') \<Longrightarrow> avoids NoFuel (history o2)"
  shows "avoids NoFuel (collectChildHistories history e cs)"
  unfolding collectChildHistories_def
  by (intro avoids_efold avoids_ebind avoids_eread avoids_case_option avoids_eret)
     (use assms in \<open>auto simp: eread_Inr history_fuelless_def\<close>)

lemma GetUTXOHistory_fuel:
  assumes e: "history_descends e rank" "history_fuelless e" and o1: "\<forall>c \<in> set (eo_OutputsConsumed o1). rank c < k"
  shows "avoids NoFuel (GetUTXOHistory (Suc k) e sel d o1) \<and>
    (\<forall>fuel > k. GetUTXOHistory fuel e sel d o1 = GetUTXOHistory (Suc k) e sel d o1)"
  using o1
proof (induction k arbitrary: o1 d rule: less_induct)
  case (less k)
  have deeper: "avoids NoFuel (GetUTXOHistory f e sel d' o3) \<and> GetUTXOHistory f e sel d' o3 = GetUTXOHistory k e sel d' o3"
    if "c \<in> set (eo_OutputsConsumed o1)" "st_FindOutput (en_Storage e) c None None True w = (Inr (Some o2), w')"
      "st_LoadAncillaryBeef (en_Storage e) o2 v = (Inr o3, v')" "k \<le> f" for c w o2 w' v o3 v' f d'
  proof -
    have c: "rank c < k" using less.prems that(1) by blast
    have "\<forall>x \<in> set (eo_OutputsConsumed o3). rank x < rank c"
      using e(1) that(2,3) unfolding history_descends_def by blast
    from less.IH[OF c this, of d'] c that(4) show ?thesis by (metis less_le_trans)
  qed
  have collect: "avoids NoFuel (collectChildHistories (GetUTXOHistory k e sel (d + 1)) e (eo_OutputsConsumed o1))"
    by (rule avoids_collect[OF e(2)]) (use deeper in blast)
  have "avoids NoFuel (GetUTXOHistory (Suc k) e sel d o1)"
    unfolding GetUTXOHistory.simps
    by (intro avoids_case_option avoids_if avoids_eret avoids_ebind collect)
       (simp add: avoids_def elift_def rebuild_history_fuelless[OF e(2)])
  moreover have "GetUTXOHistory fuel e sel d o1 = GetUTXOHistory (Suc k) e sel d o1" if lt: "k < fuel" for fuel
  proof -
    obtain f where f: "fuel = Suc f" "k \<le> f" using lt by (cases fuel) auto
    have "collectChildHistories (GetUTXOHistory f e sel (d + 1)) e (eo_OutputsConsumed o1) =
        collectChildHistories (GetUTXOHistory k e sel (d + 1)) e (eo_OutputsConsumed o1)"
      by (rule collect_cong) (rule conjunct2[OF deeper[OF _ _ _ f(2)]])
    then show ?thesis unfolding f(1) GetUTXOHistory.simps by (cases sel) simp_all
  qed
  ultimately show ?case by blast
qed

text \<open>Collecting the history of an output terminates on every acyclic history: when the outpoints an
  output consumed have smaller ranks than the output itself, recursion to the depth of the
  rank bound suffices, so that any larger bound gives the same run and the bound is never reached.\<close>

theorem GetUTXOHistory_terminates:
  assumes "history_descends e rank" "history_fuelless e" "\<forall>c \<in> set (eo_OutputsConsumed o1). rank c < k"
  shows "\<forall>fuel > k. GetUTXOHistory fuel e selector depth o1 s = GetUTXOHistory (Suc k) e selector depth o1 s \<and>
    fst (GetUTXOHistory fuel e selector depth o1 s) \<noteq> Inl NoFuel"
  using GetUTXOHistory_fuel[OF assms] unfolding avoids_def by metis

section \<open>Nodes for peers\<close>

text \<open>The SDK finds a transaction under its id.\<close>

definition finds_by_id :: "'b sdk_tx \<Rightarrow> bool" where
  "finds_by_id s \<longleftrightarrow> (\<forall>beef h tx. FindTransactionByHash s beef h = Some tx \<longrightarrow> TxID s tx = h)"

text \<open>A stored output, loaded, whose BEEF holds the transaction.\<close>

definition stored_with :: "('w, 'b) Engine \<Rightarrow> string \<Rightarrow> Outpoint \<Rightarrow> 'b EOutput \<Rightarrow> bool" where
  "stored_with e topic outpoint o2 \<longleftrightarrow>
     (\<exists>w o1 w' v v'. st_FindOutput (en_Storage e) outpoint (Some topic) None True w = (Inr (Some o1), w') \<and>
        st_LoadAncillaryBeef (en_Storage e) o1 v = (Inr o2, v'))"

definition beef_has :: "('w, 'b) Engine \<Rightarrow> 'b EOutput \<Rightarrow> hash \<Rightarrow> Tx \<Rightarrow> bool" where
  "beef_has e o1 txid tx \<longleftrightarrow> (\<exists>beef. eo_Beef o1 = Some beef \<and> FindTransactionByHash (sdk_of e) beef txid = Some tx)"

lemma first_hydrated_Inr:
  assumes "first_hydrated hydrate e topic cs s = (Inr node, t)"
  shows "\<exists>c w o1 w' u v. c \<in> set cs \<and> st_FindOutput (en_Storage e) c (Some topic) None True w = (Inr (Some o1), w') \<and>
    hydrate o1 u = (Inr node, v)"
  using assms
proof (induction cs arbitrary: s)
  case Nil
  then show ?case by simp
next
  case (Cons c cs)
  obtain r s1 where r: "eread (st_FindOutput (en_Storage e) c (Some topic) None True) s = ((r :: engine_error + _), s1)" by (rule prod.exhaust)
  show ?case
  proof (cases "\<exists>o1 v. r = Inr (Some o1) \<and> hydrate o1 s1 = (Inr node, v)")
    case True
    then obtain o1 v where o1: "r = Inr (Some o1)" "hydrate o1 s1 = (Inr node, v)" by blast
    with r have "st_FindOutput (en_Storage e) c (Some topic) None True (fst s) = (Inr (Some o1), fst s1)" by (simp add: eread_Inr)
    with o1(2) show ?thesis by (meson list.set_intros(1))
  next
    case False
    then obtain s2 where "first_hydrated hydrate e topic cs s2 = (Inr node, t)"
      using Cons.prems r
      by (auto simp: ebind_def etry_def eret_def efail_def split: prod.splits sum.split_asm option.split_asm engine_error.split_asm)
         (metis prod.collapse)
    from Cons.IH[OF this] show ?thesis by (meson list.set_intros(2))
  qed
qed

lemma hydrateGASPNode_Inr:
  assumes "hydrateGASPNode e o1 graphID outpoint topic depth s = (Inr node, t)"
  shows "\<exists>o2 tx u v. st_LoadAncillaryBeef (en_Storage e) o1 u = (Inr o2, v) \<and> node = buildGASPNode (sdk_of e) graphID outpoint tx \<and>
    (beef_has e o2 (op_Txid outpoint) tx \<or>
     (\<exists>c o3. c \<in> set (eo_OutputsConsumed o2) \<and> stored_with e topic c o3 \<and> beef_has e o3 (op_Txid outpoint) tx))"
  using assms
proof (induction e o1 graphID outpoint topic depth arbitrary: s node t rule: hydrateGASPNode.induct)
  case (1 e o1 graphID outpoint topic depth)
  from "1.prems" obtain o2 beef s1 where beef: "eo_Beef o1 \<noteq> None" and loaded: "eread (st_LoadAncillaryBeef (en_Storage e) o1) s = ((Inr o2 :: engine_error + _), s1)"
    and o2: "eo_Beef o2 = Some beef"
    and rest: "(case FindTransactionByHash (sdk_of e) beef (op_Txid outpoint) of
                 Some correctTx \<Rightarrow> eret (buildGASPNode (sdk_of e) graphID outpoint correctTx)
               | None \<Rightarrow>
                   if 0 < depth then efail ErrMissingOutput
                   else first_hydrated (\<lambda>consumed. hydrateGASPNode e consumed graphID outpoint topic (depth + 1)) e topic
                          (eo_OutputsConsumed o2)) s1 = (Inr node, t)"
    by (subst (asm) hydrateGASPNode.simps) (auto elim!: ebind_InrE split: if_split_asm option.split_asm)
  have u: "st_LoadAncillaryBeef (en_Storage e) o1 (fst s) = (Inr o2, fst s1)" using loaded by (auto simp: eread_Inr)
  show ?case
  proof (cases "FindTransactionByHash (sdk_of e) beef (op_Txid outpoint)")
    case (Some tx)
    with rest u o2 show ?thesis by (auto simp: beef_has_def)
  next
    case None
    with rest have depth: "\<not> 0 < depth"
      and first: "first_hydrated (\<lambda>consumed. hydrateGASPNode e consumed graphID outpoint topic (depth + 1)) e topic (eo_OutputsConsumed o2) s1 = (Inr node, t)"
      by (auto split: if_split_asm)
    from first_hydrated_Inr[OF first] obtain c w o3 w' u' v' where c: "c \<in> set (eo_OutputsConsumed o2)"
      "st_FindOutput (en_Storage e) c (Some topic) None True w = (Inr (Some o3), w')"
      "hydrateGASPNode e o3 graphID outpoint topic (depth + 1) u' = (Inr node, v')" by blast
    from c(3) obtain o4 beef' s4 tx where o4: "eread (st_LoadAncillaryBeef (en_Storage e) o3) u' = ((Inr o4 :: engine_error + _), s4)"
      "eo_Beef o4 = Some beef'" "FindTransactionByHash (sdk_of e) beef' (op_Txid outpoint) = Some tx" "node = buildGASPNode (sdk_of e) graphID outpoint tx"
      by (subst (asm) hydrateGASPNode.simps) (auto elim!: ebind_InrE split: if_split_asm option.split_asm)
    have "stored_with e topic c o4" using c(2) o4(1) by (auto simp: stored_with_def eread_Inr)
    moreover have "beef_has e o4 (op_Txid outpoint) tx" using o4 by (auto simp: beef_has_def)
    ultimately show ?thesis using u c(1) o4(4) by blast
  qed
qed


section \<open>A small instance\<close>

text \<open>Output 1 consumed output 0; output 5 is not stored.\<close>

definition serve_output :: "u32 \<Rightarrow> Outpoint list \<Rightarrow> Tx EOutput" where
  "serve_output i consumed = (demo_output i consumed [])\<lparr>eo_Beef := Some demo_tx\<rparr>"

definition serve_service :: "(unit, Tx) LookupService" where
  "serve_service = \<lparr>ls_OutputAdmittedByTopic = \<lambda>_ w. (Inr (), w), ls_OutputSpent = \<lambda>_ w. (Inr (), w),
     ls_OutputNoLongerRetainedInHistory = \<lambda>_ _ w. (Inr (), w), ls_OutputEvicted = \<lambda>_ w. (Inr (), w),
     ls_OutputBlockHeightUpdated = \<lambda>_ _ _ w. (Inr (), w),
     ls_Lookup = \<lambda>_ w. (Inr \<lparr>la_Type = ''formula'', la_Outputs = [],
       la_Formulas = [\<lparr>lf_Outpoint = demo_point 5, lf_History = None\<rparr>, \<lparr>lf_Outpoint = demo_point 1, lf_History = Some (\<lambda>_ _ _. True)\<rparr>],
       la_Result = ''''\<rparr>, w),
     ls_GetDocumentation = ''doc'', ls_GetMetaData = None\<rparr>"

definition serve_engine :: "(unit, Tx) Engine" where
  "serve_engine = demo_engine\<lparr>lookupServices := [(''ls_a'', serve_service)],
     sdk_of := demo_sdk\<lparr>FindTransactionByHash := \<lambda>b h. if h = demo_txid then Some b else None\<rparr>,
     en_Storage := demo_storage\<lparr>st_FindOutput := \<lambda>o1 _ _ _ w.
       (Inr (if o1 = demo_point 1 then Some (serve_output 1 [demo_point 0])
             else if o1 = demo_point 0 then Some (serve_output 0 []) else None), w)\<rparr>\<rparr>"

lemmas serve_defs = serve_engine_def demo_engine_def demo_storage_def demo_sdk_def serve_output_def demo_output_def demo_point_def


theorem stitchSourceTransactions_links_witness:
  "\<exists>tx'. stitchSourceTransactions demo_sdk demo_tx [(demo_point 0, serve_output 0 [])] = Inr tx' \<and>
     map in_SourceTransaction (tx_Inputs demo_tx) = [None] \<and> map in_SourceTransaction (tx_Inputs tx') = [Some demo_tx]"
proof -
  have "\<exists>tx'. stitchSourceTransactions demo_sdk demo_tx [(demo_point 0, serve_output 0 [])] = Inr tx'"
    by (simp add: stitchSourceTransactions_def demo_tx_def demo_sdk_def serve_output_def demo_output_def demo_point_def)
  then obtain tx' where tx': "stitchSourceTransactions demo_sdk demo_tx [(demo_point 0, serve_output 0 [])] = Inr tx'" by blast
  have ins: "tx_Inputs demo_tx = [TxInput demo_txid 0 None 0 None]" by (simp add: demo_tx_def)
  from stitchSourceTransactions_links[OF tx'] tx' show ?thesis
    by (auto simp: ins list_all2_Cons1 demo_point_def serve_output_def demo_sdk_def)
qed

theorem GetUTXOHistory_terminates_witness:
  "GetUTXOHistory 1000 serve_engine (Some (\<lambda>_ _ _. True)) 0 (serve_output 1 [demo_point 0]) ((), []) =
     (Inr (Some (serve_output 1 [demo_point 0])), ((), []))"
proof -
  have "history_descends serve_engine (\<lambda>o1. unat (op_Index o1))"
    by (auto simp: history_descends_def serve_defs split: if_splits)
  moreover have "history_fuelless serve_engine"
    by (auto simp: history_fuelless_def outside_avoids_def serve_defs)
  moreover have "\<forall>c \<in> set (eo_OutputsConsumed (serve_output 1 [demo_point 0])). unat (op_Index c) < 1"
    by (simp add: serve_output_def demo_output_def demo_point_def)
  ultimately have bound: "\<forall>fuel > 1. GetUTXOHistory fuel serve_engine (Some (\<lambda>_ _ _. True)) 0 (serve_output 1 [demo_point 0]) ((), []) =
     GetUTXOHistory (Suc 1) serve_engine (Some (\<lambda>_ _ _. True)) 0 (serve_output 1 [demo_point 0]) ((), []) \<and>
     fst (GetUTXOHistory fuel serve_engine (Some (\<lambda>_ _ _. True)) 0 (serve_output 1 [demo_point 0]) ((), [])) \<noteq> Inl NoFuel"
    by (rule GetUTXOHistory_terminates)
  have "(1::nat) < 1000" by simp
  from conjunct1[OF mp[OF spec[OF bound] this]]
  have "GetUTXOHistory 1000 serve_engine (Some (\<lambda>_ _ _. True)) 0 (serve_output 1 [demo_point 0]) ((), []) =
     GetUTXOHistory (Suc 1) serve_engine (Some (\<lambda>_ _ _. True)) 0 (serve_output 1 [demo_point 0]) ((), [])" .
  also have "\<dots> = (Inr (Some (serve_output 1 [demo_point 0])), ((), []))" by code_simp
  finally show ?thesis .
qed


end
