(* ===== verification/Single_Flight.thy ===== *)
theory Single_Flight
  imports Prelude "HOL-Library.AList"
begin

text \<open>
  Sharing of one result among concurrent calls for the same key, as \<^verbatim>\<open>ProcessUTXOToCompletion\<close> of
  \<^verbatim>\<open>pkg/core/gasp/gasp.go\<close> (keyed by outpoint) and \<^verbatim>\<open>submitBeef\<close> of \<^verbatim>\<open>pkg/core/engine/gasp-storage.go\<close>
  (keyed by transaction id) do it: a \<^verbatim>\<open>sync.Map\<close> from keys to state objects, each with a wait group
  and an error. The machine takes one atomic operation per step; the calls are the goroutines, and a
  state object is an index into the list of allocated objects. The interface of the machines built on
  it is locale \<open>flight_client\<close>.
\<close>

section \<open>Runs of a labelled machine\<close>

inductive reaches :: "('a \<Rightarrow> 's \<Rightarrow> 's option) \<Rightarrow> 's \<Rightarrow> 's \<Rightarrow> bool" for nxt s where
  reaches_refl: "reaches nxt s s"
| reaches_step: "reaches nxt s t \<Longrightarrow> nxt a t = Some u \<Longrightarrow> reaches nxt s u"

fun run_labels :: "('a \<Rightarrow> 's \<Rightarrow> 's option) \<Rightarrow> 'a list \<Rightarrow> 's \<Rightarrow> 's option" where
  "run_labels nxt [] s = Some s"
| "run_labels nxt (a # as) s = (case nxt a s of None \<Rightarrow> None | Some t \<Rightarrow> run_labels nxt as t)"

lemma run_labels_reaches: "run_labels nxt as t = Some u \<Longrightarrow> reaches nxt s t \<Longrightarrow> reaches nxt s u"
  by (induction as arbitrary: t) (auto split: option.splits intro: reaches_step)

lemma reaches_invariant:
  assumes "reaches nxt s t" "I s" "\<And>a t u. I t \<Longrightarrow> nxt a t = Some u \<Longrightarrow> I u"
  shows "I t"
  using assms by (induction rule: reaches.induct) blast+

lemma run_labels_measure:
  assumes "run_labels nxt as s = Some t" "\<And>a t u. a \<in> set as \<Longrightarrow> nxt a t = Some u \<Longrightarrow> (m u :: nat) < m t"
  shows "length as + m t \<le> m s"
  using assms
proof (induction as arbitrary: s)
  case Nil
  then show ?case by simp
next
  case (Cons a as)
  then obtain u where u: "nxt a s = Some u" "run_labels nxt as u = Some t" by (auto split: option.splits)
  have "length as + m t \<le> m u" using Cons.IH[OF u(2)] Cons.prems(2) by (meson list.set_intros(2))
  moreover have "m u < m s" using Cons.prems(2) u(1) by (meson list.set_intros(1))
  ultimately show ?case by simp
qed

section \<open>The machine\<close>

record 'e sharedState =
  ss_wg :: nat
  ss_err :: "'e option"

text \<open>
  Where a call stands: before \<^verbatim>\<open>LoadOrStore\<close>; owner of a fresh object and at work; its result stored;
  the wait group released; returned. A call that found an object waits, then returns the error it reads.
\<close>

datatype 'e stage =
  Calling
| Owning nat
| Settled nat "'e option"
| Signalled nat "'e option"
| Returned nat "'e option"
| Awaiting nat
| Shared nat "'e option"

record ('k, 'e) fcall =
  fc_key :: 'k
  fc_stage :: "'e stage"

record ('k, 'e) flight =
  fl_inflight :: "('k \<times> nat) list"
  fl_states :: "'e sharedState list"
  fl_calls :: "('k, 'e) fcall list"

definition no_flight :: "('k, 'e) flight" where
  "no_flight = \<lparr>fl_inflight = [], fl_states = [], fl_calls = []\<rparr>"

definition stage_of :: "('k, 'e) flight \<Rightarrow> nat \<Rightarrow> 'e stage option" where
  "stage_of f i = (if i < length (fl_calls f) then Some (fc_stage (fl_calls f ! i)) else None)"

definition key_of :: "('k, 'e) flight \<Rightarrow> nat \<Rightarrow> 'k" where
  "key_of f i = fc_key (fl_calls f ! i)"

definition set_stage :: "nat \<Rightarrow> 'e stage \<Rightarrow> ('k, 'e) flight \<Rightarrow> ('k, 'e) flight" where
  "set_stage i st f = f\<lparr>fl_calls := (fl_calls f)[i := (fl_calls f ! i)\<lparr>fc_stage := st\<rparr>]\<rparr>"

datatype ('k, 'e) flight_label =
  Call 'k
| LoadOrStore nat
| Settle nat "'e option"
| SignalDone nat
| Forget nat
| Wake nat

text \<open>
  \<^verbatim>\<open>SignalDone\<close> and \<^verbatim>\<open>Forget\<close> are the deferred function of the owner. Releasing a wait group at zero
  panics in Go; \<open>wait_groups\<close> below shows that no run comes there.
\<close>

fun flight_step :: "('k, 'e) flight_label \<Rightarrow> ('k, 'e) flight \<Rightarrow> ('k, 'e) flight option" where
  "flight_step (Call k) f = Some (f\<lparr>fl_calls := fl_calls f @ [\<lparr>fc_key = k, fc_stage = Calling\<rparr>]\<rparr>)"
| "flight_step (LoadOrStore i) f =
     (if stage_of f i = Some Calling then
        (case map_of (fl_inflight f) (key_of f i) of
           Some p \<Rightarrow> Some (set_stage i (Awaiting p) f)
         | None \<Rightarrow>
             let p = length (fl_states f) in
             Some (set_stage i (Owning p)
               (f\<lparr>fl_inflight := AList.update (key_of f i) p (fl_inflight f),
                  fl_states := fl_states f @ [\<lparr>ss_wg = 1, ss_err = None\<rparr>]\<rparr>)))
      else None)"
| "flight_step (Settle i r) f =
     (case stage_of f i of
        Some (Owning p) \<Rightarrow>
          Some (set_stage i (Settled p r) (f\<lparr>fl_states := (fl_states f)[p := (fl_states f ! p)\<lparr>ss_err := r\<rparr>]\<rparr>))
      | _ \<Rightarrow> None)"
| "flight_step (SignalDone i) f =
     (case stage_of f i of
        Some (Settled p r) \<Rightarrow>
          Some (set_stage i (Signalled p r)
            (f\<lparr>fl_states := (fl_states f)[p := (fl_states f ! p)\<lparr>ss_wg := ss_wg (fl_states f ! p) - 1\<rparr>]\<rparr>))
      | _ \<Rightarrow> None)"
| "flight_step (Forget i) f =
     (case stage_of f i of
        Some (Signalled p r) \<Rightarrow>
          Some (set_stage i (Returned p r) (f\<lparr>fl_inflight := AList.delete (key_of f i) (fl_inflight f)\<rparr>))
      | _ \<Rightarrow> None)"
| "flight_step (Wake i) f =
     (case stage_of f i of
        Some (Awaiting p) \<Rightarrow>
          if ss_wg (fl_states f ! p) = 0 then Some (set_stage i (Shared p (ss_err (fl_states f ! p))) f) else None
      | _ \<Rightarrow> None)"

text \<open>The owner of a state object, the owners whose entry is in the map, and the users of an object.\<close>

fun owns :: "'e stage option \<Rightarrow> nat option" where
  "owns (Some (Owning p)) = Some p"
| "owns (Some (Settled p r)) = Some p"
| "owns (Some (Signalled p r)) = Some p"
| "owns (Some (Returned p r)) = Some p"
| "owns _ = None"

fun live :: "'e stage option \<Rightarrow> nat option" where
  "live (Some (Owning p)) = Some p"
| "live (Some (Settled p r)) = Some p"
| "live (Some (Signalled p r)) = Some p"
| "live _ = None"

fun uses :: "'e stage option \<Rightarrow> nat option" where
  "uses (Some (Awaiting p)) = Some p"
| "uses (Some (Shared p r)) = Some p"
| "uses _ = None"

fun outcome :: "'e stage option \<Rightarrow> 'e option option" where
  "outcome (Some (Returned p r)) = Some r"
| "outcome (Some (Shared p r)) = Some r"
| "outcome _ = None"

text \<open>What the object of an owner holds.\<close>

fun holds_state :: "'e stage option \<Rightarrow> 'e sharedState \<Rightarrow> bool" where
  "holds_state (Some (Owning p)) s = (s = \<lparr>ss_wg = 1, ss_err = None\<rparr>)"
| "holds_state (Some (Settled p r)) s = (s = \<lparr>ss_wg = 1, ss_err = r\<rparr>)"
| "holds_state (Some (Signalled p r)) s = (s = \<lparr>ss_wg = 0, ss_err = r\<rparr>)"
| "holds_state (Some (Returned p r)) s = (s = \<lparr>ss_wg = 0, ss_err = r\<rparr>)"
| "holds_state _ s = True"

definition flight_inv :: "('k, 'e) flight \<Rightarrow> bool" where
  "flight_inv f \<longleftrightarrow>
     (\<forall>i j p. owns (stage_of f i) = Some p \<longrightarrow> owns (stage_of f j) = Some p \<longrightarrow> i = j) \<and>
     (\<forall>i p. owns (stage_of f i) = Some p \<longrightarrow> p < length (fl_states f) \<and> holds_state (stage_of f i) (fl_states f ! p)) \<and>
     (\<forall>k p. map_of (fl_inflight f) k = Some p \<longleftrightarrow> (\<exists>i. live (stage_of f i) = Some p \<and> key_of f i = k)) \<and>
     (\<forall>i p. uses (stage_of f i) = Some p \<longrightarrow> (\<exists>j. owns (stage_of f j) = Some p \<and> key_of f j = key_of f i)) \<and>
     (\<forall>i p r. stage_of f i = Some (Shared p r) \<longrightarrow>
        (\<exists>j. stage_of f j = Some (Signalled p r) \<or> stage_of f j = Some (Returned p r)))"

section \<open>The invariant\<close>

lemma stage_of_set_stage [simp]:
  "stage_of f i = Some st \<Longrightarrow> stage_of (set_stage i st' f) j = (if j = i then Some st' else stage_of f j)"
  by (auto simp: stage_of_def set_stage_def nth_list_update split: if_splits)

lemma stage_of_update [simp]:
  "stage_of (f\<lparr>fl_states := ss\<rparr>) = stage_of f" "stage_of (f\<lparr>fl_inflight := m\<rparr>) = stage_of f"
  by (simp_all add: stage_of_def fun_eq_iff)

lemma key_of_set_stage [simp]: "key_of (set_stage i st f) = key_of f"
  by (rule ext) (cases "i < length (fl_calls f)", auto simp: key_of_def set_stage_def nth_list_update list_update_beyond not_less)

lemma key_of_update [simp]:
  "key_of (f\<lparr>fl_states := ss\<rparr>) = key_of f" "key_of (f\<lparr>fl_inflight := m\<rparr>) = key_of f"
  by (simp_all add: key_of_def fun_eq_iff)

lemma set_stage_fields [simp]:
  "fl_states (set_stage i st f) = fl_states f" "fl_inflight (set_stage i st f) = fl_inflight f"
  "length (fl_calls (set_stage i st f)) = length (fl_calls f)"
  by (simp_all add: set_stage_def)

lemma live_owns: "live st = Some p \<Longrightarrow> owns st = Some p"
  by (cases st rule: live.cases) auto

lemma flight_invI:
  assumes "\<And>i j p. owns (stage_of f i) = Some p \<Longrightarrow> owns (stage_of f j) = Some p \<Longrightarrow> i = j"
    and "\<And>i p. owns (stage_of f i) = Some p \<Longrightarrow> p < length (fl_states f) \<and> holds_state (stage_of f i) (fl_states f ! p)"
    and "\<And>k p. map_of (fl_inflight f) k = Some p \<longleftrightarrow> (\<exists>i. live (stage_of f i) = Some p \<and> key_of f i = k)"
    and "\<And>i p. uses (stage_of f i) = Some p \<Longrightarrow> \<exists>j. owns (stage_of f j) = Some p \<and> key_of f j = key_of f i"
    and "\<And>i p r. stage_of f i = Some (Shared p r) \<Longrightarrow>
      \<exists>j. stage_of f j = Some (Signalled p r) \<or> stage_of f j = Some (Returned p r)"
  shows "flight_inv f"
  unfolding flight_inv_def using assms by blast

lemma flight_invD:
  assumes "flight_inv f"
  shows "owns (stage_of f i) = Some p \<Longrightarrow> owns (stage_of f j) = Some p \<Longrightarrow> i = j"
    and "owns (stage_of f i) = Some p \<Longrightarrow> p < length (fl_states f) \<and> holds_state (stage_of f i) (fl_states f ! p)"
    and "map_of (fl_inflight f) k = Some p \<longleftrightarrow> (\<exists>i. live (stage_of f i) = Some p \<and> key_of f i = k)"
    and "uses (stage_of f i) = Some p \<Longrightarrow> \<exists>j. owns (stage_of f j) = Some p \<and> key_of f j = key_of f i"
    and "stage_of f i = Some (Shared p r) \<Longrightarrow> \<exists>j. stage_of f j = Some (Signalled p r) \<or> stage_of f j = Some (Returned p r)"
  using assms unfolding flight_inv_def by blast+

text \<open>A call that moves on with its own object, which no other call owns.\<close>

lemma flight_inv_owner:
  assumes inv: "flight_inv f" and i: "stage_of f i = Some st" "owns (Some st) = Some p" "owns (Some st') = Some p"
    and state: "holds_state (Some st') s" "uses (Some st') = None" "\<And>r. st = Signalled p r \<Longrightarrow> st' = Returned p r"
    and live: "live (Some st) = Some p"
    and m': "m' = (if live (Some st') = None then AList.delete (key_of f i) (fl_inflight f) else fl_inflight f)"
  shows "flight_inv (set_stage i st' (f\<lparr>fl_states := (fl_states f)[p := s], fl_inflight := m'\<rparr>))" (is "flight_inv ?g")
proof (rule flight_invI)
  have stage: "stage_of ?g j = (if j = i then Some st' else stage_of f j)" for j using i(1) by simp
  have owns: "owns (stage_of ?g j) = owns (stage_of f j)" for j using i stage by simp
  have p: "p < length (fl_states f)" using flight_invD(2)[OF inv, of i p] i by simp
  show "j = l" if "owns (stage_of ?g j) = Some q" "owns (stage_of ?g l) = Some q" for j l q
    using that flight_invD(1)[OF inv] unfolding owns by blast
  show "q < length (fl_states ?g) \<and> holds_state (stage_of ?g j) (fl_states ?g ! q)" if "owns (stage_of ?g j) = Some q" for j q
  proof (cases "j = i")
    case True
    with that stage i p state(1) show ?thesis by simp
  next
    case False
    with that owns have "q \<noteq> p" using flight_invD(1)[OF inv, of j p i] i by force
    with False that owns stage flight_invD(2)[OF inv, of j q] show ?thesis by simp
  qed
  show "map_of (fl_inflight ?g) k = Some q \<longleftrightarrow> (\<exists>j. live (stage_of ?g j) = Some q \<and> key_of ?g j = k)" for k q
  proof (cases "live (Some st') = None")
    case True
    have only: "j = i" if "live (stage_of f j) = Some q'" "key_of f j = key_of f i" for j q'
    proof -
      have "map_of (fl_inflight f) (key_of f i) = Some q'" using that flight_invD(3)[OF inv] by metis
      moreover have "map_of (fl_inflight f) (key_of f i) = Some p" using i(1) live flight_invD(3)[OF inv] by metis
      ultimately show ?thesis using that(1) i live_owns flight_invD(1)[OF inv] by (metis option.inject)
    qed
    have "map_of (fl_inflight ?g) k = (if k = key_of f i then None else map_of (fl_inflight f) k)"
      using True m' by (simp add: AList.delete_conv')
    moreover have "live (stage_of ?g j) = (if j = i then None else live (stage_of f j))" for j using stage True by simp
    moreover have "j \<noteq> i \<Longrightarrow> key_of f j = key_of f i \<Longrightarrow> live (stage_of f j) \<noteq> Some q" for j using only by blast
    ultimately show ?thesis using flight_invD(3)[OF inv, of k q] by (cases "k = key_of f i") (simp, blast, simp, metis)
  next
    case False
    then have "live (Some st') = Some p" using live_owns i(3) by (metis option.exhaust option.inject)
    then have "live (stage_of ?g j) = live (stage_of f j)" for j using stage i(1) live by simp
    moreover have "fl_inflight ?g = fl_inflight f" using False unfolding m' by auto
    moreover have "key_of ?g = key_of f" by simp
    ultimately show ?thesis using flight_invD(3)[OF inv, of k q] by metis
  qed
  show "\<exists>l. owns (stage_of ?g l) = Some q \<and> key_of ?g l = key_of ?g j" if "uses (stage_of ?g j) = Some q" for j q
    using that state(2) stage flight_invD(4)[OF inv, of j q] owns by (auto split: if_splits)
  show "\<exists>l. stage_of ?g l = Some (Signalled q r) \<or> stage_of ?g l = Some (Returned q r)" if sh: "stage_of ?g j = Some (Shared q r)" for j q r
  proof -
    have "j \<noteq> i" using sh stage i(3) by (auto split: if_splits)
    with sh stage obtain l where l: "stage_of f l = Some (Signalled q r) \<or> stage_of f l = Some (Returned q r)"
      using flight_invD(5)[OF inv, of j q r] by auto
    show ?thesis
    proof (cases "l = i")
      case True
      with l i(1,2) state(3) live have "q = p" "st' = Returned p r" by auto
      then show ?thesis using stage by auto
    next
      case False
      with l stage show ?thesis by auto
    qed
  qed
qed

text \<open>A call that joins the object of another one, or reads its result, changes nothing but itself.\<close>

lemma flight_inv_user:
  assumes inv: "flight_inv f" and i: "stage_of f i = Some st" "owns (Some st) = None"
    and st': "uses (Some st') = Some p" "owns (stage_of f j) = Some p" "key_of f j = key_of f i"
    and shared: "\<And>r. st' = Shared p r \<Longrightarrow> stage_of f j = Some (Signalled p r) \<or> stage_of f j = Some (Returned p r)"
  shows "flight_inv (set_stage i st' f)" (is "flight_inv ?g")
proof (rule flight_invI)
  have stage: "stage_of ?g l = (if l = i then Some st' else stage_of f l)" for l using i(1) by simp
  have "owns (Some st') = None" "live (Some st') = None" using st'(1) by (cases st'; simp)+
  then have owns: "owns (stage_of ?g l) = owns (stage_of f l)" and live: "live (stage_of ?g l) = live (stage_of f l)" for l
    using i stage live_owns by (metis option.exhaust option.simps(3))+
  have ji: "j \<noteq> i" using st'(2) i by auto
  show "l = l'" if "owns (stage_of ?g l) = Some q" "owns (stage_of ?g l') = Some q" for l l' q
    using that flight_invD(1)[OF inv] unfolding owns by blast
  show "q < length (fl_states ?g) \<and> holds_state (stage_of ?g l) (fl_states ?g ! q)" if "owns (stage_of ?g l) = Some q" for l q
    using that owns flight_invD(2)[OF inv, of l q] stage i by (auto split: if_splits)
  show "map_of (fl_inflight ?g) k = Some q \<longleftrightarrow> (\<exists>l. live (stage_of ?g l) = Some q \<and> key_of ?g l = k)" for k q
    using flight_invD(3)[OF inv, of k q] live by simp
  show "\<exists>l. owns (stage_of ?g l) = Some q \<and> key_of ?g l = key_of ?g l'" if "uses (stage_of ?g l') = Some q" for l' q
    using that stage st' flight_invD(4)[OF inv, of l' q] owns by (auto split: if_splits)
  show "\<exists>l. stage_of ?g l = Some (Signalled q r) \<or> stage_of ?g l = Some (Returned q r)" if sh: "stage_of ?g l' = Some (Shared q r)" for l' q r
  proof (cases "l' = i")
    case True
    with sh stage st'(1) have "st' = Shared p r" "q = p" by auto
    with shared ji stage show ?thesis by (metis (no_types))
  next
    case False
    with sh stage obtain l where l: "stage_of f l = Some (Signalled q r) \<or> stage_of f l = Some (Returned q r)"
      using flight_invD(5)[OF inv, of l' q r] by auto
    then have "l \<noteq> i" using i by auto
    with l stage show ?thesis by auto
  qed
qed

text \<open>The owner of a fresh object.\<close>

lemma flight_inv_fresh:
  assumes inv: "flight_inv f" and i: "stage_of f i = Some Calling" and free: "map_of (fl_inflight f) (key_of f i) = None"
    and p: "p = length (fl_states f)"
  shows "flight_inv (set_stage i (Owning p) (f\<lparr>fl_inflight := AList.update (key_of f i) p (fl_inflight f),
    fl_states := fl_states f @ [\<lparr>ss_wg = 1, ss_err = None\<rparr>]\<rparr>))" (is "flight_inv ?g")
proof (rule flight_invI)
  have stage: "stage_of ?g l = (if l = i then Some (Owning p) else stage_of f l)" for l using i by simp
  have old: "q < p" if "owns (stage_of f l) = Some q" for l q using that flight_invD(2)[OF inv] p by blast
  show "l = l'" if "owns (stage_of ?g l) = Some q" "owns (stage_of ?g l') = Some q" for l l' q
    using that old[of l] old[of l'] flight_invD(1)[OF inv, of l q l'] stage by (fastforce split: if_splits)
  show "q < length (fl_states ?g) \<and> holds_state (stage_of ?g l) (fl_states ?g ! q)" if "owns (stage_of ?g l) = Some q" for l q
    using that flight_invD(2)[OF inv, of l q] stage p by (auto simp: nth_append split: if_splits)
  show "map_of (fl_inflight ?g) k = Some q \<longleftrightarrow> (\<exists>l. live (stage_of ?g l) = Some q \<and> key_of ?g l = k)" for k q
  proof -
    have "map_of (fl_inflight ?g) k = (if k = key_of f i then Some p else map_of (fl_inflight f) k)"
      by (simp add: AList.update_conv')
    moreover have "live (stage_of ?g l) = (if l = i then Some p else live (stage_of f l))" for l using stage by simp
    moreover have "live (stage_of f i) = None" using i by simp
    moreover have "key_of f l \<noteq> key_of f i" if "live (stage_of f l) = Some q" for l
      using that free flight_invD(3)[OF inv, of "key_of f l" q] by force
    ultimately show ?thesis using flight_invD(3)[OF inv, of k q] by (cases "k = key_of f i") (simp, metis, simp, metis option.simps(3))
  qed
  show "\<exists>l. owns (stage_of ?g l) = Some q \<and> key_of ?g l = key_of ?g l'" if "uses (stage_of ?g l') = Some q" for l' q
  proof -
    have "uses (stage_of f l') = Some q" using that stage by (auto split: if_splits)
    then obtain l where l: "owns (stage_of f l) = Some q" "key_of f l = key_of f l'" using flight_invD(4)[OF inv] by blast
    then have "l \<noteq> i" using i by auto
    with l stage show ?thesis by (intro exI[of _ l]) simp
  qed
  show "\<exists>l. stage_of ?g l = Some (Signalled q r) \<or> stage_of ?g l = Some (Returned q r)" if sh: "stage_of ?g l' = Some (Shared q r)" for l' q r
  proof -
    obtain l where l: "stage_of f l = Some (Signalled q r) \<or> stage_of f l = Some (Returned q r)"
      using sh stage flight_invD(5)[OF inv, of l' q r] by (auto split: if_splits)
    then have "l \<noteq> i" using i by auto
    with l stage show ?thesis by (intro exI[of _ l]) simp
  qed
qed

lemma flight_inv_step:
  assumes inv: "flight_inv f" and step: "flight_step a f = Some g"
  shows "flight_inv g"
proof (cases a)
  case (Call k)
  have g: "g = f\<lparr>fl_calls := fl_calls f @ [\<lparr>fc_key = k, fc_stage = Calling\<rparr>]\<rparr>" using step Call by simp
  have stage: "stage_of g l = (if l = length (fl_calls f) then Some Calling else stage_of f l)" for l
    by (auto simp: g stage_of_def nth_append)
  have last: "stage_of f (length (fl_calls f)) = None" by (simp add: stage_of_def)
  have key: "key_of g l = key_of f l" if "stage_of f l \<noteq> None" for l
    using that by (auto simp: g stage_of_def key_of_def nth_append split: if_splits)
  have key': "live (stage_of f l) = Some q \<Longrightarrow> key_of g l = key_of f l" "owns (stage_of f l) = Some q \<Longrightarrow> key_of g l = key_of f l"
    "uses (stage_of f l) = Some q \<Longrightarrow> key_of g l = key_of f l" for l q
    using key[of l] by (cases "stage_of f l"; simp)+
  have owns: "owns (stage_of g l) = owns (stage_of f l)" and live: "live (stage_of g l) = live (stage_of f l)"
    and uses: "uses (stage_of g l) = uses (stage_of f l)" for l using stage[of l] last by auto
  have states: "fl_states g = fl_states f" "fl_inflight g = fl_inflight f" by (simp_all add: g)
  show ?thesis
  proof (rule flight_invI)
    show "l = l'" if "owns (stage_of g l) = Some q" "owns (stage_of g l') = Some q" for l l' q
      using that flight_invD(1)[OF inv] unfolding owns by blast
    show "q < length (fl_states g) \<and> holds_state (stage_of g l) (fl_states g ! q)" if "owns (stage_of g l) = Some q" for l q
      using that flight_invD(2)[OF inv, of l q] owns stage[of l] states by (auto split: if_splits)
    show "map_of (fl_inflight g) k' = Some q \<longleftrightarrow> (\<exists>l. live (stage_of g l) = Some q \<and> key_of g l = k')" for k' q
      unfolding states live flight_invD(3)[OF inv] using key'(1)[of _ q] by metis
    show "\<exists>l. owns (stage_of g l) = Some q \<and> key_of g l = key_of g l'" if "uses (stage_of g l') = Some q" for l' q
      using that flight_invD(4)[OF inv, of l' q] unfolding owns uses by (metis key'(2,3))
    show "\<exists>l. stage_of g l = Some (Signalled q r) \<or> stage_of g l = Some (Returned q r)" if sh: "stage_of g l' = Some (Shared q r)" for l' q r
    proof -
      obtain l where l: "stage_of f l = Some (Signalled q r) \<or> stage_of f l = Some (Returned q r)"
        using sh stage[of l'] flight_invD(5)[OF inv, of l' q r] by (auto split: if_splits)
      then have "l \<noteq> length (fl_calls f)" using last by auto
      with l stage show ?thesis by auto
    qed
  qed
next
  case (LoadOrStore i)
  then have i: "stage_of f i = Some Calling" using step by (auto split: if_splits)
  show ?thesis
  proof (cases "map_of (fl_inflight f) (key_of f i)")
    case None
    then show ?thesis using step LoadOrStore i flight_inv_fresh[OF inv i None refl] by (simp add: Let_def)
  next
    case (Some p)
    then obtain j where j: "live (stage_of f j) = Some p" "key_of f j = key_of f i" using flight_invD(3)[OF inv] by blast
    have "flight_inv (set_stage i (Awaiting p) f)"
      by (rule flight_inv_user[OF inv i _ _ live_owns[OF j(1)] j(2)]) simp_all
    with step LoadOrStore i Some show ?thesis by simp
  qed
next
  case (Settle i r)
  then obtain p where i: "stage_of f i = Some (Owning p)" using step by (auto split: option.splits stage.splits)
  have "holds_state (Some (Owning p)) (fl_states f ! p)" using flight_invD(2)[OF inv, of i p] i by simp
  with flight_inv_owner[OF inv i, where p = p and st' = "Settled p r" and s = "(fl_states f ! p)\<lparr>ss_err := r\<rparr>"] step Settle i
  show ?thesis by simp
next
  case (SignalDone i)
  then obtain p r where i: "stage_of f i = Some (Settled p r)" using step by (auto split: option.splits stage.splits)
  have "holds_state (Some (Settled p r)) (fl_states f ! p)" using flight_invD(2)[OF inv, of i p] i by simp
  with flight_inv_owner[OF inv i, where p = p and st' = "Signalled p r" and s = "(fl_states f ! p)\<lparr>ss_wg := 0\<rparr>"] step SignalDone i
  show ?thesis by simp
next
  case (Forget i)
  then obtain p r where i: "stage_of f i = Some (Signalled p r)" using step by (auto split: option.splits stage.splits)
  have "holds_state (Some (Signalled p r)) (fl_states f ! p)" using flight_invD(2)[OF inv, of i p] i by simp
  then have "flight_inv (set_stage i (Returned p r)
      (f\<lparr>fl_states := (fl_states f)[p := fl_states f ! p], fl_inflight := AList.delete (key_of f i) (fl_inflight f)\<rparr>))"
    by (intro flight_inv_owner[OF inv i]) simp_all
  with step Forget i show ?thesis by simp
next
  case (Wake i)
  then obtain p where i: "stage_of f i = Some (Awaiting p)" and wg: "ss_wg (fl_states f ! p) = 0"
    and g: "g = set_stage i (Shared p (ss_err (fl_states f ! p))) f"
    using step by (auto split: option.splits stage.splits if_splits)
  obtain j where j: "owns (stage_of f j) = Some p" "key_of f j = key_of f i" using flight_invD(4)[OF inv, of i p] i by auto
  have "holds_state (stage_of f j) (fl_states f ! p)" using flight_invD(2)[OF inv j(1)] by simp
  then have done_: "stage_of f j = Some (Signalled p (ss_err (fl_states f ! p))) \<or> stage_of f j = Some (Returned p (ss_err (fl_states f ! p)))"
    using j(1) wg by (cases "stage_of f j" rule: owns.cases) auto
  show ?thesis unfolding g by (rule flight_inv_user[OF inv i _ _ j]) (use done_ in auto)
qed

lemma flight_inv_start: "flight_inv no_flight"
  by (auto simp: flight_inv_def no_flight_def stage_of_def)

section \<open>What the invariant gives\<close>

lemma flight_exclusive:
  assumes inv: "flight_inv f" and "live (stage_of f i) = Some p" "live (stage_of f j) = Some q" "key_of f i = key_of f j"
  shows "i = j"
proof -
  have "map_of (fl_inflight f) (key_of f j) = Some p" "map_of (fl_inflight f) (key_of f j) = Some q"
    using assms flight_invD(3)[OF inv] by metis+
  then show ?thesis using assms(2,3) live_owns flight_invD(1)[OF inv] by (metis option.inject)
qed

lemma flight_shared:
  assumes inv: "flight_inv f" and "stage_of f i = Some (Shared p r)"
  shows "\<exists>j. key_of f j = key_of f i \<and> (stage_of f j = Some (Signalled p r) \<or> stage_of f j = Some (Returned p r))"
proof -
  obtain j where j: "stage_of f j = Some (Signalled p r) \<or> stage_of f j = Some (Returned p r)"
    using flight_invD(5)[OF inv assms(2)] by blast
  obtain l where l: "owns (stage_of f l) = Some p" "key_of f l = key_of f i" using flight_invD(4)[OF inv, of i p] assms(2) by auto
  moreover have "l = j" using flight_invD(1)[OF inv l(1), of j] j by auto
  ultimately show ?thesis using j by blast
qed

lemma wait_groups: "flight_inv f \<Longrightarrow> stage_of f i = Some (Settled p r) \<Longrightarrow> fl_states f ! p = \<lparr>ss_wg = 1, ss_err = r\<rparr>"
  using flight_invD(2)[of f i p] by simp

text \<open>No call waits forever: while one has not returned, some call can take a step.\<close>

fun internal :: "('k, 'e) flight_label \<Rightarrow> bool" where
  "internal (Call k) = False"
| "internal _ = True"

lemma flight_progress:
  assumes inv: "flight_inv f" and "i < length (fl_calls f)" "outcome (stage_of f i) = None"
  shows "\<exists>a. internal a \<and> flight_step a f \<noteq> None"
proof -
  obtain st where st: "stage_of f i = Some st" using assms(2) by (simp add: stage_of_def)
  show ?thesis
  proof (cases st)
    case (Awaiting p)
    then obtain j where j: "owns (stage_of f j) = Some p" using st flight_invD(4)[OF inv, of i p] by auto
    note cell = flight_invD(2)[OF inv j]
    show ?thesis
    proof (cases "stage_of f j" rule: owns.cases)
      case (1 q)
      then show ?thesis by (intro exI[of _ "Settle j None"]) simp
    next
      case (2 q r)
      then show ?thesis by (intro exI[of _ "SignalDone j"]) simp
    next
      case (3 q r)
      then show ?thesis using st Awaiting j cell by (intro exI[of _ "Wake i"]) simp
    next
      case (4 q r)
      then show ?thesis using st Awaiting j cell by (intro exI[of _ "Wake i"]) simp
    qed (use j in auto)
  next
    case Calling
    then show ?thesis using st by (intro exI[of _ "LoadOrStore i"]) (auto simp: Let_def split: option.splits)
  next
    case (Owning p)
    then show ?thesis using st by (intro exI[of _ "Settle i None"]) simp
  next
    case (Settled p r)
    then show ?thesis using st by (intro exI[of _ "SignalDone i"]) simp
  next
    case (Signalled p r)
    then show ?thesis using st by (intro exI[of _ "Forget i"]) simp
  qed (use st assms(3) in auto)
qed

lemma flight_quiet:
  assumes inv: "flight_inv f" and "\<And>i. i < length (fl_calls f) \<Longrightarrow> outcome (stage_of f i) \<noteq> None"
  shows "fl_inflight f = []"
proof -
  have "live (stage_of f i) = None" for i
  proof (cases "i < length (fl_calls f)")
    case True
    from assms(2)[OF this] show ?thesis by (cases "stage_of f i" rule: outcome.cases) auto
  qed (simp add: stage_of_def)
  then have "map_of (fl_inflight f) k \<noteq> Some p" for k p using flight_invD(3)[OF inv, of k p] by simp
  then show ?thesis by (cases "fl_inflight f") (auto, metis map_of_Cons_code(2) option.simps(3) prod.exhaust)
qed

section \<open>Machines built on it\<close>

text \<open>A machine whose steps either leave the shared calls alone or take one of their steps.\<close>

locale flight_client =
  fixes start :: 's and nxt :: "'a \<Rightarrow> 's \<Rightarrow> 's option" and flight_of :: "'s \<Rightarrow> ('k, 'e) flight"
  assumes start_flight: "flight_of start = no_flight"
    and step_flight: "nxt a s = Some t \<Longrightarrow> flight_of t = flight_of s \<or> (\<exists>x. flight_step x (flight_of s) = Some (flight_of t))"
begin

lemma inv: "reaches nxt start s \<Longrightarrow> flight_inv (flight_of s)"
  by (erule reaches_invariant[where I = "\<lambda>s. flight_inv (flight_of s)"])
     (use start_flight flight_inv_start step_flight flight_inv_step in metis)+

lemma refines: "reaches nxt start s \<Longrightarrow> reaches flight_step no_flight (flight_of s)"
proof (induction rule: reaches.induct)
  case reaches_refl
  then show ?case by (simp add: start_flight reaches.reaches_refl)
next
  case (reaches_step t a u)
  then show ?case using step_flight[of a t u] by (auto intro: reaches.reaches_step)
qed

lemma exclusive:
  assumes "reaches nxt start s" "live (stage_of (flight_of s) i) = Some p" "live (stage_of (flight_of s) j) = Some q"
    and "key_of (flight_of s) i = key_of (flight_of s) j"
  shows "i = j"
  using flight_exclusive[OF inv] assms by blast

lemma shared:
  assumes "reaches nxt start s" "stage_of (flight_of s) i = Some (Shared p r)"
  shows "\<exists>j. key_of (flight_of s) j = key_of (flight_of s) i \<and>
    (stage_of (flight_of s) j = Some (Signalled p r) \<or> stage_of (flight_of s) j = Some (Returned p r))"
  using flight_shared[OF inv] assms by blast

end

section \<open>Steps that are left\<close>

fun stage_rank :: "'e stage \<Rightarrow> nat" where
  "stage_rank Calling = 5"
| "stage_rank (Owning p) = 4"
| "stage_rank (Settled p r) = 3"
| "stage_rank (Signalled p r) = 2"
| "stage_rank (Awaiting p) = 1"
| "stage_rank _ = 0"

definition flight_measure :: "('k, 'e) flight \<Rightarrow> nat" where
  "flight_measure f = sum_list (map (\<lambda>c. stage_rank (fc_stage c)) (fl_calls f))"

lemma sum_list_update_less:
  "i < length xs \<Longrightarrow> (g y :: nat) < g (xs ! i) \<Longrightarrow> sum_list (map g (xs[i := y])) < sum_list (map g xs)"
  by (induction xs arbitrary: i) (auto split: nat.splits)

lemma flight_measure_set_stage:
  assumes "stage_of f i = Some st" "stage_rank st' < stage_rank st" "fl_calls g = fl_calls f"
  shows "flight_measure (set_stage i st' g) < flight_measure f"
  using assms unfolding flight_measure_def set_stage_def
  by (auto simp: stage_of_def split: if_splits intro!: sum_list_update_less)

lemma flight_measure_step: "flight_step a f = Some g \<Longrightarrow> internal a \<Longrightarrow> flight_measure g < flight_measure f"
  by (cases a)
     (auto simp: Let_def flight_measure_set_stage split: option.splits if_splits stage.splits
       intro!: flight_measure_set_stage)

lemma flight_calls_step:
  "flight_step a f = Some g \<Longrightarrow> internal a \<Longrightarrow> length (fl_calls g) = length (fl_calls f)"
  by (cases a) (auto simp: Let_def split: option.splits if_splits stage.splits)

lemma flight_keys_step: "flight_step a f = Some g \<Longrightarrow> internal a \<Longrightarrow> key_of g = key_of f"
  by (cases a) (auto simp: Let_def split: option.splits if_splits stage.splits)

lemma outcome_step:
  assumes "flight_step a f = Some g" "outcome (stage_of f i) = Some r"
  shows "outcome (stage_of g i) = Some r"
proof (cases a)
  case (Call k)
  then show ?thesis using assms by (auto simp: stage_of_def nth_append split: if_splits)
qed (use assms in \<open>auto simp: Let_def split: option.splits if_splits stage.splits\<close>)

end
