(* ===== verification/Gasp_Storage.thy ===== *)
theory Gasp_Storage
  imports Engine_Submit Single_Flight
begin

text \<open>
  The temporary graphs of GASP traversals (\<^verbatim>\<open>pkg/core/engine/gasp-storage.go\<close>): collecting nodes,
  asking for missing inputs, validating the anchor of a graph and submitting its transactions to the
  engine in dependency order. The graphs are part of the state; a pointer to a node of a graph is its
  outpoint, since nodes are never replaced or removed while their graph exists. The concurrent use of
  \<^verbatim>\<open>submitBeef\<close> is the machine \<open>finalizer_step\<close>.
\<close>

section \<open>Data\<close>

datatype graph_error =
  ErrGraphFull | ErrParsedBEEFReturnedNilTx | ErrGraphAnchorInvalidTx | ErrGraphNoTopicalAdmittance
| ErrUnableToFindRootNodeInGraph | ErrRequiredInputNodeNotFoundInTempGraph | ErrMissingGraphID
| ErrGraphDependencyCycle | ErrNoManagerForTopic | ErrNoTransactionInBEEF | ErrNilNode
| EngineError engine_error

record GraphNode =
  gn_Node :: Node
  gn_Txid :: hash
  gn_Children :: "Outpoint list"
  gn_Parent :: "Outpoint option"

record graphContext =
  gc_nodes :: "(Outpoint \<times> GraphNode) list"
  gc_count :: int

definition empty_graph :: graphContext where
  "empty_graph = \<lparr>gc_nodes = [], gc_count = 0\<rparr>"

type_synonym graphs = "(Outpoint \<times> graphContext) list"

text \<open>The SDK's transaction parsers and BEEF builders that only this component uses.\<close>

record 'b graph_sdk =
  NewTransactionFromBytes :: "byte list \<Rightarrow> engine_error + Tx"
  NewBeefFromTransaction :: "Tx \<Rightarrow> engine_error + 'b"
  NewTransactionFromBEEF :: "byte list \<Rightarrow> engine_error + Tx"
  MergeBeefBytes :: "'b \<Rightarrow> byte list \<Rightarrow> engine_error + 'b"

text \<open>
  \<open>s_json\<close> and \<open>s_depth\<close> are what the engine's submission needs besides the engine: the JSON codec and
  the bound of the deep deletion; \<open>s_hydrate\<close> bounds the recursion over the inputs of a node.
\<close>

record ('w, 'b) OverlayGASPStorage =
  s_Topic :: string
  s_Engine :: "('w, 'b) Engine"
  s_MaxNodesInGraph :: "int option"
  s_parse :: "'b graph_sdk"
  s_json :: json_codec
  s_depth :: nat
  s_hydrate :: nat

type_synonym ('w, 'a) gst = "(graphs \<times> 'w, effect, graph_error, 'a) em"

definition lift_engine :: "('w, 'a) eng \<Rightarrow> ('w, 'a) gst" where
  "lift_engine m = (\<lambda>((g, w), log). case m (w, log) of (r, (w', log')) \<Rightarrow> (map_error EngineError r, ((g, w'), log')))"

definition get_graphs :: "('w, graphs) gst" where
  "get_graphs = (\<lambda>s. (Inr (fst (fst s)), s))"

definition put_graphs :: "graphs \<Rightarrow> ('w, unit) gst" where
  "put_graphs g = (\<lambda>((_, w), log). (Inr (), ((g, w), log)))"

definition sdk_call :: "engine_error + 'a \<Rightarrow> graph_error + 'a" where
  "sdk_call r = map_error EngineError r"

section \<open>Reads of the engine's storage\<close>

definition FindKnownUTXOs :: "('w, 'b) OverlayGASPStorage \<Rightarrow> float64 \<Rightarrow> u32 \<Rightarrow> ('w, Output list) gst" where
  "FindKnownUTXOs s since limit =
     ebind (lift_engine (eread (st_FindUTXOsForTopic (en_Storage (s_Engine s)) (s_Topic s) since limit False))) (\<lambda>utxos.
       eret (map (\<lambda>utxo. \<lparr>o_Txid = op_Txid (eo_Outpoint utxo), o_OutputIndex = op_Index (eo_Outpoint utxo), o_Score = eo_Score utxo\<rparr>) utxos))"

definition HasOutputs :: "('w, 'b) OverlayGASPStorage \<Rightarrow> Outpoint list \<Rightarrow> ('w, bool list) gst" where
  "HasOutputs s outpoints =
     ebind (lift_engine (eread (st_FindOutputs (en_Storage (s_Engine s)) outpoints (s_Topic s) None False))) (\<lambda>outputs.
       eret (map (\<lambda>output. output \<noteq> None) outputs))"

definition HydrateGASPNode :: "('w, 'b) OverlayGASPStorage \<Rightarrow> Outpoint option \<Rightarrow> Outpoint \<Rightarrow> bool \<Rightarrow> ('w, Node) gst" where
  "HydrateGASPNode s graphID outpoint _ =
     ebind (lift_engine (eread (st_FindOutput (en_Storage (s_Engine s)) outpoint None None True))) (\<lambda>output.
       case output of
         None \<Rightarrow> efail (EngineError ErrMissingInput)
       | Some found \<Rightarrow>
           (case eo_Beef found of
              None \<Rightarrow> efail (EngineError ErrMissingInput)
            | Some beef \<Rightarrow>
                (case FindTransactionForSigningByHash (sdk_of (s_Engine s)) beef (op_Txid outpoint) of
                   None \<Rightarrow> efail ErrParsedBEEFReturnedNilTx
                 | Some tx \<Rightarrow> eret \<lparr>n_GraphID = graphID, n_RawTx = TxBytes (sdk_of (s_Engine s)) tx, n_OutputIndex = op_Index outpoint,
                     n_Proof = (case tx_MerklePath tx of None \<Rightarrow> [] | Some path \<Rightarrow> PathBytes (sdk_of (s_Engine s)) path),
                     n_TxMetadata = '''', n_OutputMetadata = '''', n_Inputs = Map.empty\<rparr>)))"

section \<open>Topic manager calls\<close>

definition IdentifyAdmissibleOutputs :: "('w, 'b) OverlayGASPStorage \<Rightarrow> 'b \<Rightarrow> hash \<Rightarrow> u32 list \<Rightarrow> ('w, Admittance) gst" where
  "IdentifyAdmissibleOutputs s beef txid previousCoins =
     (case GetTopicManager (s_Engine s) (s_Topic s) of
        None \<Rightarrow> efail ErrNoManagerForTopic
      | Some None \<Rightarrow> efail (EngineError Panic)
      | Some (Some manager) \<Rightarrow> lift_engine (eread (tm_IdentifyAdmissibleOutputs manager beef txid previousCoins)))"

definition IdentifyNeededInputs :: "('w, 'b) OverlayGASPStorage \<Rightarrow> 'b \<Rightarrow> hash \<Rightarrow> ('w, Outpoint list) gst" where
  "IdentifyNeededInputs s beef txid =
     (case GetTopicManager (s_Engine s) (s_Topic s) of
        None \<Rightarrow> efail ErrNoManagerForTopic
      | Some None \<Rightarrow> efail (EngineError Panic)
      | Some (Some manager) \<Rightarrow> lift_engine (eread (tm_IdentifyNeededInputs manager beef txid)))"

section \<open>Needed inputs\<close>

text \<open>The requested inputs with their metadata flag; the response is a Go map, visited in any order.\<close>

type_synonym requested = "(Outpoint \<times> bool) list"

definition stripAlreadyKnowInputs :: "('w, 'b) OverlayGASPStorage \<Rightarrow> requested \<Rightarrow> ('w, requested) gst" where
  "stripAlreadyKnowInputs s response =
     ebind (lift_engine (erange (range_seed (s_Engine s)) response)) (\<lambda>order.
       efold (\<lambda>(outpoint, _) rest.
         ebind (lift_engine (eread (st_FindOutput (en_Storage (s_Engine s)) outpoint (Some (s_Topic s)) None False))) (\<lambda>found.
           eret (if found = None then rest else AList.delete outpoint rest))) order response)"

definition with_path :: "Tx \<Rightarrow> MerklePath option \<Rightarrow> Tx" where
  "with_path tx path = (case tx of Tx version ins outs lock _ \<Rightarrow> Tx version ins outs lock path)"

definition request_all :: "bool \<Rightarrow> Outpoint list \<Rightarrow> requested" where
  "request_all metadata outpoints = fold (\<lambda>o1 m. AList.update o1 metadata m) outpoints []"

text \<open>
  The loop over the outputs found is the one of the engine's identification. An error of the topic
  manager is ignored, with the zero instructions as its value.
\<close>

definition FindNeededInputs :: "('w, 'b) OverlayGASPStorage \<Rightarrow> Node \<Rightarrow> ('w, requested) gst" where
  "FindNeededInputs s gaspTx =
     ebind (elift (sdk_call (NewTransactionFromBytes (s_parse s) (n_RawTx gaspTx)))) (\<lambda>tx.
       if n_Proof gaspTx = [] then stripAlreadyKnowInputs s (request_all False (buildInpoints tx))
       else
         ebind (elift (sdk_call (NewMerklePathFromBinary (sdk_of (s_Engine s)) (n_Proof gaspTx)))) (\<lambda>path.
         let tx' = with_path tx (Some path); txid = TxID (sdk_of (s_Engine s)) tx' in
         ebind (elift (sdk_call (NewBeefFromTransaction (s_parse s) tx'))) (\<lambda>beef.
         ebind (lift_engine (eread (st_FindOutputs (en_Storage (s_Engine s)) (buildInpoints tx') (s_Topic s) None True))) (\<lambda>outputs.
         ebind (elift (sdk_call (merge_outputs (sdk_of (s_Engine s)) 0 outputs [] beef []))) (\<lambda>(previousCoins, beef', _).
         ebind (etry (IdentifyAdmissibleOutputs s beef' txid previousCoins)) (\<lambda>admitted.
         let admit = (case admitted of Inl _ \<Rightarrow> zero_admittance | Inr a \<Rightarrow> a) in
         if admitted = Inl (EngineError Panic) then efail (EngineError Panic)
         else if n_OutputIndex gaspTx \<in> set (elems (ad_OutputsToAdmit admit)) then eret []
         else
           ebind (IdentifyNeededInputs s beef' txid) (\<lambda>neededInputs.
             stripAlreadyKnowInputs s (request_all True neededInputs))))))))"

section \<open>The temporary graph\<close>

definition loadGraph :: "graphs \<Rightarrow> Outpoint option \<Rightarrow> graphContext option" where
  "loadGraph gs graphID = (case graphID of None \<Rightarrow> None | Some g \<Rightarrow> map_of gs g)"

definition new_node :: "Node \<Rightarrow> hash \<Rightarrow> GraphNode" where
  "new_node gaspTx txid = \<lparr>gn_Node = gaspTx, gn_Txid = txid, gn_Children = [], gn_Parent = None\<rparr>"

text \<open>\<^verbatim>\<open>LoadOrStore\<close> of a node, counting it when it is new.\<close>

definition store_node :: "Outpoint \<Rightarrow> GraphNode \<Rightarrow> graphContext \<Rightarrow> graphContext" where
  "store_node outpoint node graph =
     (case map_of (gc_nodes graph) outpoint of
        Some _ \<Rightarrow> graph
      | None \<Rightarrow> \<lparr>gc_nodes = AList.update outpoint node (gc_nodes graph), gc_count = gc_count graph + 1\<rparr>)"

definition link_child :: "Outpoint \<Rightarrow> Outpoint \<Rightarrow> graphContext \<Rightarrow> graphContext" where
  "link_child parent child graph =
     graph\<lparr>gc_nodes :=
       AList.map_entry child (\<lambda>n. n\<lparr>gn_Parent := Some parent\<rparr>)
         (AList.map_entry parent (\<lambda>n. n\<lparr>gn_Children := List.insert child (gn_Children n)\<rparr>) (gc_nodes graph))\<rparr>"

text \<open>
  The work on one graph, once it has been looked up or created: its new state, which is kept also when
  the call fails, and the result.
\<close>

definition append_node :: "('w, 'b) OverlayGASPStorage \<Rightarrow> Node \<Rightarrow> Outpoint option \<Rightarrow> graphContext \<Rightarrow>
    graphContext \<times> (graph_error + unit)" where
  "append_node s gaspTx spentBy graph =
     (if (case s_MaxNodesInGraph s of None \<Rightarrow> False | Some m \<Rightarrow> m \<le> gc_count graph) then (graph, Inl ErrGraphFull)
      else case NewTransactionFromBytes (s_parse s) (n_RawTx gaspTx) of
        Inl e \<Rightarrow> (graph, Inl (EngineError e))
      | Inr tx \<Rightarrow>
          let txid = TxID (sdk_of (s_Engine s)) tx; outpoint = \<lparr>op_Txid = txid, op_Index = n_OutputIndex gaspTx\<rparr> in
          (case (if n_Proof gaspTx = [] then Inr () else map_error EngineError (rbind (NewMerklePathFromBinary (sdk_of (s_Engine s)) (n_Proof gaspTx)) (\<lambda>_. Inr ()))) of
             Inl e \<Rightarrow> (graph, Inl e)
           | Inr _ \<Rightarrow>
               let graph' = store_node outpoint (new_node gaspTx txid) graph in
               (case spentBy of
                  None \<Rightarrow> (graph', Inr ())
                | Some parent \<Rightarrow>
                    if map_of (gc_nodes graph') parent = None then (graph', Inl (EngineError ErrMissingInput))
                    else (link_child parent outpoint graph', Inr ()))))"

definition AppendToGraph :: "('w, 'b) OverlayGASPStorage \<Rightarrow> Node \<Rightarrow> Outpoint option \<Rightarrow> ('w, unit) gst" where
  "AppendToGraph s gaspTx spentBy =
     (case n_GraphID gaspTx of
        None \<Rightarrow> efail ErrMissingGraphID
      | Some graphID \<Rightarrow>
          ebind get_graphs (\<lambda>gs.
            let graph = (case map_of gs graphID of None \<Rightarrow> empty_graph | Some graph \<Rightarrow> graph);
                (graph', r) = append_node s gaspTx spentBy graph in
            ebind (put_graphs (AList.update graphID graph' gs)) (\<lambda>_. elift r)))"

definition DiscardGraph :: "Outpoint option \<Rightarrow> ('w, unit) gst" where
  "DiscardGraph graphID =
     (case graphID of
        None \<Rightarrow> efail (EngineError Panic)
      | Some g \<Rightarrow> ebind get_graphs (\<lambda>gs. put_graphs (AList.delete g gs)))"

section \<open>BEEF of a node\<close>

text \<open>
  The recursive hydration of a node's inputs. The recursion follows the transactions' inputs; \<open>fuel\<close>
  bounds its depth.
\<close>

definition set_source :: "TxInput \<Rightarrow> Tx \<Rightarrow> TxInput" where
  "set_source inp source = (case inp of TxInput txid index script sequence _ \<Rightarrow> TxInput txid index script sequence (Some source))"

definition with_inputs :: "Tx \<Rightarrow> TxInput list \<Rightarrow> Tx" where
  "with_inputs tx ins = (case tx of Tx version _ outs lock path \<Rightarrow> Tx version ins outs lock path)"

fun rmap :: "('a \<Rightarrow> 'e + 'b) \<Rightarrow> 'a list \<Rightarrow> 'e + 'b list" where
  "rmap f [] = Inr []"
| "rmap f (x # xs) = rbind (f x) (\<lambda>y. rbind (rmap f xs) (\<lambda>ys. Inr (y # ys)))"

definition input_outpoint :: "TxInput \<Rightarrow> Outpoint" where
  "input_outpoint inp = \<lparr>op_Txid = in_SourceTXID inp, op_Index = in_SourceTxOutIndex inp\<rparr>"

primrec hydrator :: "nat \<Rightarrow> ('w, 'b) OverlayGASPStorage \<Rightarrow> graphContext \<Rightarrow> GraphNode \<Rightarrow> graph_error + Tx" where
  "hydrator 0 s graph node = Inl (EngineError NoFuel)"
| "hydrator (Suc fuel) s graph node =
     rbind (sdk_call (NewTransactionFromBytes (s_parse s) (n_RawTx (gn_Node node)))) (\<lambda>tx.
       if n_Proof (gn_Node node) \<noteq> [] then
         rbind (sdk_call (NewMerklePathFromBinary (sdk_of (s_Engine s)) (n_Proof (gn_Node node)))) (\<lambda>path.
           Inr (with_path tx (Some path)))
       else
         rbind (rmap (\<lambda>inp.
             case map_of (gc_nodes graph) (input_outpoint inp) of
               None \<Rightarrow> Inl ErrRequiredInputNodeNotFoundInTempGraph
             | Some found \<Rightarrow> rbind (hydrator fuel s graph found) (\<lambda>source. Inr (set_source inp source))) (tx_Inputs tx)) (\<lambda>ins.
           Inr (with_inputs tx ins)))"

definition getBEEFForNode :: "('w, 'b) OverlayGASPStorage \<Rightarrow> graphContext \<Rightarrow> GraphNode \<Rightarrow> graph_error + byte list" where
  "getBEEFForNode s graph node =
     rbind (hydrator (s_hydrate s) s graph node) (\<lambda>tx.
     rbind (sdk_call (NewBeefFromTransaction (s_parse s) tx)) (\<lambda>beef.
       sdk_call (AtomicBytes (sdk_of (s_Engine s)) beef (TxID (sdk_of (s_Engine s)) tx))))"

section \<open>Dependency order\<close>

text \<open>One node per transaction, the last one of the range; then the in-graph inputs of every transaction.\<close>

definition nodes_by_txid :: "(Outpoint \<times> GraphNode) list \<Rightarrow> (hash \<times> GraphNode) list" where
  "nodes_by_txid order = fold (\<lambda>(_, node) m. AList.update (gn_Txid node) node m) order []"

definition graph_deps :: "(hash \<times> GraphNode) list \<Rightarrow> hash \<Rightarrow> Tx \<Rightarrow> hash list" where
  "graph_deps nodes txid tx =
     remdups (filter (\<lambda>h. map_of nodes h \<noteq> None \<and> h \<noteq> txid) (map in_SourceTXID (tx_Inputs tx)))"

definition collect_deps :: "('w, 'b) OverlayGASPStorage \<Rightarrow> (hash \<times> GraphNode) list \<Rightarrow> (hash \<times> GraphNode) list \<Rightarrow>
    graph_error + (hash \<times> hash list) list" where
  "collect_deps s nodes order =
     rmap (\<lambda>(txid, node).
       rbind (sdk_call (NewTransactionFromBytes (s_parse s) (n_RawTx (gn_Node node)))) (\<lambda>tx.
         Inr (txid, graph_deps nodes txid tx))) order"

text \<open>
  The state of the emission: the BEEFs so far and the ids they belong to, in the order they were
  emitted. One pass visits the transactions in the order of a range over the dependencies.
\<close>

type_synonym emission = "byte list list \<times> hash list"

fun emit_pass :: "(hash \<Rightarrow> graph_error + byte list) \<Rightarrow> (hash \<times> hash list) list \<Rightarrow> emission \<Rightarrow> graph_error + emission" where
  "emit_pass beef_of [] em = Inr em"
| "emit_pass beef_of ((txid, txDeps) # rest) (beefs, emitted) =
     (if txid \<in> set emitted then emit_pass beef_of rest (beefs, emitted)
      else if \<not> set txDeps \<subseteq> set emitted then emit_pass beef_of rest (beefs, emitted)
      else rbind (beef_of txid) (\<lambda>beef. emit_pass beef_of rest (beefs @ [beef], emitted @ [txid])))"

text \<open>
  The loop runs until everything is emitted; a pass without progress is a cycle. It is given
  one round for each transaction and one to see that it is done (\<open>emit_loop_fuel\<close>).
\<close>

primrec emit_loop :: "nat \<Rightarrow> ('w, 'b) OverlayGASPStorage \<Rightarrow> (hash \<Rightarrow> graph_error + byte list) \<Rightarrow> nat \<Rightarrow>
    (hash \<times> hash list) list \<Rightarrow> emission \<Rightarrow> ('w, byte list list) gst" where
  "emit_loop 0 s beef_of n deps em = efail (EngineError NoFuel)"
| "emit_loop (Suc fuel) s beef_of n deps em =
     (if length (snd em) < n then
        ebind (lift_engine (erange (range_seed (s_Engine s)) deps)) (\<lambda>order.
        ebind (elift (emit_pass beef_of order em)) (\<lambda>em'.
          if length (snd em') = length (snd em) then efail ErrGraphDependencyCycle
          else emit_loop fuel s beef_of n deps em'))
      else eret (fst em))"

text \<open>A transaction without a node reads as a nil node.\<close>

definition beef_for :: "('w, 'b) OverlayGASPStorage \<Rightarrow> graphContext \<Rightarrow> (hash \<times> GraphNode) list \<Rightarrow> hash \<Rightarrow> graph_error + byte list" where
  "beef_for s graph nodes txid =
     (case map_of nodes txid of
        None \<Rightarrow> Inl ErrNilNode
      | Some node \<Rightarrow> getBEEFForNode s graph node)"

definition computeOrderedBEEFsForGraph :: "('w, 'b) OverlayGASPStorage \<Rightarrow> graphContext \<Rightarrow> ('w, byte list list) gst" where
  "computeOrderedBEEFsForGraph s graph =
     ebind (lift_engine (erange (range_seed (s_Engine s)) (gc_nodes graph))) (\<lambda>order.
     let nodes = nodes_by_txid order in
     if length nodes = 0 then efail ErrUnableToFindRootNodeInGraph
     else
       ebind (lift_engine (erange (range_seed (s_Engine s)) nodes)) (\<lambda>order'.
       ebind (elift (collect_deps s nodes order')) (\<lambda>deps.
         emit_loop (Suc (length nodes)) s (beef_for s graph nodes) (length nodes) deps ([], []))))"

section \<open>Validation and submission\<close>

record validation =
  v_coins :: "Outpoint list"
  v_graphBeefs :: "(hash \<times> byte list) list"

text \<open>The loop over the outputs found for the inputs of one transaction.\<close>

fun validate_inputs :: "('w, 'b) OverlayGASPStorage \<Rightarrow> validation \<Rightarrow> Outpoint list \<Rightarrow> nat \<Rightarrow> 'b EOutput option list \<Rightarrow>
    u32 list \<Rightarrow> 'b \<Rightarrow> graph_error + (u32 list \<times> 'b)" where
  "validate_inputs s v inpoints vin [] coins beef = Inr (coins, beef)"
| "validate_inputs s v inpoints vin (Some output # outputs) coins beef =
     rbind (sdk_call (case eo_Beef output of None \<Rightarrow> Inr beef | Some b \<Rightarrow> MergeBeef (sdk_of (s_Engine s)) beef b)) (\<lambda>beef'.
       validate_inputs s v inpoints (Suc vin) outputs (coins @ [word_of_nat vin]) beef')"
| "validate_inputs s v inpoints vin (None # outputs) coins beef =
     (if length inpoints \<le> vin then Inl (EngineError Panic)
      else if inpoints ! vin \<in> set (v_coins v) then
        rbind (sdk_call (case map_of (v_graphBeefs v) (op_Txid (inpoints ! vin)) of
            None \<Rightarrow> Inr beef | Some b \<Rightarrow> MergeBeefBytes (s_parse s) beef b)) (\<lambda>beef'.
          validate_inputs s v inpoints (Suc vin) outputs (coins @ [word_of_nat vin]) beef')
      else validate_inputs s v inpoints (Suc vin) outputs coins beef)"

definition validate_beef :: "('w, 'b) OverlayGASPStorage \<Rightarrow> byte list \<Rightarrow> validation \<Rightarrow> ('w, validation) gst" where
  "validate_beef s beefBytes v =
     ebind (elift (sdk_call (ParseBeef (sdk_of (s_Engine s)) beefBytes))) (\<lambda>(beef, tx, txid).
       case (tx, txid) of
         (Some tx, Some txid) \<Rightarrow>
           ebind (lift_engine (eread (st_FindOutputs (en_Storage (s_Engine s)) (buildInpoints tx) (s_Topic s) None True))) (\<lambda>outputs.
           ebind (elift (validate_inputs s v (buildInpoints tx) 0 outputs [] beef)) (\<lambda>(previousCoins, beef').
           ebind (IdentifyAdmissibleOutputs s beef' txid previousCoins) (\<lambda>admit.
           let outs = elems (ad_OutputsToAdmit admit) in
             eret \<lparr>v_coins = v_coins v @ map (\<lambda>vout. \<lparr>op_Txid = txid, op_Index = vout\<rparr>) outs,
                v_graphBeefs = (if outs = [] then v_graphBeefs v else AList.update txid beefBytes (v_graphBeefs v))\<rparr>)))
       | _ \<Rightarrow> efail (EngineError Panic))"

definition verify_root :: "('w, 'b) OverlayGASPStorage \<Rightarrow> graphContext \<Rightarrow> GraphNode \<Rightarrow> ('w, unit) gst" where
  "verify_root s graph rootNode =
     ebind (elift (getBEEFForNode s graph rootNode)) (\<lambda>beef.
     ebind (elift (sdk_call (NewTransactionFromBEEF (s_parse s) beef))) (\<lambda>tx.
     ebind (lift_engine (eread (en_Verify (s_Engine s) tx))) (\<lambda>valid.
       if \<not> valid then efail ErrGraphAnchorInvalidTx else eret ())))"

definition ValidateGraphAnchor :: "('w, 'b) OverlayGASPStorage \<Rightarrow> Outpoint option \<Rightarrow> ('w, unit) gst" where
  "ValidateGraphAnchor s graphID =
     ebind get_graphs (\<lambda>gs.
       case (graphID, loadGraph gs graphID) of
         (Some root, Some graph) \<Rightarrow>
           (case map_of (gc_nodes graph) root of
              None \<Rightarrow> efail (EngineError ErrMissingInput)
            | Some rootNode \<Rightarrow>
                ebind (verify_root s graph rootNode) (\<lambda>_.
                ebind (computeOrderedBEEFsForGraph s graph) (\<lambda>beefs.
                ebind (efold (validate_beef s) beefs \<lparr>v_coins = [], v_graphBeefs = []\<rparr>) (\<lambda>v.
                  if root \<in> set (v_coins v) then eret () else efail ErrGraphNoTopicalAdmittance))))
       | _ \<Rightarrow> efail (EngineError ErrMissingInput))"

text \<open>
  The submission of one BEEF. The tracker that lets concurrent submissions of the same transaction share
  their result is empty whenever no submission is under way.
\<close>

definition submitBeef :: "('w, 'b) OverlayGASPStorage \<Rightarrow> byte list \<Rightarrow> ('w, unit) gst" where
  "submitBeef s beef =
     ebind (elift (sdk_call (ParseBeef (sdk_of (s_Engine s)) beef))) (\<lambda>(_, tx, txid).
       case (tx, txid) of
         (None, _) \<Rightarrow> efail ErrNoTransactionInBEEF
       | (Some _, None) \<Rightarrow> efail (EngineError Panic)
       | (Some _, Some _) \<Rightarrow>
           ebind (lift_engine (Submit (s_json s) (s_depth s) (s_Engine s) beef [s_Topic s] [] SubmitModeHistorical None)) (\<lambda>_. eret ()))"

definition FinalizeGraph :: "('w, 'b) OverlayGASPStorage \<Rightarrow> Outpoint option \<Rightarrow> ('w, unit) gst" where
  "FinalizeGraph s graphID =
     ebind get_graphs (\<lambda>gs.
       case loadGraph gs graphID of
         None \<Rightarrow> efail ErrUnableToFindRootNodeInGraph
       | Some graph \<Rightarrow>
           ebind (computeOrderedBEEFsForGraph s graph) (\<lambda>beefs. eforeach (submitBeef s) beefs))"

section \<open>The graph invariant\<close>

definition node_ok :: "('w, 'b) OverlayGASPStorage \<Rightarrow> Outpoint \<Rightarrow> GraphNode \<Rightarrow> bool" where
  "node_ok s outpoint n \<longleftrightarrow> op_Txid outpoint = gn_Txid n \<and> op_Index outpoint = n_OutputIndex (gn_Node n) \<and>
     (case NewTransactionFromBytes (s_parse s) (n_RawTx (gn_Node n)) of
        Inl _ \<Rightarrow> False | Inr tx \<Rightarrow> TxID (sdk_of (s_Engine s)) tx = gn_Txid n)"

definition links_ok :: "graphContext \<Rightarrow> bool" where
  "links_ok graph \<longleftrightarrow> (\<forall>n \<in> snd ` set (gc_nodes graph).
     set (gn_Children n) \<union> set_option (gn_Parent n) \<subseteq> fst ` set (gc_nodes graph))"

definition graph_ok :: "('w, 'b) OverlayGASPStorage \<Rightarrow> graphContext \<Rightarrow> bool" where
  "graph_ok s graph \<longleftrightarrow> distinct (map fst (gc_nodes graph)) \<and> gc_count graph = int (length (gc_nodes graph)) \<and>
     (case s_MaxNodesInGraph s of None \<Rightarrow> True | Some m \<Rightarrow> gc_count graph \<le> max 0 m) \<and>
     (\<forall>(outpoint, n) \<in> set (gc_nodes graph). node_ok s outpoint n) \<and> links_ok graph"

lemma graph_ok_empty: "graph_ok s empty_graph"
  by (auto simp: graph_ok_def links_ok_def empty_graph_def split: option.splits)

lemma update_new: "map_of al k = None \<Longrightarrow> AList.update k v al = al @ [(k, v)]"
  by (induction al) (auto split: if_splits)

lemma map_entry_set:
  assumes "distinct (map fst al)"
  shows "set (AList.map_entry k f al) = (\<lambda>(k', v). (k', if k' = k then f v else v)) ` set al"
  using assms
proof (induction al)
  case Nil
  then show ?case by simp
next
  case (Cons x al)
  obtain k' v where x: "x = (k', v)" by (rule prod.exhaust)
  have same: "k' = k \<Longrightarrow> (\<lambda>(k', v). (k', if k' = k then f v else v)) ` set al = set al"
    using Cons.prems x by (force simp: image_iff)
  show ?case
  proof (cases "k' = k")
    case True
    then show ?thesis using same x by simp
  next
    case False
    then show ?thesis using Cons x by simp
  qed
qed

lemma fst_map_entry [simp]: "map fst (AList.map_entry k f al) = map fst al"
  by (induction al) auto

lemma length_map_entry [simp]: "length (AList.map_entry k f al) = length al"
  by (induction al) auto

lemma node_ok_frame [simp]:
  "node_ok s op (n\<lparr>gn_Children := c\<rparr>) = node_ok s op n" "node_ok s op (n\<lparr>gn_Parent := p\<rparr>) = node_ok s op n"
  by (simp_all add: node_ok_def cong: sum.case_cong)

lemma graph_ok_store:
  assumes ok: "graph_ok s graph" and room: "case s_MaxNodesInGraph s of None \<Rightarrow> True | Some m \<Rightarrow> gc_count graph < m"
    and node: "node_ok s op n" "gn_Children n = []" "gn_Parent n = None"
  shows "graph_ok s (store_node op n graph)"
proof (cases "map_of (gc_nodes graph) op")
  case None
  then have g: "store_node op n graph = \<lparr>gc_nodes = gc_nodes graph @ [(op, n)], gc_count = gc_count graph + 1\<rparr>"
    by (simp add: store_node_def update_new)
  have "op \<notin> fst ` set (gc_nodes graph)" using None by (simp add: map_of_eq_None_iff)
  moreover have "links_ok (store_node op n graph)" unfolding links_ok_def g using ok node by (simp add: graph_ok_def links_ok_def) blast
  ultimately show ?thesis using ok room node by (auto simp: g graph_ok_def split: option.splits)
next
  case (Some n')
  then show ?thesis using ok by (simp add: store_node_def)
qed

lemma graph_ok_link:
  assumes ok: "graph_ok s graph" and present: "parent \<in> fst ` set (gc_nodes graph)" "child \<in> fst ` set (gc_nodes graph)"
  shows "graph_ok s (link_child parent child graph)"
proof -
  have dist: "distinct (map fst (gc_nodes graph))" using ok by (simp add: graph_ok_def)
  let ?al = "AList.map_entry parent (\<lambda>n. n\<lparr>gn_Children := List.insert child (gn_Children n)\<rparr>) (gc_nodes graph)"
  have set1: "set ?al = (\<lambda>(k, v). (k, if k = parent then v\<lparr>gn_Children := List.insert child (gn_Children v)\<rparr> else v)) ` set (gc_nodes graph)"
    by (rule map_entry_set[OF dist])
  have set2: "set (gc_nodes (link_child parent child graph)) = (\<lambda>(k, v). (k, if k = child then v\<lparr>gn_Parent := Some parent\<rparr> else v)) ` set ?al"
    unfolding link_child_def using map_entry_set[of ?al child] dist by simp
  have keys: "fst ` set (gc_nodes (link_child parent child graph)) = fst ` set (gc_nodes graph)"
    unfolding set2 set1 by (force simp: image_iff)
  have "\<forall>(op, n) \<in> set (gc_nodes (link_child parent child graph)). node_ok s op n"
    using ok unfolding set2 set1 graph_ok_def by auto
  moreover have "links_ok (link_child parent child graph)"
    unfolding links_ok_def keys
  proof
    fix n
    assume "n \<in> snd ` set (gc_nodes (link_child parent child graph))"
    then obtain k v where kv: "(k, v) \<in> set (gc_nodes graph)"
      "set (gn_Children n) \<subseteq> insert child (set (gn_Children v))" "set_option (gn_Parent n) \<subseteq> insert parent (set_option (gn_Parent v))"
      unfolding set2 set1 by (auto simp: image_image split: if_splits) blast+
    have "set (gn_Children v) \<union> set_option (gn_Parent v) \<subseteq> fst ` set (gc_nodes graph)"
      using ok kv(1) unfolding graph_ok_def links_ok_def by force
    with kv(2,3) present show "set (gn_Children n) \<union> set_option (gn_Parent n) \<subseteq> fst ` set (gc_nodes graph)" by blast
  qed
  moreover have "map fst (gc_nodes (link_child parent child graph)) = map fst (gc_nodes graph)"
    "length (gc_nodes (link_child parent child graph)) = length (gc_nodes graph)"
    "gc_count (link_child parent child graph) = gc_count graph" by (simp_all add: link_child_def)
  ultimately show ?thesis using ok unfolding graph_ok_def by (auto split: option.splits)
qed

definition graphs_ok :: "('w, 'b) OverlayGASPStorage \<Rightarrow> graphs \<Rightarrow> bool" where
  "graphs_ok s gs \<longleftrightarrow> distinct (map fst gs) \<and> (\<forall>graph \<in> snd ` set gs. graph_ok s graph)"

lemma graph_ok_append: "graph_ok s graph \<Longrightarrow> append_node s gaspTx spentBy graph = (graph', r) \<Longrightarrow> graph_ok s graph'"
proof -
  assume ok: "graph_ok s graph" and run: "append_node s gaspTx spentBy graph = (graph', r)"
  show ?thesis
  proof (cases "case s_MaxNodesInGraph s of None \<Rightarrow> False | Some m \<Rightarrow> m \<le> gc_count graph")
    case True
    with run ok show ?thesis by (simp add: append_node_def)
  next
    case False
    show ?thesis
    proof (cases "NewTransactionFromBytes (s_parse s) (n_RawTx gaspTx)")
      case (Inl e)
      with run ok False show ?thesis by (simp add: append_node_def)
    next
      case (Inr tx)
      let ?txid = "TxID (sdk_of (s_Engine s)) tx"
      let ?op = "\<lparr>op_Txid = ?txid, op_Index = n_OutputIndex gaspTx\<rparr>"
      let ?g = "store_node ?op (new_node gaspTx ?txid) graph"
      have stored: "graph_ok s ?g"
        using ok False Inr by (intro graph_ok_store) (auto simp: node_ok_def new_node_def split: option.splits)
      have child: "?op \<in> fst ` set (gc_nodes ?g)"
        by (auto simp: store_node_def update_new image_iff split: option.splits dest!: map_of_SomeD) force
      have linked: "graph_ok s (link_child p ?op ?g)" if "map_of (gc_nodes ?g) p \<noteq> None" for p
        using that by (intro graph_ok_link[OF stored _ child]) (metis map_of_eq_None_iff)
      from run False Inr have "graph' = graph \<or> graph' = ?g \<or> (\<exists>p. map_of (gc_nodes ?g) p \<noteq> None \<and> graph' = link_child p ?op ?g)"
        by (auto simp: append_node_def Let_def split: sum.splits option.splits if_splits)
      with ok stored linked show ?thesis by blast
    qed
  qed
qed

lemma graphs_ok_update: "graphs_ok s gs \<Longrightarrow> graph_ok s graph \<Longrightarrow> graphs_ok s (AList.update k graph gs)"
proof -
  assume gs: "graphs_ok s gs" and g: "graph_ok s graph"
  have "snd ` set (AList.update k graph gs) \<subseteq> insert graph (snd ` set gs)"
    by (induction gs) (auto split: if_splits)
  moreover have "distinct (map fst (AList.update k graph gs))" using gs by (simp add: graphs_ok_def AList.distinct_update)
  ultimately show ?thesis using gs g unfolding graphs_ok_def by blast
qed

lemma graphs_ok_delete: "graphs_ok s gs \<Longrightarrow> graphs_ok s (AList.delete k gs)"
  unfolding graphs_ok_def AList.delete_eq by (auto simp: distinct_map inj_on_def)

section \<open>Calls that leave the graphs alone\<close>

named_theorems keeps_intros \<open>calls that do not change the temporary graphs\<close>

definition keeps_graphs :: "('w, 'a) gst \<Rightarrow> bool" where
  "keeps_graphs m \<longleftrightarrow> (\<forall>s. fst (fst (snd (m s))) = fst (fst s))"

lemma keeps_simple [keeps_intros]: "keeps_graphs (eret x)" "keeps_graphs (efail e)" "keeps_graphs (elift r)"
  "keeps_graphs (lift_engine m)" "keeps_graphs get_graphs"
  by (auto simp: keeps_graphs_def eret_def efail_def elift_def lift_engine_def get_graphs_def split: prod.splits)

lemma keeps_ebind [keeps_intros]: "keeps_graphs m \<Longrightarrow> (\<And>x. keeps_graphs (f x)) \<Longrightarrow> keeps_graphs (ebind m f)"
  unfolding keeps_graphs_def ebind_def by (auto split: prod.splits sum.splits) (metis fst_conv snd_conv)+

lemma keeps_efold [keeps_intros]: "(\<And>x a. keeps_graphs (body x a)) \<Longrightarrow> keeps_graphs (efold body xs a)"
  by (induction xs arbitrary: a) (auto intro: keeps_intros)

lemma keeps_etry [keeps_intros]: "keeps_graphs m \<Longrightarrow> keeps_graphs (etry m)"
  by (simp add: keeps_graphs_def etry_def)

lemma keeps_cases [keeps_intros]:
  "keeps_graphs m \<Longrightarrow> keeps_graphs n \<Longrightarrow> keeps_graphs (if b then m else n)"
  "keeps_graphs m \<Longrightarrow> (\<And>y. keeps_graphs (f y)) \<Longrightarrow> keeps_graphs (case x of None \<Rightarrow> m | Some y \<Rightarrow> f y)"
  "(\<And>y z. keeps_graphs (g y z)) \<Longrightarrow> keeps_graphs (case p of (y, z) \<Rightarrow> g y z)"
  "(\<And>y z. keeps_graphs (h y z a)) \<Longrightarrow> keeps_graphs ((case p of (y, z) \<Rightarrow> h y z) a)"
  by (auto split: option.splits prod.splits)

lemma keeps_calls [keeps_intros]:
  "keeps_graphs (stripAlreadyKnowInputs s rq)" "keeps_graphs (IdentifyAdmissibleOutputs s beef txid coins)"
  "keeps_graphs (IdentifyNeededInputs s beef txid)" "keeps_graphs (HasOutputs s ops)"
  "keeps_graphs (FindKnownUTXOs s since limit)" "keeps_graphs (HydrateGASPNode s gid op md)"
  unfolding stripAlreadyKnowInputs_def IdentifyAdmissibleOutputs_def IdentifyNeededInputs_def HasOutputs_def FindKnownUTXOs_def
    HydrateGASPNode_def by (intro keeps_intros)+

lemma keeps_FindNeededInputs [keeps_intros]: "keeps_graphs (FindNeededInputs s node)"
  unfolding FindNeededInputs_def Let_def by (intro keeps_intros)

lemma keeps_emit_loop [keeps_intros]: "keeps_graphs (emit_loop fuel s bo n deps em)"
  by (induction fuel arbitrary: em) (auto intro!: keeps_intros)

lemma keeps_computeOrdered [keeps_intros]: "keeps_graphs (computeOrderedBEEFsForGraph s graph)"
  unfolding computeOrderedBEEFsForGraph_def Let_def by (intro keeps_intros)

lemma keeps_ValidateGraphAnchor [keeps_intros]: "keeps_graphs (ValidateGraphAnchor s gid)"
  unfolding ValidateGraphAnchor_def verify_root_def validate_beef_def Let_def by (intro keeps_intros)

lemma keeps_FinalizeGraph [keeps_intros]: "keeps_graphs (FinalizeGraph s gid)"
  unfolding FinalizeGraph_def submitBeef_def by (intro keeps_intros)

section \<open>Graphs of every run\<close>

text \<open>The calls a synchroniser makes on its storage.\<close>

datatype graph_call =
  CallAppend Node "Outpoint option"
| CallDiscard "Outpoint option"
| CallNeeded Node
| CallValidate "Outpoint option"
| CallFinalize "Outpoint option"
| CallHydrate "Outpoint option" Outpoint bool

fun run_call :: "('w, 'b) OverlayGASPStorage \<Rightarrow> graph_call \<Rightarrow> ('w, unit) gst" where
  "run_call s (CallAppend node spentBy) = AppendToGraph s node spentBy"
| "run_call s (CallDiscard gid) = DiscardGraph gid"
| "run_call s (CallNeeded node) = ebind (FindNeededInputs s node) (\<lambda>_. eret ())"
| "run_call s (CallValidate gid) = ValidateGraphAnchor s gid"
| "run_call s (CallFinalize gid) = FinalizeGraph s gid"
| "run_call s (CallHydrate gid outpoint metadata) = ebind (HydrateGASPNode s gid outpoint metadata) (\<lambda>_. eret ())"

inductive graphs_reach :: "('w, 'b) OverlayGASPStorage \<Rightarrow> graphs \<Rightarrow> bool" for s where
  graphs_start: "graphs_reach s []"
| graphs_call: "graphs_reach s gs \<Longrightarrow> run_call s c ((gs, w), log) = (r, ((gs', w'), log')) \<Longrightarrow> graphs_reach s gs'"

lemma keepsD: "keeps_graphs m \<Longrightarrow> m ((gs, w), log) = (r, ((gs', w'), log')) \<Longrightarrow> gs' = gs"
  unfolding keeps_graphs_def by (metis fst_conv snd_conv)

lemma AppendToGraph_graphs:
  assumes "AppendToGraph s node spentBy ((gs, w), log) = (r, ((gs', w'), log'))"
  shows "gs' = gs \<or> (\<exists>gid graph r'. n_GraphID node = Some gid \<and>
    append_node s node spentBy (case map_of gs gid of None \<Rightarrow> empty_graph | Some g \<Rightarrow> g) = (graph, r') \<and>
    gs' = AList.update gid graph gs)"
  using assms
  by (auto simp: AppendToGraph_def ebind_def get_graphs_def put_graphs_def elift_def efail_def split: option.splits prod.splits)

lemma graphs_ok_call:
  assumes ok: "graphs_ok s gs" and run: "run_call s c ((gs, w), log) = (r, ((gs', w'), log'))"
  shows "graphs_ok s gs'"
proof (cases c)
  case (CallAppend node spentBy)
  with run have a: "AppendToGraph s node spentBy ((gs, w), log) = (r, ((gs', w'), log'))" by simp
  have "graph_ok s (case map_of gs gid of None \<Rightarrow> empty_graph | Some g \<Rightarrow> g)" for gid
    using ok graph_ok_empty by (force simp: graphs_ok_def split: option.splits dest: map_of_SomeD)
  with AppendToGraph_graphs[OF a] ok show ?thesis by (elim disjE exE conjE) (auto dest!: graph_ok_append intro!: graphs_ok_update)
next
  case (CallDiscard gid)
  with run have "gs' = gs \<or> (\<exists>g. gs' = AList.delete g gs)"
    by (auto simp: DiscardGraph_def ebind_def get_graphs_def put_graphs_def efail_def split: option.splits)
  with ok graphs_ok_delete show ?thesis by blast
next
  case (CallNeeded node)
  have "keeps_graphs (ebind (FindNeededInputs s node) (\<lambda>_. eret ()))" by (intro keeps_intros)
  from keepsD[OF this] run have "gs' = gs" unfolding CallNeeded run_call.simps by fast
  with ok show ?thesis by simp
next
  case (CallValidate gid)
  with run ok keepsD[OF keeps_ValidateGraphAnchor] show ?thesis by force
next
  case (CallFinalize gid)
  with run ok keepsD[OF keeps_FinalizeGraph] show ?thesis by force
next
  case (CallHydrate gid op md)
  have "keeps_graphs (ebind (HydrateGASPNode s gid op md) (\<lambda>_. eret ()))" by (intro keeps_intros)
  from keepsD[OF this] run have "gs' = gs" unfolding CallHydrate run_call.simps by fast
  with ok show ?thesis by simp
qed

text \<open>C14: whatever calls a synchroniser makes, successful or not, every temporary graph is well formed: its counter is the
  number of its nodes and never exceeds the configured maximum, every node is stored once, under the
  outpoint computed from its own bytes, and parent and child links stay inside the graph.\<close>

theorem graphs_well_formed:
  assumes "graphs_reach s gs"
  shows "graphs_ok s gs"
  using assms
proof (induction rule: graphs_reach.induct)
  case graphs_start
  then show ?case by (simp add: graphs_ok_def)
next
  case (graphs_call gs c w log r gs' w' log')
  then show ?case by (blast intro: graphs_ok_call)
qed

text \<open>A storage for concrete runs: transactions are parsed to one with the input of \<^const>\<open>demo_tx\<close>.\<close>

definition demo_graph_sdk :: "Tx graph_sdk" where
  "demo_graph_sdk = \<lparr>NewTransactionFromBytes = \<lambda>bs. if bs = [] then Inl ErrInvalidBeef else Inr demo_tx,
     NewBeefFromTransaction = \<lambda>tx. Inr tx, NewTransactionFromBEEF = \<lambda>_. Inr demo_tx, MergeBeefBytes = \<lambda>b _. Inr b\<rparr>"

definition demo_graph_storage :: "(unit, Tx) OverlayGASPStorage" where
  "demo_graph_storage = \<lparr>s_Topic = ''tm_a'', s_Engine = demo_engine\<lparr>sdk_of := demo_sdk\<lparr>TxID := \<lambda>_. replicate 32 9,
       ParseBeef := \<lambda>_. Inr (demo_tx, Some demo_tx, Some (replicate 32 9))\<rparr>\<rparr>, s_MaxNodesInGraph = Some 1,
     s_parse = demo_graph_sdk, s_json = demo_json, s_depth = 5, s_hydrate = 5\<rparr>"

definition demo_node :: "u32 \<Rightarrow> Node" where
  "demo_node i = \<lparr>n_GraphID = Some \<lparr>op_Txid = replicate 32 9, op_Index = 0\<rparr>, n_RawTx = [1], n_OutputIndex = i, n_Proof = [1],
     n_TxMetadata = '''', n_OutputMetadata = '''', n_Inputs = Map.empty\<rparr>"

definition demo_graphs :: graphs where
  "demo_graphs = fst (fst (snd (AppendToGraph demo_graph_storage (demo_node 0) None (([], ()), []))))"

theorem graphs_well_formed_witness:
  "graphs_ok demo_graph_storage demo_graphs \<and> length demo_graphs = 1 \<and>
     fst (AppendToGraph demo_graph_storage (demo_node 1) None ((demo_graphs, ()), [])) = Inl ErrGraphFull"
proof (intro conjI)
  obtain r w log gs where run: "AppendToGraph demo_graph_storage (demo_node 0) None (([], ()), []) = (r, ((gs, w), log))"
    by (metis prod.exhaust)
  have "graphs_reach demo_graph_storage gs"
    by (rule graphs_call[OF graphs_start, where c = "CallAppend (demo_node 0) None"]) (use run in simp)
  from graphs_well_formed[OF this] run show "graphs_ok demo_graph_storage demo_graphs" by (simp add: demo_graphs_def)
  show "length demo_graphs = 1" by code_simp
  show "fst (AppendToGraph demo_graph_storage (demo_node 1) None ((demo_graphs, ()), [])) = Inl ErrGraphFull" by code_simp
qed

section \<open>Emission in dependency order\<close>

definition emission_ok :: "(hash \<Rightarrow> graph_error + byte list) \<Rightarrow> (hash \<times> hash list) list \<Rightarrow> emission \<Rightarrow> bool" where
  "emission_ok beef_of deps em \<longleftrightarrow> distinct (snd em) \<and> set (snd em) \<subseteq> fst ` set deps \<and>
     list_all2 (\<lambda>h b. beef_of h = Inr b) (snd em) (fst em) \<and>
     (\<forall>before h after ds. snd em = before @ h # after \<longrightarrow> (h, ds) \<in> set deps \<longrightarrow> set ds \<subseteq> set before)"

lemma emission_ok_snoc:
  assumes ok: "emission_ok beef_of deps (beefs, ids)" and h: "(h, ds) \<in> set deps" "h \<notin> set ids" "set ds \<subseteq> set ids" "beef_of h = Inr b"
    and dist: "distinct (map fst deps)"
  shows "emission_ok beef_of deps (beefs @ [b], ids @ [h])"
proof -
  have "set ds' \<subseteq> set before" if eq: "ids @ [h] = before @ g # after" and g: "(g, ds') \<in> set deps" for before g after ds'
  proof (cases after rule: rev_cases)
    case Nil
    with eq have "before = ids" "g = h" by simp_all
    with g h(1,3) dist show ?thesis by (metis eq_key_imp_eq_value)
  next
    case (snoc rest l)
    with eq have "ids = before @ g # rest" by simp
    with ok g show ?thesis by (auto simp: emission_ok_def)
  qed
  with ok h show ?thesis by (auto simp: emission_ok_def intro: list_all2_appendI rev_image_eqI)
qed

lemma emit_pass_ok:
  assumes "emit_pass beef_of order em = Inr em'" "emission_ok beef_of deps em" "set order \<subseteq> set deps" "distinct (map fst deps)"
  shows "emission_ok beef_of deps em' \<and> (\<exists>more. snd em' = snd em @ more)"
  using assms
proof (induction beef_of order em rule: emit_pass.induct)
  case (1 beef_of em)
  then show ?case by simp
next
  case (2 beef_of txid txDeps rest beefs emitted)
  show ?case
  proof (cases "txid \<in> set emitted \<or> \<not> set txDeps \<subseteq> set emitted")
    case True
    with 2 show ?thesis by (auto split: if_splits)
  next
    case False
    with "2.prems"(1) obtain b where b: "beef_of txid = Inr b" "emit_pass beef_of rest (beefs @ [b], emitted @ [txid]) = Inr em'"
      by (auto simp: rbind_Inr_iff)
    have "emission_ok beef_of deps (beefs @ [b], emitted @ [txid])"
      using emission_ok_snoc[OF "2.prems"(2)] False b(1) "2.prems"(3,4) by auto
    with "2.IH"(3)[of b] False b "2.prems"(3,4) show ?thesis by auto
  qed
qed

text \<open>A pass that emits nothing found every transaction emitted or blocked.\<close>

lemma emit_pass_stuck:
  assumes "emit_pass beef_of order (beefs, ids) = Inr (beefs', ids)" "(h, ds) \<in> set order"
  shows "h \<in> set ids \<or> \<not> set ds \<subseteq> set ids"
  using assms
proof (induction order arbitrary: beefs)
  case Nil
  then show ?case by simp
next
  case (Cons x order)
  obtain g es where x: "x = (g, es)" by (rule prod.exhaust)
  have mono: "emit_pass beef_of order (bs, is) = Inr em \<Longrightarrow> length is \<le> length (snd em)" for bs "is" em
    by (induction beef_of order "(bs, is)" arbitrary: bs "is" rule: emit_pass.induct) (fastforce simp: rbind_Inr_iff split: if_splits)+
  show ?case
  proof (cases "g \<in> set ids \<or> \<not> set es \<subseteq> set ids")
    case True
    with Cons x show ?thesis by (auto split: if_splits)
  next
    case False
    with Cons.prems(1) x obtain b where "emit_pass beef_of order (beefs @ [b], ids @ [g]) = Inr (beefs', ids)"
      by (auto simp: rbind_Inr_iff)
    from mono[OF this] show ?thesis by simp
  qed
qed

lemma lift_erange:
  assumes "lift_engine (erange seed xs) st = (r, st')"
  shows "\<exists>ys. r = Inr ys \<and> mset ys = mset xs"
proof -
  obtain g w l where st: "st = ((g, w), l)" by (metis prod.exhaust)
  obtain r0 w' l' where run: "erange seed xs (w, l) = (r0 :: engine_error + _, (w', l'))" by (metis prod.exhaust)
  from erange_Inr[OF run] assms run st show ?thesis by (auto simp: lift_engine_def)
qed

text \<open>The ids whose emission waits for one another.\<close>

definition cyclic :: "(hash \<times> hash list) list \<Rightarrow> hash set \<Rightarrow> bool" where
  "cyclic deps C \<longleftrightarrow> C \<noteq> {} \<and> C \<subseteq> fst ` set deps \<and> (\<forall>h \<in> C. \<forall>ds. (h, ds) \<in> set deps \<longrightarrow> set ds \<inter> C \<noteq> {})"

lemma emit_loop_result:
  assumes "emit_loop fuel s beef_of n deps em st = (r, st')" "emission_ok beef_of deps em" "distinct (map fst deps)"
    and "n = length deps" "n - length (snd em) < fuel" "\<forall>(h, ds) \<in> set deps. set ds \<subseteq> fst ` set deps"
  shows "case r of
      Inr beefs \<Rightarrow> \<exists>ids. emission_ok beef_of deps (beefs, ids) \<and> set ids = fst ` set deps
    | Inl e \<Rightarrow> (e = ErrGraphDependencyCycle \<and> (\<exists>C. cyclic deps C)) \<or> (\<exists>h \<in> fst ` set deps. beef_of h = Inl e)"
  using assms
proof (induction fuel arbitrary: em st)
  case 0
  then show ?case by simp
next
  case (Suc fuel)
  show ?case
  proof (cases "length (snd em) < n")
    case False
    have sub: "set (snd em) \<subseteq> fst ` set deps" "distinct (snd em)" using Suc.prems(2) by (simp_all add: emission_ok_def)
    have "card (fst ` set deps) = n" using Suc.prems(3,4) by (metis distinct_card length_map set_map)
    moreover have "length (snd em) \<le> card (fst ` set deps)" using sub by (metis card_mono distinct_card finite_imageI finite_set)
    ultimately have "set (snd em) = fst ` set deps"
      using sub False by (intro card_subset_eq) (simp_all add: distinct_card)
    with Suc.prems(1,2) False show ?thesis by (cases em) (auto simp: eret_def)
  next
    case True
    obtain r1 st1 where range: "lift_engine (erange (range_seed (s_Engine s)) deps) st = (r1, st1)" by (rule prod.exhaust)
    then obtain order where r1: "r1 = Inr order" "mset order = mset deps" using lift_erange by blast
    have set: "set order = set deps" using r1(2) by (metis set_mset_mset)
    have run: "ebind (elift (emit_pass beef_of order em)) (\<lambda>em'.
          if length (snd em') = length (snd em) then efail ErrGraphDependencyCycle else emit_loop fuel s beef_of n deps em') st1 = (r, st')"
      using Suc.prems(1) True range r1 by (simp add: ebind_def)
    show ?thesis
    proof (cases "emit_pass beef_of order em")
      case (Inl e)
      then have "\<exists>h \<in> fst ` set order. beef_of h = Inl e"
        by (induction beef_of order em rule: emit_pass.induct) (fastforce simp: rbind_Inl_iff split: if_splits)+
      moreover have "r = Inl e" using run Inl by (simp add: ebind_def elift_def)
      ultimately show ?thesis unfolding set by (simp only: sum.case) blast
    next
      case (Inr em')
      note pass = emit_pass_ok[OF Inr Suc.prems(2) _ Suc.prems(3)]
      then obtain more where em': "emission_ok beef_of deps em'" "snd em' = snd em @ more" using set by auto
      show ?thesis
      proof (cases "length (snd em') = length (snd em)")
        case True
        with em' have same: "snd em' = snd em" by simp
        let ?C = "fst ` set deps - set (snd em)"
        have "card (set (snd em)) < card (fst ` set deps)"
          using \<open>length (snd em) < n\<close> Suc.prems(2-4) by (metis distinct_card emission_ok_def length_map set_map)
        then have "?C \<noteq> {}" by (metis Diff_eq_empty_iff card_mono finite_set leD)
        moreover have "set ds \<inter> ?C \<noteq> {}" if "h \<in> ?C" "(h, ds) \<in> set deps" for h ds
        proof -
          have "\<not> set ds \<subseteq> set (snd em)"
            using that emit_pass_stuck[of beef_of order "fst em" "snd em" "fst em'" h ds] Inr same set by (metis DiffE prod.collapse)
          then show ?thesis using that Suc.prems(6) by blast
        qed
        ultimately have "cyclic deps ?C" unfolding cyclic_def by blast
        with run Inr True show ?thesis by (auto simp: ebind_def elift_def efail_def)
      next
        case False
        then have "length (snd em) < length (snd em')" using em'(2) by simp
        then have "n - length (snd em') < fuel" using Suc.prems(5) \<open>length (snd em) < n\<close> by linarith
        with Suc.IH[of em' st1] run Inr False em'(1) Suc.prems show ?thesis by (simp add: ebind_def elift_def)
      qed
    qed
  qed
qed

lemma rmap_Inr: "rmap f xs = Inr ys \<longleftrightarrow> list_all2 (\<lambda>x y. f x = Inr y) xs ys"
  by (induction xs arbitrary: ys) (auto simp: rbind_Inr_iff list_all2_Cons1)

lemma rmap_Inl: "rmap f xs = Inl e \<Longrightarrow> \<exists>x \<in> set xs. f x = Inl e"
  by (induction xs) (auto simp: rbind_Inl_iff)

lemma nodes_by_txid_facts:
  shows "distinct (map fst (nodes_by_txid order))"
    and "map_of (nodes_by_txid order) h = Some n \<Longrightarrow> n \<in> snd ` set order \<and> gn_Txid n = h"
    and "dom (map_of (nodes_by_txid order)) = gn_Txid ` snd ` set order"
proof -
  let ?f = "\<lambda>(_ :: Outpoint, node) m. AList.update (gn_Txid node) node m"
  have "distinct (map fst al) \<Longrightarrow> distinct (map fst (fold ?f order al))" for al
    by (induction order arbitrary: al) (auto simp: AList.distinct_update)
  then show "distinct (map fst (nodes_by_txid order))" by (simp add: nodes_by_txid_def)
  have "map_of (fold ?f order al) h = Some n \<Longrightarrow> map_of al h = Some n \<or> n \<in> snd ` set order \<and> gn_Txid n = h" for al
  proof (induction order arbitrary: al)
    case (Cons x order)
    then show ?case by (cases x) (fastforce simp: AList.update_conv' split: if_splits)
  qed simp
  then show "map_of (nodes_by_txid order) h = Some n \<Longrightarrow> n \<in> snd ` set order \<and> gn_Txid n = h" by (force simp: nodes_by_txid_def)
  have "dom (map_of (fold ?f order al)) = dom (map_of al) \<union> gn_Txid ` snd ` set order" for al
    by (induction order arbitrary: al) (auto simp: AList.update_conv')
  then show "dom (map_of (nodes_by_txid order)) = gn_Txid ` snd ` set order" by (simp add: nodes_by_txid_def)
qed

definition node_tx :: "('w, 'b) OverlayGASPStorage \<Rightarrow> GraphNode \<Rightarrow> engine_error + Tx" where
  "node_tx s n = NewTransactionFromBytes (s_parse s) (n_RawTx (gn_Node n))"

definition sources :: "Tx \<Rightarrow> hash set" where
  "sources tx = in_SourceTXID ` set (tx_Inputs tx)"

definition graph_txids :: "graphContext \<Rightarrow> hash set" where
  "graph_txids graph = gn_Txid ` snd ` set (gc_nodes graph)"

lemma set_graph_deps: "set (graph_deps nodes h tx) = sources tx \<inter> dom (map_of nodes) - {h}"
  by (auto simp: graph_deps_def sources_def)

lemma collect_deps_facts:
  assumes "collect_deps s nodes order = Inr deps" "mset order = mset nodes" "distinct (map fst nodes)"
  shows "distinct (map fst deps)" "fst ` set deps = dom (map_of nodes)" "length deps = length nodes"
    "(h, ds) \<in> set deps \<longleftrightarrow> (\<exists>n tx. map_of nodes h = Some n \<and> node_tx s n = Inr tx \<and> ds = graph_deps nodes h tx)"
proof -
  have all: "list_all2 (\<lambda>(h, n) (h', ds). h' = h \<and> (\<exists>tx. node_tx s n = Inr tx \<and> ds = graph_deps nodes h tx)) order deps"
    using assms(1) unfolding collect_deps_def rmap_Inr
    by (rule list_all2_mono) (auto simp: rbind_Inr_iff sdk_call_def node_tx_def)
  have keys: "map fst deps = map fst order"
    using all by (induction rule: list_all2_induct) (auto split: prod.splits)
  have "mset (map fst order) = mset (map fst nodes)" using assms(2) by simp
  then have "distinct (map fst order)" using assms(3) by (rule mset_eq_imp_distinct_iff[THEN iffD2])
  with keys show "distinct (map fst deps)" by simp
  have set: "set order = set nodes" using assms(2) by (rule mset_eq_setD)
  have "fst ` set deps = fst ` set order" using keys by (metis set_map)
  then show "fst ` set deps = dom (map_of nodes)" unfolding set dom_map_of_conv_image_fst .
  show "length deps = length nodes" using list_all2_lengthD[OF all] mset_eq_length[OF assms(2)] by simp
  have in_nodes: "map_of nodes h = Some n \<longleftrightarrow> (h, n) \<in> set order" for n using assms(3) set by simp
  show "(h, ds) \<in> set deps \<longleftrightarrow> (\<exists>n tx. map_of nodes h = Some n \<and> node_tx s n = Inr tx \<and> ds = graph_deps nodes h tx)"
    unfolding in_nodes
  proof
    assume "(h, ds) \<in> set deps"
    then obtain i where "i < length deps" "deps ! i = (h, ds)" by (auto simp: in_set_conv_nth)
    then have "case order ! i of (h', n) \<Rightarrow> h = h' \<and> (\<exists>tx. node_tx s n = Inr tx \<and> ds = graph_deps nodes h' tx)"
      and "order ! i \<in> set order"
      using all by (auto simp: list_all2_conv_all_nth split: prod.splits dest!: spec[of _ i])
    then show "\<exists>n tx. (h, n) \<in> set order \<and> node_tx s n = Inr tx \<and> ds = graph_deps nodes h tx" by (auto split: prod.splits)
  next
    assume "\<exists>n tx. (h, n) \<in> set order \<and> node_tx s n = Inr tx \<and> ds = graph_deps nodes h tx"
    then obtain n tx i where n: "node_tx s n = Inr tx" "ds = graph_deps nodes h tx" "i < length order" "order ! i = (h, n)"
      by (auto simp: in_set_conv_nth)
    then have "deps ! i = (h, ds)" "i < length deps"
      using all by (cases "deps ! i"; auto simp: list_all2_conv_all_nth split: prod.splits dest!: spec[of _ i])+
    then show "(h, ds) \<in> set deps" by (metis nth_mem)
  qed
qed

text \<open>An order of the graph's transactions in which every transaction follows its inputs in the graph.\<close>

definition ordered_submission :: "('w, 'b) OverlayGASPStorage \<Rightarrow> graphContext \<Rightarrow> hash list \<Rightarrow> (hash \<Rightarrow> GraphNode) \<Rightarrow> byte list list \<Rightarrow> bool" where
  "ordered_submission s graph ids node_of beefs \<longleftrightarrow>
     distinct ids \<and> set ids = graph_txids graph \<and>
     list_all2 (\<lambda>h b. getBEEFForNode s graph (node_of h) = Inr b) ids beefs \<and>
     (\<forall>h \<in> set ids. node_of h \<in> snd ` set (gc_nodes graph) \<and> gn_Txid (node_of h) = h) \<and>
     (\<forall>before h after. ids = before @ h # after \<longrightarrow>
        (\<exists>tx. node_tx s (node_of h) = Inr tx \<and> sources tx \<inter> graph_txids graph - {h} \<subseteq> set before))"

definition dependency_cycle :: "('w, 'b) OverlayGASPStorage \<Rightarrow> graphContext \<Rightarrow> hash set \<Rightarrow> bool" where
  "dependency_cycle s graph C \<longleftrightarrow> C \<noteq> {} \<and> C \<subseteq> graph_txids graph \<and>
     (\<forall>h \<in> C. \<exists>n \<in> snd ` set (gc_nodes graph). \<exists>tx. gn_Txid n = h \<and> node_tx s n = Inr tx \<and> sources tx \<inter> (C - {h}) \<noteq> {})"

lemma computeOrdered_stages:
  assumes "computeOrderedBEEFsForGraph s graph st = (r, st')"
  obtains order where "mset order = mset (gc_nodes graph)" "nodes_by_txid order = []" "r = Inl ErrUnableToFindRootNodeInGraph"
  | order order' e where "mset order = mset (gc_nodes graph)" "mset order' = mset (nodes_by_txid order)"
      "collect_deps s (nodes_by_txid order) order' = Inl e" "r = Inl e"
  | order order' deps st2 where "mset order = mset (gc_nodes graph)" "mset order' = mset (nodes_by_txid order)"
      "collect_deps s (nodes_by_txid order) order' = Inr deps"
      "emit_loop (Suc (length (nodes_by_txid order))) s (beef_for s graph (nodes_by_txid order)) (length (nodes_by_txid order)) deps ([], []) st2 = (r, st')"
proof -
  obtain r1 st1 where range: "lift_engine (erange (range_seed (s_Engine s)) (gc_nodes graph)) st = (r1, st1)" by (rule prod.exhaust)
  then obtain order where order: "r1 = Inr order" "mset order = mset (gc_nodes graph)" using lift_erange by blast
  show thesis
  proof (cases "nodes_by_txid order = []")
    case True
    with assms range order show thesis
      by (intro that(1)[OF order(2)]) (auto simp: computeOrderedBEEFsForGraph_def ebind_def efail_def)
  next
    case False
    obtain r2 st2 where range2: "lift_engine (erange (range_seed (s_Engine s)) (nodes_by_txid order)) st1 = (r2, st2)" by (rule prod.exhaust)
    then obtain order' where order': "r2 = Inr order'" "mset order' = mset (nodes_by_txid order)" using lift_erange by blast
    have run: "ebind (elift (collect_deps s (nodes_by_txid order) order')) (\<lambda>deps.
        emit_loop (Suc (length (nodes_by_txid order))) s (beef_for s graph (nodes_by_txid order)) (length (nodes_by_txid order)) deps ([], [])) st2 = (r, st')"
      using assms range order(1) False range2 order'(1) by (simp add: computeOrderedBEEFsForGraph_def ebind_def Let_def)
    show thesis
    proof (cases "collect_deps s (nodes_by_txid order) order'")
      case (Inl e)
      with run show thesis by (intro that(2)[OF order(2) order'(2) Inl]) (simp add: ebind_def elift_def)
    next
      case (Inr deps)
      with run show thesis by (intro that(3)[OF order(2) order'(2) Inr]) (simp add: ebind_def elift_def)
    qed
  qed
qed

lemma computeOrdered_result:
  assumes "computeOrderedBEEFsForGraph s graph st = (r, st')"
  shows "case r of
      Inr beefs \<Rightarrow> \<exists>ids node_of. ordered_submission s graph ids node_of beefs
    | Inl e \<Rightarrow> (e = ErrUnableToFindRootNodeInGraph \<and> gc_nodes graph = []) \<or>
        (\<exists>n \<in> snd ` set (gc_nodes graph). map_error EngineError (node_tx s n) = Inl e \<or> getBEEFForNode s graph n = Inl e) \<or>
        (e = ErrGraphDependencyCycle \<and> (\<exists>C. dependency_cycle s graph C))"
  using assms
proof (cases rule: computeOrdered_stages)
  case (1 order)
  have "gn_Txid ` snd ` set order = {}" using nodes_by_txid_facts(3)[of order] 1(2) by simp
  then have "order = []" by simp
  then have "gc_nodes graph = []" using 1(1) by simp
  with 1(3) show ?thesis by simp
next
  case (2 order order' e)
  have set: "set order = set (gc_nodes graph)" using 2(1) by (rule mset_eq_setD)
  obtain h n where "(h, n) \<in> set order'" "sdk_call (node_tx s n) = Inl e"
    using rmap_Inl[OF 2(3)[unfolded collect_deps_def]] by (auto simp: rbind_Inl_iff node_tx_def)
  moreover from this(1) have "map_of (nodes_by_txid order) h = Some n"
    using mset_eq_setD[OF 2(2)] nodes_by_txid_facts(1) by simp
  ultimately show ?thesis using 2(4) nodes_by_txid_facts(2)[of order h n] unfolding set by (auto simp: sdk_call_def)
next
  case (3 order order' deps st2)
  have set: "set order = set (gc_nodes graph)" using 3(1) by (rule mset_eq_setD)
  let ?nodes = "nodes_by_txid order"
  note nodes = nodes_by_txid_facts[of order, unfolded set]
  note deps = collect_deps_facts[OF 3(3,2) nodes(1)]
  have dom: "dom (map_of ?nodes) = graph_txids graph" using nodes(3) by (simp add: graph_txids_def)
  have beef: "beef_for s graph ?nodes h = getBEEFForNode s graph (the (map_of ?nodes h))" if "h \<in> graph_txids graph" for h
    using that unfolding dom[symmetric] by (auto simp: beef_for_def)
  have closed: "\<forall>(h, ds) \<in> set deps. set ds \<subseteq> fst ` set deps" using deps(2,4) by (auto simp: set_graph_deps)
  have "emission_ok (beef_for s graph ?nodes) deps ([], [])" by (simp add: emission_ok_def)
  note result = emit_loop_result[OF 3(4) this deps(1) deps(3)[symmetric] _ closed]
  show ?thesis
  proof (cases r)
    case (Inr beefs)
    with result obtain ids where ids: "emission_ok (beef_for s graph ?nodes) deps (beefs, ids)" "set ids = graph_txids graph"
      unfolding deps(2) dom by auto
    have "ordered_submission s graph ids (\<lambda>h. the (map_of ?nodes h)) beefs"
      unfolding ordered_submission_def
    proof (intro conjI ballI allI impI)
      show "distinct ids" "set ids = graph_txids graph" using ids by (simp_all add: emission_ok_def)
      show "list_all2 (\<lambda>h b. getBEEFForNode s graph (the (map_of ?nodes h)) = Inr b) ids beefs"
      proof -
        have "list_all2 (\<lambda>h b. beef_for s graph ?nodes h = Inr b) ids beefs" using ids(1) by (simp add: emission_ok_def)
        then show ?thesis by (rule list.rel_mono_strong) (use beef ids(2) in auto)
      qed
      show "the (map_of ?nodes h) \<in> snd ` set (gc_nodes graph)" "gn_Txid (the (map_of ?nodes h)) = h" if "h \<in> set ids" for h
        using that nodes(2)[of h] unfolding ids(2) dom[symmetric] by auto
      show "\<exists>tx. node_tx s (the (map_of ?nodes h)) = Inr tx \<and> sources tx \<inter> graph_txids graph - {h} \<subseteq> set before"
        if split: "ids = before @ h # after" for before h after
      proof -
        have "h \<in> fst ` set deps" using split ids(2) deps(2) dom by auto
        then obtain ds where "(h, ds) \<in> set deps" by auto
        moreover from this have "set ds \<subseteq> set before" using ids(1) split by (auto simp: emission_ok_def)
        ultimately show ?thesis using deps(4)[of h ds] dom by (auto simp: set_graph_deps)
      qed
    qed
    with Inr show ?thesis by auto
  next
    case (Inl e)
    with result consider C where "e = ErrGraphDependencyCycle" "cyclic deps C"
      | h where "h \<in> graph_txids graph" "beef_for s graph ?nodes h = Inl e" unfolding deps(2) dom by auto
    then show ?thesis
    proof cases
      case 1
      have "dependency_cycle s graph C"
        unfolding dependency_cycle_def
      proof (intro conjI ballI)
        show "C \<noteq> {}" "C \<subseteq> graph_txids graph" using 1(2) deps(2) dom by (auto simp: cyclic_def)
        fix h
        assume h: "h \<in> C"
        then obtain ds where ds: "(h, ds) \<in> set deps" "set ds \<inter> C \<noteq> {}" using 1(2) by (force simp: cyclic_def)
        then obtain n tx where n: "map_of ?nodes h = Some n" "node_tx s n = Inr tx" "ds = graph_deps ?nodes h tx" using deps(4) by blast
        then have "sources tx \<inter> (C - {h}) \<noteq> {}" using ds(2) by (auto simp: set_graph_deps)
        with n nodes(2)[OF n(1)] show "\<exists>n \<in> snd ` set (gc_nodes graph). \<exists>tx. gn_Txid n = h \<and> node_tx s n = Inr tx \<and> sources tx \<inter> (C - {h}) \<noteq> {}"
          by blast
      qed
      with Inl 1(1) show ?thesis by auto
    next
      case 2
      then have "the (map_of ?nodes h) \<in> snd ` set (gc_nodes graph)" using nodes(2)[of h] unfolding dom[symmetric] by auto
      moreover have "getBEEFForNode s graph (the (map_of ?nodes h)) = Inl e" using 2 beef by simp
      ultimately show ?thesis unfolding Inl by (simp only: sum.case) blast
    qed
  qed
qed

text \<open>C32: the BEEFs of a graph come in dependency order: one for each transaction of the graph, each built from a node of
  that transaction, and every transaction after all of its inputs that are in the graph. Otherwise the error
  says why: the graph is empty, a node does not parse or cannot be assembled, or, for the cycle error, there are
  transactions of the graph each of which spends another one of them.\<close>

theorem computeOrderedBEEFsForGraph_order:
  assumes "computeOrderedBEEFsForGraph s graph st = (r, st')"
  shows "case r of
      Inr beefs \<Rightarrow> \<exists>ids node_of. ordered_submission s graph ids node_of beefs
    | Inl e \<Rightarrow> (e = ErrUnableToFindRootNodeInGraph \<and> gc_nodes graph = []) \<or>
        (\<exists>n \<in> snd ` set (gc_nodes graph). map_error EngineError (node_tx s n) = Inl e \<or> getBEEFForNode s graph n = Inl e) \<or>
        (e = ErrGraphDependencyCycle \<and> (\<exists>C. dependency_cycle s graph C))"
  using assms by (rule computeOrdered_result)

text \<open>Two transactions, the second of which spends the first; the graph lists the second one first.\<close>

definition pair_tx :: "byte list \<Rightarrow> engine_error + Tx" where
  "pair_tx raw =
     (if raw = [1] then Inr (Tx 1 [] [None] 0 None)
      else if raw = [2] then Inr (Tx 2 [TxInput (replicate 32 1) 0 None 0 None] [None] 0 None)
      else Inl ErrInvalidTransaction)"

definition pair_storage :: "(unit, Tx) OverlayGASPStorage" where
  "pair_storage = demo_graph_storage\<lparr>
     s_parse := demo_graph_sdk\<lparr>NewTransactionFromBytes := pair_tx\<rparr>,
     s_Engine := demo_engine\<lparr>sdk_of := demo_sdk\<lparr>TxID := \<lambda>tx. replicate 32 (ucast (tx_Version tx)), AtomicBytes := \<lambda>_ h. Inr (take 1 h)\<rparr>\<rparr>\<rparr>"

definition pair_node :: "byte \<Rightarrow> Outpoint \<times> GraphNode" where
  "pair_node i = (\<lparr>op_Txid = replicate 32 i, op_Index = 0\<rparr>, new_node ((demo_node 0)\<lparr>n_RawTx := [i], n_Proof := []\<rparr>) (replicate 32 i))"

definition pair_graph :: graphContext where
  "pair_graph = \<lparr>gc_nodes = [pair_node 2, pair_node 1], gc_count = 2\<rparr>"

theorem computeOrderedBEEFsForGraph_order_witness:
  "fst (computeOrderedBEEFsForGraph pair_storage pair_graph (([], ()), [])) = Inr [[1], [2]] \<and>
   (\<exists>ids node_of. ordered_submission pair_storage pair_graph ids node_of [[1], [2]])"
proof
  show run: "fst (computeOrderedBEEFsForGraph pair_storage pair_graph (([], ()), [])) = Inr [[1], [2]]" by code_simp
  then obtain st where "computeOrderedBEEFsForGraph pair_storage pair_graph (([], ()), []) = (Inr [[1], [2]], st)"
    by (metis prod.collapse)
  from computeOrderedBEEFsForGraph_order[OF this] show "\<exists>ids node_of. ordered_submission pair_storage pair_graph ids node_of [[1], [2]]"
    by simp
qed

section \<open>Termination\<close>

definition ranked :: "('w, 'b) OverlayGASPStorage \<Rightarrow> graphContext \<Rightarrow> (hash \<Rightarrow> nat) \<Rightarrow> bool" where
  "ranked s graph rank \<longleftrightarrow> (\<forall>n \<in> snd ` set (gc_nodes graph). \<forall>tx. node_tx s n = Inr tx \<longrightarrow>
     (\<forall>h \<in> sources tx. rank h < rank (gn_Txid n)))"

text \<open>The SDK functions do not answer with the error that stands for an exhausted bound.\<close>

definition parse_fuelless :: "('w, 'b) OverlayGASPStorage \<Rightarrow> bool" where
  "parse_fuelless s \<longleftrightarrow> (\<forall>bs. NewTransactionFromBytes (s_parse s) bs \<noteq> Inl NoFuel) \<and>
     (\<forall>bs. NewMerklePathFromBinary (sdk_of (s_Engine s)) bs \<noteq> Inl NoFuel) \<and>
     (\<forall>tx. NewBeefFromTransaction (s_parse s) tx \<noteq> Inl NoFuel) \<and>
     (\<forall>b h. AtomicBytes (sdk_of (s_Engine s)) b h \<noteq> Inl NoFuel)"

definition sdk_errors :: "graph_error \<Rightarrow> bool" where
  "sdk_errors e \<longleftrightarrow> e \<noteq> EngineError NoFuel \<and> e \<noteq> ErrGraphDependencyCycle"

lemma sdk_call_errors: "r \<noteq> Inl NoFuel \<Longrightarrow> sdk_call r = Inl e \<Longrightarrow> sdk_errors e"
  by (cases r) (auto simp: sdk_call_def sdk_errors_def)

lemma hydrator_errors:
  assumes "graph_ok s graph" "ranked s graph rank" "parse_fuelless s"
  shows "n \<in> snd ` set (gc_nodes graph) \<Longrightarrow> rank (gn_Txid n) < fuel \<Longrightarrow> hydrator fuel s graph n = Inl e \<Longrightarrow> sdk_errors e"
proof (induction fuel arbitrary: n e)
  case 0
  then show ?case by simp
next
  case (Suc fuel)
  have parse: "NewTransactionFromBytes (s_parse s) bs \<noteq> Inl NoFuel" "NewMerklePathFromBinary (sdk_of (s_Engine s)) bs \<noteq> Inl NoFuel" for bs
    using assms(3) by (auto simp: parse_fuelless_def)
  show ?case
  proof (cases "node_tx s n")
    case (Inl err)
    then have "err \<noteq> NoFuel" "e = EngineError err" using parse(1) Suc.prems(3) by (auto simp: node_tx_def sdk_call_def)
    then show ?thesis by (simp add: sdk_errors_def)
  next
    case (Inr tx)
    have below: "sdk_errors e'"
      if "inp \<in> set (tx_Inputs tx)" and err: "(case map_of (gc_nodes graph) (input_outpoint inp) of
               None \<Rightarrow> Inl ErrRequiredInputNodeNotFoundInTempGraph
             | Some found \<Rightarrow> rbind (hydrator fuel s graph found) (\<lambda>source. Inr (set_source inp source))) = Inl e'" for inp e'
    proof (cases "map_of (gc_nodes graph) (input_outpoint inp)")
      case None
      with err show ?thesis by (auto simp: sdk_errors_def)
    next
      case (Some found)
      then have found: "(input_outpoint inp, found) \<in> set (gc_nodes graph)" by (rule map_of_SomeD)
      then have "gn_Txid found = in_SourceTXID inp" using assms(1) by (auto simp: graph_ok_def node_ok_def input_outpoint_def)
      moreover have "rank (in_SourceTXID inp) < rank (gn_Txid n)"
        using assms(2) Suc.prems(1) Inr that(1) unfolding ranked_def sources_def by blast
      ultimately have "rank (gn_Txid found) < fuel" using Suc.prems(2) by simp
      with Suc.IH[of found e'] found err Some show ?thesis by (force simp: rbind_Inl_iff)
    qed
    show ?thesis
      using Suc.prems(3) Inr sdk_call_errors[OF parse(2)]
      by (auto simp: node_tx_def sdk_call_def rbind_Inl_iff split: if_splits dest!: rmap_Inl intro: below)
  qed
qed

lemma getBEEFForNode_errors:
  assumes "graph_ok s graph" "ranked s graph rank" "parse_fuelless s"
    and "n \<in> snd ` set (gc_nodes graph)" "rank (gn_Txid n) < s_hydrate s" "getBEEFForNode s graph n = Inl e"
  shows "sdk_errors e"
proof -
  have "NewBeefFromTransaction (s_parse s) tx \<noteq> Inl NoFuel" "AtomicBytes (sdk_of (s_Engine s)) b h \<noteq> Inl NoFuel" for tx b h
    using assms(3) by (simp_all add: parse_fuelless_def)
  then show ?thesis
    using assms(6) hydrator_errors[OF assms(1-5)] unfolding getBEEFForNode_def rbind_Inl_iff by (metis sdk_call_errors)
qed

lemma ranked_acyclic:
  assumes "ranked s graph rank" "dependency_cycle s graph C"
  shows False
proof -
  have "C \<noteq> {}" using assms(2) by (simp add: dependency_cycle_def)
  then obtain h where h: "h \<in> C" "\<forall>g \<in> C. rank h \<le> rank g" using ex_has_least_nat[of "\<lambda>x. x \<in> C" _ rank] by blast
  from assms(2) h(1) obtain n tx g where n: "n \<in> snd ` set (gc_nodes graph)" "gn_Txid n = h" "node_tx s n = Inr tx" "g \<in> sources tx" "g \<in> C"
    unfolding dependency_cycle_def by blast
  have "rank g < rank h" using assms(1) n(1-4) unfolding ranked_def by blast
  with h(2) n(5) show False by (simp add: leD)
qed

text \<open>C33: ordering a graph always comes to an end with an answer that does not depend on the bounds of the model: when the
  transactions of the graph can be ranked so that inputs have smaller ranks, as they can for real transaction
  ids, and the recursion over inputs may go as deep as the ranks, neither the bound of a loop is reached nor is
  a dependency cycle reported.\<close>

theorem computeOrderedBEEFsForGraph_terminates:
  assumes "graph_ok s graph" "ranked s graph rank" "parse_fuelless s"
    and "\<forall>n \<in> snd ` set (gc_nodes graph). rank (gn_Txid n) < s_hydrate s"
  shows "fst (computeOrderedBEEFsForGraph s graph st) \<noteq> Inl (EngineError NoFuel) \<and>
    fst (computeOrderedBEEFsForGraph s graph st) \<noteq> Inl ErrGraphDependencyCycle"
proof -
  obtain r st' where run: "computeOrderedBEEFsForGraph s graph st = (r, st')" by (rule prod.exhaust)
  have "sdk_errors e" if r: "r = Inl e" for e
  proof -
    from computeOrdered_result[OF run] r consider "e = ErrUnableToFindRootNodeInGraph"
      | n where "n \<in> snd ` set (gc_nodes graph)" "map_error EngineError (node_tx s n) = Inl e"
      | n where "n \<in> snd ` set (gc_nodes graph)" "getBEEFForNode s graph n = Inl e"
      | C where "dependency_cycle s graph C" by auto
    then show ?thesis
    proof cases
      case 1
      then show ?thesis by (simp add: sdk_errors_def)
    next
      case 2
      moreover have "node_tx s n \<noteq> Inl NoFuel" using assms(3) by (simp add: node_tx_def parse_fuelless_def)
      ultimately show ?thesis using sdk_call_errors by (simp add: sdk_call_def)
    next
      case 3
      with assms(4) show ?thesis by (intro getBEEFForNode_errors[OF assms(1-3)]) auto
    next
      case 4
      with assms(2) show ?thesis by (blast dest: ranked_acyclic)
    qed
  qed
  with run show ?thesis by (cases r) (auto simp: sdk_errors_def)
qed

theorem computeOrderedBEEFsForGraph_terminates_witness:
  "fst (computeOrderedBEEFsForGraph (pair_storage\<lparr>s_MaxNodesInGraph := None\<rparr>) pair_graph (([], ()), [])) \<noteq> Inl (EngineError NoFuel)"
proof -
  let ?s = "pair_storage\<lparr>s_MaxNodesInGraph := None\<rparr>"
  let ?rank = "\<lambda>h :: hash. unat (hd h)"
  have ok: "graph_ok ?s pair_graph"
    by (simp add: graph_ok_def links_ok_def node_ok_def pair_graph_def pair_node_def new_node_def pair_storage_def pair_tx_def
        demo_node_def demo_graph_storage_def demo_graph_sdk_def demo_defs)
  have rank: "ranked ?s pair_graph ?rank"
    by (simp add: ranked_def node_tx_def sources_def pair_graph_def pair_node_def new_node_def pair_storage_def pair_tx_def
        demo_node_def demo_graph_storage_def demo_graph_sdk_def)
  have fuel: "parse_fuelless ?s"
    by (auto simp: parse_fuelless_def pair_storage_def pair_tx_def demo_graph_storage_def demo_graph_sdk_def demo_defs split: if_splits)
  have small: "\<forall>n \<in> snd ` set (gc_nodes pair_graph). ?rank (gn_Txid n) < s_hydrate ?s"
    by (simp add: pair_graph_def pair_node_def new_node_def pair_storage_def demo_graph_storage_def)
  from conjunct1[OF computeOrderedBEEFsForGraph_terminates[OF ok rank fuel small]] show ?thesis .
qed

section \<open>Effects of a submission in historical mode\<close>

definition quiet :: "effect \<Rightarrow> bool" where
  "quiet f \<longleftrightarrow> \<not> network_effect f"

lemma emits_lift_engine [emits_intros]: "emits P m \<Longrightarrow> emits P (lift_engine m)"
  unfolding emits_def lift_engine_def by (auto split: prod.splits) (metis snd_conv)

lemma emits_get_graphs [emits_intros]: "emits P get_graphs"
  by (simp add: emits_def get_graphs_def)

lemma commit_quiet: "commit_effect f \<Longrightarrow> quiet f"
  by (cases f) (auto simp: quiet_def)

lemma spend_quiet: "spend_effect f \<Longrightarrow> quiet f"
  by (cases f) (auto simp: quiet_def)

lemma quiet_publishBytes [emits_intros]: "emits quiet (publishBytes host bs kind)"
  unfolding publishBytes_def Let_def by (intro emits_intros) (simp add: quiet_def)

lemma quiet_publish_script [emits_intros]: "emits quiet (publish_script host tx vout acc)"
  unfolding publish_script_def by (cases acc) (simp, intro emits_intros)

lemma quiet_publishAdmissionPayloads [emits_intros]: "emits quiet (publishAdmissionPayloads e host p tx steak)"
  unfolding publishAdmissionPayloads_def publish_scripts_def by (intro emits_intros)

lemma quiet_buildTopicDecision [emits_intros]: "emits quiet (buildTopicDecision e host p tx topic admit ins idx)"
  unfolding buildTopicDecision_def admissionSpends_def Let_def by (intro emits_intros) (simp_all add: quiet_def)

lemma quiet_buildAdmissionPlan [emits_intros]: "emits quiet (buildAdmissionPlan json e host p tx steak tis)"
  unfolding buildAdmissionPlan_def Let_def by (intro emits_intros)

lemma quiet_broadcastIfNeeded: "emits P (broadcastIfNeeded e tx SubmitModeHistorical)"
  unfolding broadcastIfNeeded_def by (auto intro: emits_intros)

lemma quiet_notify_submitted: "p_Mode p = SubmitModeHistorical \<Longrightarrow> emits quiet (notify_submitted e p steak)"
  unfolding notify_submitted_def by (auto intro!: emits_intros simp: quiet_def)

lemma quiet_submitWithAdmission:
  assumes "p_Mode p = SubmitModeHistorical"
  shows "emits quiet (submitWithAdmission json e p tx steak tis)"
  unfolding submitWithAdmission_def assms
  by (auto intro!: emits_intros quiet_broadcastIfNeeded quiet_notify_submitted[OF assms] simp: quiet_def
      split: option.split AdmissionCommitState.split)

lemma quiet_submitLegacy:
  assumes "p_Mode p = SubmitModeHistorical"
  shows "emits quiet (submitLegacy fuel e p tx st)"
proof -
  have "emits quiet (after_broadcast fuel e p tx st)"
    by (rule emits_mono[OF emits_after_broadcast]) (simp add: late_effect_def quiet_def assms)
  then show ?thesis
    unfolding submitLegacy_split assms
    by (intro emits_ebind[OF emits_mono[OF emits_markSpentAndNotify spend_quiet]] emits_ebind[OF quiet_broadcastIfNeeded])
qed

lemma quiet_submitParsedBeefInternal:
  assumes "p_Mode p = SubmitModeHistorical"
  shows "emits quiet (submitParsedBeefInternal json fuel e p)"
proof -
  have "emits quiet (identifyAdmissibleOutputsPerTopic e p ms ips)" for ms ips
    by (rule emits_mono[OF emits_identify]) simp
  then show ?thesis
    unfolding submitParsedBeefInternal_def
    by (intro emits_intros emits_verifyTransaction quiet_submitLegacy quiet_submitWithAdmission) (simp_all add: assms)
qed

lemma quiet_Submit: "emits quiet (Submit json fuel e beef topics values SubmitModeHistorical ready)"
  unfolding Submit_def
  by (auto intro!: emits_intros quiet_submitParsedBeefInternal split: option.split)

lemma quiet_FinalizeGraph: "emits quiet (FinalizeGraph s gid)"
proof -
  have "emits quiet (emit_loop fuel s bo n deps em)" for fuel bo n deps em
    by (induction fuel arbitrary: em) (auto intro!: emits_intros)
  then have "emits quiet (computeOrderedBEEFsForGraph s graph)" for graph
    unfolding computeOrderedBEEFsForGraph_def Let_def by (intro emits_intros)
  moreover have "emits quiet (submitBeef s beef)" for beef
    unfolding submitBeef_def by (auto intro!: emits_intros quiet_Submit split: option.split)
  ultimately show ?thesis unfolding FinalizeGraph_def by (intro emits_intros)
qed

lemma silent_ValidateGraphAnchor: "emits (\<lambda>_. False) (ValidateGraphAnchor s gid)"
proof -
  have "emits (\<lambda>_. False) (emit_loop fuel s bo n deps em)" for fuel bo n deps em
    by (induction fuel arbitrary: em) (auto intro!: emits_intros)
  then have "emits (\<lambda>_. False) (computeOrderedBEEFsForGraph s graph)" for graph
    unfolding computeOrderedBEEFsForGraph_def Let_def by (intro emits_intros)
  moreover have "emits (\<lambda>_. False) (IdentifyAdmissibleOutputs s b h c)" for b h c
    unfolding IdentifyAdmissibleOutputs_def by (intro emits_intros)
  moreover from this have "emits (\<lambda>_. False) (validate_beef s beef v)" for beef v
    unfolding validate_beef_def Let_def by (auto intro!: emits_intros split: option.split)
  ultimately show ?thesis
    unfolding ValidateGraphAnchor_def verify_root_def by (intro emits_intros)
qed

section \<open>Concurrent finalisation\<close>

text \<open>
  Several graphs are finalised at once. Each \<^verbatim>\<open>FinalizeGraph\<close> submits its transactions one after the
  other and stops at the first error; the submissions share their results through the tracker, whose
  states are the \<^verbatim>\<open>submissionState\<close> objects. \<^verbatim>\<open>Engine.Submit\<close> is the step \<open>Settle\<close> of the owner.
\<close>

type_synonym 'e submissionState = "'e sharedState"

record 'e fjob =
  jb_rest :: "hash list"
  jb_call :: "nat option"
  jb_result :: "'e option option"

record 'e finalizer =
  fz_calls :: "(hash, 'e) flight"
  fz_jobs :: "'e fjob list"

definition no_finalizer :: "'e finalizer" where
  "no_finalizer = \<lparr>fz_calls = no_flight, fz_jobs = []\<rparr>"

datatype 'e finalizer_label =
  BeginFinalize "hash list"
| StartSubmit nat
| SubmitWork "(hash, 'e) flight_label"
| FinishSubmit nat
| EndFinalize nat

fun finalizer_step :: "'e finalizer_label \<Rightarrow> 'e finalizer \<Rightarrow> 'e finalizer option" where
  "finalizer_step (BeginFinalize hs) s = Some (s\<lparr>fz_jobs := fz_jobs s @ [\<lparr>jb_rest = hs, jb_call = None, jb_result = None\<rparr>]\<rparr>)"
| "finalizer_step (StartSubmit j) s =
     (if j < length (fz_jobs s) \<and> jb_result (fz_jobs s ! j) = None \<and> jb_call (fz_jobs s ! j) = None then
        (case jb_rest (fz_jobs s ! j) of
           [] \<Rightarrow> None
         | txid # _ \<Rightarrow>
             (case flight_step (Call txid) (fz_calls s) of
                None \<Rightarrow> None
              | Some f \<Rightarrow> Some (s\<lparr>fz_calls := f, fz_jobs := (fz_jobs s)[j := (fz_jobs s ! j)\<lparr>jb_call := Some (length (fl_calls (fz_calls s)))\<rparr>]\<rparr>)))
      else None)"
| "finalizer_step (SubmitWork a) s =
     (if internal a then (case flight_step a (fz_calls s) of None \<Rightarrow> None | Some f \<Rightarrow> Some (s\<lparr>fz_calls := f\<rparr>)) else None)"
| "finalizer_step (FinishSubmit j) s =
     (if j < length (fz_jobs s) then
        (case jb_call (fz_jobs s ! j) of
           None \<Rightarrow> None
         | Some i \<Rightarrow>
             (case outcome (stage_of (fz_calls s) i) of
                None \<Rightarrow> None
              | Some None \<Rightarrow> Some (s\<lparr>fz_jobs := (fz_jobs s)[j := (fz_jobs s ! j)\<lparr>jb_call := None, jb_rest := tl (jb_rest (fz_jobs s ! j))\<rparr>]\<rparr>)
              | Some (Some e) \<Rightarrow> Some (s\<lparr>fz_jobs := (fz_jobs s)[j := (fz_jobs s ! j)\<lparr>jb_call := None, jb_result := Some (Some e)\<rparr>]\<rparr>)))
      else None)"
| "finalizer_step (EndFinalize j) s =
     (if j < length (fz_jobs s) \<and> jb_result (fz_jobs s ! j) = None \<and> jb_call (fz_jobs s ! j) = None \<and> jb_rest (fz_jobs s ! j) = [] then
        Some (s\<lparr>fz_jobs := (fz_jobs s)[j := (fz_jobs s ! j)\<lparr>jb_result := Some None\<rparr>]\<rparr>)
      else None)"

lemma finalizer_step_flight:
  assumes "finalizer_step a s = Some t"
  shows "fz_calls t = fz_calls s \<or> (\<exists>x. flight_step x (fz_calls s) = Some (fz_calls t))"
proof (cases a)
  case (StartSubmit j)
  with assms obtain txid where "flight_step (Call txid) (fz_calls s) = Some (fz_calls t)" by (auto split: if_splits list.splits)
  then show ?thesis by blast
qed (use assms in \<open>auto split: if_splits option.splits\<close>)

interpretation gasp_finalizer: flight_client no_finalizer finalizer_step fz_calls
  by unfold_locales (auto simp: no_finalizer_def dest: finalizer_step_flight)

end
