(* ===== verification/Gasp_Pool.thy ===== *)
theory Gasp_Pool
  imports Single_Flight Gasp_Wire
begin

text \<open>
  The goroutines of a GASP instance (\<^verbatim>\<open>pkg/core/gasp/gasp.go\<close>): the loop of \<^verbatim>\<open>Sync\<close> that starts one
  traversal per outpoint to ingest, the worker that serves the queue of \<^verbatim>\<open>ProcessUTXO\<close>, the limiter
  channel that bounds both, and the calls of \<^verbatim>\<open>ProcessUTXOToCompletion\<close> that share their results. Every
  channel and map operation is one step. The traversal of a graph is one step of its owner
  (\<open>Settle\<close>) whose result the environment chooses.
\<close>

section \<open>State\<close>

type_synonym 'e utxoProcessingState = "'e sharedState"

datatype worker = Receiving | Holding Outpoint | Exited

text \<open>
  A launched goroutine: whether \<^verbatim>\<open>Sync\<close> launched it, whether it still holds its slot of the limiter, and
  whether the error group has its result. Goroutine number \<open>i\<close> makes call number \<open>i\<close>.
\<close>

datatype task_phase = Holds | Released | Reported

record ptask =
  pt_sync :: bool
  pt_phase :: task_phase

record 'e pool =
  pl_calls :: "(Outpoint, 'e) flight"
  pl_tasks :: "ptask list"
  pl_capacity :: nat
  pl_limiter :: nat
  pl_ingest :: "Outpoint list"
  pl_queue :: "Outpoint list"
  pl_closed :: bool
  pl_worker :: worker
  pl_group :: "'e option"
  pl_shared :: "Outpoint list"

definition queueCapacity :: nat where
  "queueCapacity = 1000"

definition limiterCapacity :: "int \<Rightarrow> nat" where
  "limiterCapacity concurrency = (if 1 < concurrency then nat concurrency else 1)"

definition start_pool :: "int \<Rightarrow> Outpoint list \<Rightarrow> 'e pool" where
  "start_pool concurrency ingestQueue =
     \<lparr>pl_calls = no_flight, pl_tasks = [], pl_capacity = limiterCapacity concurrency, pl_limiter = 0, pl_ingest = ingestQueue,
      pl_queue = [], pl_closed = False, pl_worker = Receiving, pl_group = None, pl_shared = []\<rparr>"

section \<open>Operations\<close>

datatype queue_error = ErrUTXOQueueFull | SendOnClosedChannel

text \<open>A send in a select with a default: it panics when the channel is closed and never blocks.\<close>

definition ProcessUTXO :: "'e pool \<Rightarrow> Outpoint \<Rightarrow> queue_error + 'e pool" where
  "ProcessUTXO s outpoint =
     (if pl_closed s then Inl SendOnClosedChannel
      else if length (pl_queue s) < queueCapacity then Inr (s\<lparr>pl_queue := pl_queue s @ [outpoint]\<rparr>)
      else Inl ErrUTXOQueueFull)"

definition launch :: "bool \<Rightarrow> Outpoint \<Rightarrow> 'e pool \<Rightarrow> 'e pool option" where
  "launch sync outpoint s =
     (if pl_limiter s < pl_capacity s then
        (case flight_step (Call outpoint) (pl_calls s) of
           None \<Rightarrow> None
         | Some f \<Rightarrow> Some (s\<lparr>pl_limiter := pl_limiter s + 1, pl_calls := f,
             pl_tasks := pl_tasks s @ [\<lparr>pt_sync = sync, pt_phase = Holds\<rparr>]\<rparr>))
      else None)"

datatype 'e pool_label =
  Enqueue Outpoint
| CloseQueue
| Receive
| Quit
| LaunchWorker
| LaunchSync
| Work "(Outpoint, 'e) flight_label"
| Release nat
| Report nat

text \<open>
  \<^verbatim>\<open>Release\<close> is the deferred receive from the limiter, after a goroutine of \<^verbatim>\<open>Sync\<close> whose call succeeded
  has stored its outpoint as shared; \<^verbatim>\<open>Report\<close> is what the error group does with the result: it keeps
  the first error.
\<close>

fun pool_step :: "'e pool_label \<Rightarrow> 'e pool \<Rightarrow> 'e pool option" where
  "pool_step (Enqueue outpoint) s = (case ProcessUTXO s outpoint of Inl _ \<Rightarrow> None | Inr t \<Rightarrow> Some t)"
| "pool_step CloseQueue s = (if pl_closed s then None else Some (s\<lparr>pl_closed := True\<rparr>))"
| "pool_step Receive s =
     (case (pl_worker s, pl_queue s) of
        (Receiving, outpoint # rest) \<Rightarrow> Some (s\<lparr>pl_worker := Holding outpoint, pl_queue := rest\<rparr>)
      | _ \<Rightarrow> None)"
| "pool_step Quit s =
     (if pl_worker s = Receiving \<and> pl_queue s = [] \<and> pl_closed s then Some (s\<lparr>pl_worker := Exited\<rparr>) else None)"
| "pool_step LaunchWorker s =
     (case pl_worker s of
        Holding outpoint \<Rightarrow> launch False outpoint (s\<lparr>pl_worker := Receiving\<rparr>)
      | _ \<Rightarrow> None)"
| "pool_step LaunchSync s =
     (case pl_ingest s of
        outpoint # rest \<Rightarrow> launch True outpoint (s\<lparr>pl_ingest := rest\<rparr>)
      | [] \<Rightarrow> None)"
| "pool_step (Work a) s =
     (if internal a then
        (case flight_step a (pl_calls s) of None \<Rightarrow> None | Some f \<Rightarrow> Some (s\<lparr>pl_calls := f\<rparr>))
      else None)"
| "pool_step (Release i) s =
     (if i < length (pl_tasks s) \<and> pt_phase (pl_tasks s ! i) = Holds then
        (case outcome (stage_of (pl_calls s) i) of
           None \<Rightarrow> None
         | Some r \<Rightarrow> Some (s\<lparr>pl_limiter := pl_limiter s - 1,
             pl_tasks := (pl_tasks s)[i := (pl_tasks s ! i)\<lparr>pt_phase := Released\<rparr>],
             pl_shared := (if pt_sync (pl_tasks s ! i) \<and> r = None then key_of (pl_calls s) i # pl_shared s else pl_shared s)\<rparr>))
      else None)"
| "pool_step (Report i) s =
     (if i < length (pl_tasks s) \<and> pt_phase (pl_tasks s ! i) = Released \<and> pt_sync (pl_tasks s ! i) then
        (case outcome (stage_of (pl_calls s) i) of
           None \<Rightarrow> None
         | Some r \<Rightarrow> Some (s\<lparr>pl_tasks := (pl_tasks s)[i := (pl_tasks s ! i)\<lparr>pt_phase := Reported\<rparr>],
             pl_group := (if pl_group s = None then r else pl_group s)\<rparr>))
      else None)"

text \<open>The wait of \<^verbatim>\<open>Sync\<close> for its group, and the result it returns.\<close>

definition group_wait :: "'e pool \<Rightarrow> 'e option option" where
  "group_wait s =
     (if pl_ingest s = [] \<and> list_all (\<lambda>t. pt_sync t \<longrightarrow> pt_phase t = Reported) (pl_tasks s) then Some (pl_group s) else None)"

fun pool_internal :: "'e pool_label \<Rightarrow> bool" where
  "pool_internal (Enqueue _) = False"
| "pool_internal CloseQueue = False"
| "pool_internal _ = True"

lemma launch_Some:
  "launch sync op s = Some t \<longleftrightarrow> pl_limiter s < pl_capacity s \<and>
     t = s\<lparr>pl_limiter := pl_limiter s + 1,
       pl_calls := (pl_calls s)\<lparr>fl_calls := fl_calls (pl_calls s) @ [\<lparr>fc_key = op, fc_stage = Calling\<rparr>]\<rparr>,
       pl_tasks := pl_tasks s @ [\<lparr>pt_sync = sync, pt_phase = Holds\<rparr>]\<rparr>"
  by (auto simp: launch_def)

section \<open>The invariant\<close>

definition sync_keys :: "'e pool \<Rightarrow> Outpoint list" where
  "sync_keys s = map fst (filter snd (zip (map fc_key (fl_calls (pl_calls s))) (map pt_sync (pl_tasks s))))"

definition reported :: "'e pool \<Rightarrow> nat \<Rightarrow> bool" where
  "reported s i \<longleftrightarrow> i < length (pl_tasks s) \<and> pt_sync (pl_tasks s ! i) \<and> pt_phase (pl_tasks s ! i) = Reported"

definition group_inv :: "'e pool \<Rightarrow> bool" where
  "group_inv s \<longleftrightarrow>
     (case pl_group s of
        None \<Rightarrow> \<forall>i. reported s i \<longrightarrow> outcome (stage_of (pl_calls s) i) = Some None
      | Some e \<Rightarrow> \<exists>i. reported s i \<and> outcome (stage_of (pl_calls s) i) = Some (Some e))"

definition pool_core :: "nat \<Rightarrow> 'e pool \<Rightarrow> bool" where
  "pool_core c s \<longleftrightarrow>
     length (pl_tasks s) = length (fl_calls (pl_calls s)) \<and>
     pl_limiter s = length (filter (\<lambda>t. pt_phase t = Holds) (pl_tasks s)) \<and>
     pl_capacity s = c \<and> pl_limiter s \<le> c \<and>
     (\<forall>i < length (pl_tasks s). pt_phase (pl_tasks s ! i) \<noteq> Holds \<longrightarrow> outcome (stage_of (pl_calls s) i) \<noteq> None) \<and>
     group_inv s"

definition pool_inv :: "nat \<Rightarrow> Outpoint list \<Rightarrow> 'e pool \<Rightarrow> bool" where
  "pool_inv c q0 s \<longleftrightarrow> pool_core c s \<and> length (pl_queue s) \<le> queueCapacity \<and> sync_keys s @ pl_ingest s = q0"

lemma pool_core_frame [simp]:
  "pool_core c (s\<lparr>pl_ingest := x\<rparr>) = pool_core c s" "pool_core c (s\<lparr>pl_worker := y\<rparr>) = pool_core c s"
  "pool_core c (s\<lparr>pl_queue := x\<rparr>) = pool_core c s" "pool_core c (s\<lparr>pl_closed := z\<rparr>) = pool_core c s"
  by (simp_all add: pool_core_def group_inv_def reported_def cong: option.case_cong)

lemma sync_keys_frame [simp]:
  "sync_keys (s\<lparr>pl_ingest := x\<rparr>) = sync_keys s" "sync_keys (s\<lparr>pl_worker := y\<rparr>) = sync_keys s"
  "sync_keys (s\<lparr>pl_queue := x\<rparr>) = sync_keys s" "sync_keys (s\<lparr>pl_closed := z\<rparr>) = sync_keys s"
  by (simp_all add: sync_keys_def)

lemma map_update_same: "g y = g (xs ! i) \<Longrightarrow> map g (xs[i := y]) = map g xs"
  by (cases "i < length xs") (auto simp: map_update list_update_same_conv list_update_beyond)

lemma map_key_set_stage [simp]: "map fc_key (fl_calls (set_stage i st f)) = map fc_key (fl_calls f)"
  by (simp add: set_stage_def map_update_same)

lemma map_key_step: "flight_step a f = Some g \<Longrightarrow> internal a \<Longrightarrow> map fc_key (fl_calls g) = map fc_key (fl_calls f)"
  by (cases a) (auto simp: Let_def split: option.splits if_splits stage.splits)

lemma length_filter_update:
  assumes "i < length xs"
  shows "length (filter P (xs[i := y])) + (if P (xs ! i) then 1 else 0) = length (filter P xs) + (if P y then 1 else 0)"
proof -
  have "length (filter P xs) = length (filter P (take i xs @ xs ! i # drop (Suc i) xs))"
    using id_take_nth_drop[OF assms] by simp
  then show ?thesis by (simp add: upd_conv_take_nth_drop[OF assms])
qed

lemma pool_inv_start: "pool_inv (limiterCapacity c) q0 (start_pool c q0)"
  by (auto simp: pool_inv_def pool_core_def group_inv_def start_pool_def sync_keys_def reported_def no_flight_def)

lemma pool_core_launch:
  assumes inv: "pool_core c s" and step: "launch sync op s = Some t"
  shows "pool_core c t" "sync_keys t = sync_keys s @ (if sync then [op] else [])"
    "pl_ingest t = pl_ingest s" "pl_queue t = pl_queue s"
proof -
  have t: "t = s\<lparr>pl_limiter := pl_limiter s + 1,
       pl_calls := (pl_calls s)\<lparr>fl_calls := fl_calls (pl_calls s) @ [\<lparr>fc_key = op, fc_stage = Calling\<rparr>]\<rparr>,
       pl_tasks := pl_tasks s @ [\<lparr>pt_sync = sync, pt_phase = Holds\<rparr>]\<rparr>" and room: "pl_limiter s < pl_capacity s"
    using step by (auto simp: launch_Some)
  have len: "length (pl_tasks s) = length (fl_calls (pl_calls s))" using inv by (simp add: pool_core_def)
  have stage: "stage_of (pl_calls t) i = (if i = length (pl_tasks s) then Some Calling else stage_of (pl_calls s) i)" for i
    using len by (auto simp: t stage_of_def nth_append)
  have old: "reported t i \<longleftrightarrow> reported s i" for i by (auto simp: reported_def t nth_append less_Suc_eq)
  have "i \<noteq> length (pl_tasks s)" if "reported s i" for i using that by (auto simp: reported_def)
  then have out: "reported s i \<Longrightarrow> outcome (stage_of (pl_calls t) i) = outcome (stage_of (pl_calls s) i)" for i using stage by simp
  have "group_inv s" using inv by (simp add: pool_core_def)
  then have "group_inv t" using old out by (auto simp: group_inv_def t split: option.splits)
  moreover have "\<forall>i < length (pl_tasks t). pt_phase (pl_tasks t ! i) \<noteq> Holds \<longrightarrow> outcome (stage_of (pl_calls t) i) \<noteq> None"
    using inv unfolding stage by (auto simp: pool_core_def t nth_append less_Suc_eq)
  ultimately show "pool_core c t" using inv room unfolding pool_core_def by (simp add: t)
  show "sync_keys t = sync_keys s @ (if sync then [op] else [])" using len by (auto simp: sync_keys_def t)
  show "pl_ingest t = pl_ingest s" "pl_queue t = pl_queue s" by (simp_all add: t)
qed

lemma pool_core_work:
  assumes inv: "pool_core c s" and a: "internal a" "flight_step a (pl_calls s) = Some f"
  shows "pool_core c (s\<lparr>pl_calls := f\<rparr>)" "sync_keys (s\<lparr>pl_calls := f\<rparr>) = sync_keys s"
proof -
  have rep: "reported (s\<lparr>pl_calls := f\<rparr>) i \<longleftrightarrow> reported s i" for i by (simp add: reported_def)
  have out: "outcome (stage_of (pl_calls s) i) = Some r \<Longrightarrow> outcome (stage_of f i) = Some r" for i r
    using outcome_step[OF a(2)] by blast
  have "group_inv (s\<lparr>pl_calls := f\<rparr>)" using inv out rep unfolding pool_core_def group_inv_def by (auto split: option.splits)
  moreover have "\<forall>i < length (pl_tasks s). pt_phase (pl_tasks s ! i) \<noteq> Holds \<longrightarrow> outcome (stage_of f i) \<noteq> None"
    using inv out unfolding pool_core_def by (metis not_None_eq)
  ultimately show "pool_core c (s\<lparr>pl_calls := f\<rparr>)" using inv flight_calls_step[OF a(2,1)] unfolding pool_core_def by simp
  show "sync_keys (s\<lparr>pl_calls := f\<rparr>) = sync_keys s" using map_key_step[OF a(2,1)] by (simp add: sync_keys_def)
qed

text \<open>A task that leaves a phase, with its call's result at hand.\<close>

lemma pool_core_phase:
  assumes inv: "pool_core c s" and i: "i < length (pl_tasks s)" "outcome (stage_of (pl_calls s) i) = Some r"
    and t: "pl_tasks t = (pl_tasks s)[i := (pl_tasks s ! i)\<lparr>pt_phase := ph\<rparr>]" "ph \<noteq> Holds" "pl_calls t = pl_calls s"
      "pl_capacity t = pl_capacity s" "pl_limiter t = pl_limiter s - (if pt_phase (pl_tasks s ! i) = Holds then 1 else 0)"
    and group: "group_inv t"
  shows "pool_core c t" "sync_keys t = sync_keys s"
proof -
  have "length (filter (\<lambda>t. pt_phase t = Holds) (pl_tasks s)) =
      length (filter (\<lambda>t. pt_phase t = Holds) (pl_tasks t)) + (if pt_phase (pl_tasks s ! i) = Holds then 1 else 0)"
    using length_filter_update[OF i(1), of "\<lambda>t. pt_phase t = Holds" "(pl_tasks s ! i)\<lparr>pt_phase := ph\<rparr>"] t(1,2) by simp
  then have "pl_limiter t = length (filter (\<lambda>t. pt_phase t = Holds) (pl_tasks t))" "pl_limiter t \<le> pl_limiter s"
    using inv t(5) by (simp_all add: pool_core_def)
  moreover have "\<forall>j < length (pl_tasks t). pt_phase (pl_tasks t ! j) \<noteq> Holds \<longrightarrow> outcome (stage_of (pl_calls t) j) \<noteq> None"
    using inv i t by (auto simp: pool_core_def nth_list_update)
  ultimately show "pool_core c t" using inv group t unfolding pool_core_def by simp
  show "sync_keys t = sync_keys s" by (simp add: sync_keys_def t map_update_same)
qed

lemma reported_phase:
  assumes "pl_tasks t = (pl_tasks s)[i := (pl_tasks s ! i)\<lparr>pt_phase := ph\<rparr>]" "i < length (pl_tasks s)"
  shows "reported t j \<longleftrightarrow> (if j = i then pt_sync (pl_tasks s ! i) \<and> ph = Reported else reported s j)"
  using assms by (auto simp: reported_def nth_list_update)

lemma pool_inv_release:
  assumes inv: "pool_inv c q0 s" and step: "pool_step (Release i) s = Some t"
  shows "pool_inv c q0 t"
proof -
  obtain r where i: "i < length (pl_tasks s)" "pt_phase (pl_tasks s ! i) = Holds" "outcome (stage_of (pl_calls s) i) = Some r"
    and t: "t = s\<lparr>pl_limiter := pl_limiter s - 1, pl_tasks := (pl_tasks s)[i := (pl_tasks s ! i)\<lparr>pt_phase := Released\<rparr>],
      pl_shared := (if pt_sync (pl_tasks s ! i) \<and> r = None then key_of (pl_calls s) i # pl_shared s else pl_shared s)\<rparr>"
    using step by (auto split: if_splits option.splits)
  have core: "pool_core c s" using inv by (simp add: pool_inv_def)
  have "pl_tasks t = (pl_tasks s)[i := (pl_tasks s ! i)\<lparr>pt_phase := Released\<rparr>]" by (simp add: t)
  note rep = reported_phase[OF this i(1)]
  have "reported t j \<longleftrightarrow> reported s j" for j using rep[of j] i by (auto simp: reported_def)
  then have group: "group_inv t" using core by (auto simp: pool_core_def group_inv_def t split: option.splits)
  have "pool_core c t" "sync_keys t = sync_keys s"
    by (rule pool_core_phase[OF core i(1,3) _ _ _ _ _ group, where ph = Released]; use i in \<open>simp add: t\<close>)+
  with inv show ?thesis by (simp add: pool_inv_def t)
qed

lemma pool_inv_report:
  assumes inv: "pool_inv c q0 s" and step: "pool_step (Report i) s = Some t"
  shows "pool_inv c q0 t"
proof -
  obtain r where i: "i < length (pl_tasks s)" "pt_phase (pl_tasks s ! i) = Released" "pt_sync (pl_tasks s ! i)"
      "outcome (stage_of (pl_calls s) i) = Some r"
    and t: "t = s\<lparr>pl_tasks := (pl_tasks s)[i := (pl_tasks s ! i)\<lparr>pt_phase := Reported\<rparr>],
      pl_group := (if pl_group s = None then r else pl_group s)\<rparr>"
    using step by (auto split: if_splits option.splits)
  have core: "pool_core c s" using inv by (simp add: pool_inv_def)
  have "pl_tasks t = (pl_tasks s)[i := (pl_tasks s ! i)\<lparr>pt_phase := Reported\<rparr>]" by (simp add: t)
  note rep = reported_phase[OF this i(1)]
  have rep: "reported t j \<longleftrightarrow> j = i \<or> reported s j" for j using rep[of j] i by auto
  have out: "stage_of (pl_calls t) = stage_of (pl_calls s)" by (simp add: t)
  have "group_inv s" using core by (simp add: pool_core_def)
  then have group: "group_inv t"
    unfolding group_inv_def out rep using i(4) by (cases "pl_group s"; cases r) (auto simp: t)
  have "pool_core c t" "sync_keys t = sync_keys s"
    by (rule pool_core_phase[OF core i(1,4) _ _ _ _ _ group, where ph = Reported]; use i in \<open>simp add: t\<close>)+
  with inv show ?thesis by (simp add: pool_inv_def t)
qed

lemma pool_inv_step:
  assumes inv: "pool_inv c q0 s" and step: "pool_step a s = Some t"
  shows "pool_inv c q0 t"
proof (cases a)
  case (Enqueue op)
  with assms show ?thesis by (auto simp: ProcessUTXO_def pool_inv_def split: if_splits)
next
  case CloseQueue
  with assms show ?thesis by (auto simp: pool_inv_def split: if_splits)
next
  case Receive
  then obtain op rest where q: "pl_queue s = op # rest" "t = s\<lparr>pl_worker := Holding op, pl_queue := rest\<rparr>"
    using step by (auto split: worker.splits list.splits)
  with inv show ?thesis by (simp add: pool_inv_def)
next
  case Quit
  with assms show ?thesis by (auto simp: pool_inv_def split: if_splits)
next
  case LaunchWorker
  then obtain op where l: "launch False op (s\<lparr>pl_worker := Receiving\<rparr>) = Some t" using step by (auto split: worker.splits)
  show ?thesis using pool_core_launch[OF _ l, of c] inv by (simp add: pool_inv_def)
next
  case LaunchSync
  then obtain op rest where l: "pl_ingest s = op # rest" "launch True op (s\<lparr>pl_ingest := rest\<rparr>) = Some t"
    using step by (auto split: list.splits)
  show ?thesis using pool_core_launch[OF _ l(2), of c] inv l(1) by (simp add: pool_inv_def)
next
  case (Work x)
  then obtain f where f: "internal x" "flight_step x (pl_calls s) = Some f" "t = s\<lparr>pl_calls := f\<rparr>"
    using step by (auto split: if_splits option.splits)
  with pool_core_work[OF _ f(1,2), of c] inv show ?thesis by (simp add: pool_inv_def)
next
  case (Release i)
  with assms show ?thesis by (blast intro: pool_inv_release)
next
  case (Report i)
  with assms show ?thesis by (blast intro: pool_inv_report)
qed

lemma reaches_pool_inv: "reaches pool_step (start_pool c q0) s \<Longrightarrow> pool_inv (limiterCapacity c) q0 s"
  by (erule reaches_invariant[where I = "pool_inv (limiterCapacity c) q0"]) (auto intro: pool_inv_start pool_inv_step)

lemma pool_step_flight:
  assumes "pool_step a s = Some t"
  shows "pl_calls t = pl_calls s \<or> (\<exists>x. flight_step x (pl_calls s) = Some (pl_calls t))"
proof (cases a)
  case LaunchWorker
  with assms obtain op where "launch False op (s\<lparr>pl_worker := Receiving\<rparr>) = Some t" by (auto split: worker.splits)
  then show ?thesis by (intro disjI2 exI[of _ "Call op"]) (auto simp: launch_Some)
next
  case LaunchSync
  with assms obtain op rest where "launch True op (s\<lparr>pl_ingest := rest\<rparr>) = Some t" by (auto split: list.splits)
  then show ?thesis by (intro disjI2 exI[of _ "Call op"]) (auto simp: launch_Some)
qed (use assms in \<open>auto simp: ProcessUTXO_def split: if_splits option.splits worker.splits list.splits\<close>)

interpretation gasp_pool: flight_client "start_pool c q0" pool_step pl_calls for c q0
  by unfold_locales (auto simp: start_pool_def dest: pool_step_flight)

section \<open>Progress\<close>

fun worker_rank :: "worker \<Rightarrow> nat" where
  "worker_rank Receiving = 1"
| "worker_rank (Holding op) = 9"
| "worker_rank Exited = 0"

fun phase_rank :: "task_phase \<Rightarrow> nat" where
  "phase_rank Holds = 2"
| "phase_rank Released = 1"
| "phase_rank Reported = 0"

text \<open>A bound on the steps that are left.\<close>

definition pool_measure :: "'e pool \<Rightarrow> nat" where
  "pool_measure s = 8 * length (pl_ingest s) + 10 * length (pl_queue s) + worker_rank (pl_worker s) +
     flight_measure (pl_calls s) + sum_list (map (\<lambda>t. phase_rank (pt_phase t)) (pl_tasks s))"

lemma pool_measure_launch:
  assumes "launch sync op s = Some t"
  shows "pool_measure t = pool_measure s + 7"
  using assms by (auto simp: launch_Some pool_measure_def flight_measure_def)

lemma pool_measure_phase:
  assumes "i < length (pl_tasks s)" "phase_rank ph < phase_rank (pt_phase (pl_tasks s ! i))"
  shows "sum_list (map (\<lambda>t. phase_rank (pt_phase t)) ((pl_tasks s)[i := (pl_tasks s ! i)\<lparr>pt_phase := ph\<rparr>]))
    < sum_list (map (\<lambda>t. phase_rank (pt_phase t)) (pl_tasks s))"
  using assms by (intro sum_list_update_less) simp_all

lemma pool_measure_step:
  assumes "pool_step a s = Some t" "pool_internal a"
  shows "pool_measure t < pool_measure s"
proof (cases a)
  case LaunchWorker
  then obtain op where w: "pl_worker s = Holding op" "launch False op (s\<lparr>pl_worker := Receiving\<rparr>) = Some t"
    using assms by (auto split: worker.splits)
  from pool_measure_launch[OF w(2)] w(1) show ?thesis by (simp add: pool_measure_def)
next
  case LaunchSync
  then obtain op rest where w: "pl_ingest s = op # rest" "launch True op (s\<lparr>pl_ingest := rest\<rparr>) = Some t"
    using assms by (auto split: list.splits)
  from pool_measure_launch[OF w(2)] w(1) show ?thesis by (simp add: pool_measure_def)
next
  case (Work x)
  then obtain f where "internal x" "flight_step x (pl_calls s) = Some f" "t = s\<lparr>pl_calls := f\<rparr>"
    using assms by (auto split: if_splits option.splits)
  then show ?thesis using flight_measure_step by (simp add: pool_measure_def)
next
  case (Release i)
  with assms pool_measure_phase[of i s Released] show ?thesis
    by (auto simp: pool_measure_def split: if_splits option.splits)
next
  case (Report i)
  with assms pool_measure_phase[of i s Reported] show ?thesis
    by (auto simp: pool_measure_def split: if_splits option.splits)
qed (use assms in \<open>auto simp: pool_measure_def split: if_splits worker.splits list.splits\<close>)

lemma exited_empty:
  assumes "reaches pool_step (start_pool c q0) s" "pl_worker s = Exited"
  shows "pl_queue s = []"
proof -
  have "pl_worker s = Exited \<longrightarrow> pl_queue s = [] \<and> pl_closed s"
    using assms(1)
  proof (rule reaches_invariant[where I = "\<lambda>s. pl_worker s = Exited \<longrightarrow> pl_queue s = [] \<and> pl_closed s"])
    show "pl_worker u = Exited \<longrightarrow> pl_queue u = [] \<and> pl_closed u"
      if "pl_worker t = Exited \<longrightarrow> pl_queue t = [] \<and> pl_closed t" "pool_step a t = Some u" for a t u
      using that by (cases a) (auto simp: ProcessUTXO_def launch_Some split: if_splits worker.splits list.splits option.splits)
  qed (simp add: start_pool_def)
  with assms(2) show ?thesis by blast
qed

definition drained :: "'e pool \<Rightarrow> bool" where
  "drained s \<longleftrightarrow> pl_ingest s = [] \<and> pl_queue s = [] \<and> pl_limiter s = 0 \<and> fl_inflight (pl_calls s) = [] \<and>
     (\<forall>i < length (fl_calls (pl_calls s)). outcome (stage_of (pl_calls s) i) \<noteq> None) \<and> group_wait s = Some (pl_group s)"

lemma stuck_drained:
  assumes reach: "reaches pool_step (start_pool c q0) s" and stuck: "\<And>a. pool_internal a \<Longrightarrow> pool_step a s = None"
  shows "drained s"
proof -
  note inv = reaches_pool_inv[OF reach, unfolded pool_inv_def pool_core_def]
  note finv = gasp_pool.inv[OF reach]
  have calls: "outcome (stage_of (pl_calls s) i) \<noteq> None" if "i < length (fl_calls (pl_calls s))" for i
  proof
    assume "outcome (stage_of (pl_calls s) i) = None"
    then obtain a where "internal a" "flight_step a (pl_calls s) \<noteq> None" using flight_progress[OF finv \<open>i < _\<close>] by blast
    then show False using stuck[of "Work a"] by auto
  qed
  have released: "pt_phase (pl_tasks s ! i) \<noteq> Holds" if "i < length (pl_tasks s)" for i
    using stuck[of "Release i"] that calls[of i] inv by auto
  have "\<forall>t \<in> set (pl_tasks s). pt_phase t \<noteq> Holds" using released by (auto simp: in_set_conv_nth)
  then have limiter: "pl_limiter s = 0" using inv by (simp add: filter_empty_conv)
  have sync: "pt_phase (pl_tasks s ! i) = Reported" if "i < length (pl_tasks s)" "pt_sync (pl_tasks s ! i)" for i
    using stuck[of "Report i"] that calls[of i] inv released[of i] by (cases "pt_phase (pl_tasks s ! i)") auto
  have room: "pl_limiter s < pl_capacity s" using limiter inv by (simp add: limiterCapacity_def)
  have ingest: "pl_ingest s = []" using stuck[of LaunchSync] room by (cases "pl_ingest s") (auto simp: launch_def)
  have "pl_worker s \<noteq> Holding op" for op using stuck[of LaunchWorker] room by (auto simp: launch_def)
  then have queue: "pl_queue s = []"
    using stuck[of Receive] exited_empty[OF reach] by (cases "pl_worker s"; cases "pl_queue s") auto
  have "group_wait s = Some (pl_group s)" using ingest sync by (auto simp: group_wait_def list_all_length)
  with calls limiter ingest queue flight_quiet[OF finv calls] show ?thesis by (simp add: drained_def)
qed

text \<open>C13: every run of the goroutines comes to an end: from any reachable state the machine takes at most as many
  of its own steps as the measure says, whatever the traversals return, and when it can take no more,
  nothing is left waiting: all queued outpoints were served, every call has returned, no entry is left in
  the in-flight map, all slots of the limiter are free and the wait of a synchronisation is over.\<close>

theorem pool_drains:
  assumes "reaches pool_step (start_pool concurrency ingest) s"
  shows "(\<forall>labels t. run_labels pool_step labels s = Some t \<and> list_all pool_internal labels \<longrightarrow>
      length labels \<le> pool_measure s) \<and>
    ((\<forall>a. pool_internal a \<longrightarrow> pool_step a s = None) \<longrightarrow> drained s)"
proof (intro conjI impI allI)
  fix labels t
  assume "run_labels pool_step labels s = Some t \<and> list_all pool_internal labels"
  then have "length labels + pool_measure t \<le> pool_measure s"
    by (intro run_labels_measure) (auto simp: list_all_iff intro: pool_measure_step)
  then show "length labels \<le> pool_measure s" by simp
qed (use stuck_drained[OF assms] in blast)

text \<open>A run: two goroutines for the same outpoint, the second waits for the first, whose traversal fails.\<close>

definition demo_outpoint :: Outpoint where
  "demo_outpoint = \<lparr>op_Txid = replicate 32 7, op_Index = 1\<rparr>"

definition demo_labels :: "string pool_label list" where
  "demo_labels = [LaunchSync, LaunchSync, Work (LoadOrStore 0), Work (LoadOrStore 1), Work (Settle 0 (Some ''bad'')),
     Work (SignalDone 0), Work (Wake 1), Work (Forget 0), Release 1, Release 0, Report 1, Report 0]"

definition demo_pool :: "string pool" where
  "demo_pool = (case run_labels pool_step demo_labels (start_pool 2 [demo_outpoint, demo_outpoint]) of
     None \<Rightarrow> start_pool 0 [] | Some s \<Rightarrow> s)"

lemma pool_demo_run: "run_labels pool_step demo_labels (start_pool 2 [demo_outpoint, demo_outpoint]) = Some demo_pool"
proof -
  have "run_labels pool_step demo_labels (start_pool 2 [demo_outpoint, demo_outpoint]) \<noteq> None" by code_simp
  then show ?thesis by (auto simp: demo_pool_def)
qed

lemma demo_reaches: "reaches pool_step (start_pool 2 [demo_outpoint, demo_outpoint]) demo_pool"
  using pool_demo_run reaches_refl by (rule run_labels_reaches)

theorem pool_drains_witness:
  "length demo_labels \<le> pool_measure (start_pool 2 [demo_outpoint, demo_outpoint] :: string pool) \<and> drained demo_pool"
proof
  show "length demo_labels \<le> pool_measure (start_pool 2 [demo_outpoint, demo_outpoint] :: string pool)"
    using conjunct1[OF pool_drains[OF reaches_refl, of 2 "[demo_outpoint, demo_outpoint]"], rule_format, of demo_labels demo_pool]
      pool_demo_run by (simp add: demo_labels_def)
  show "drained demo_pool" by code_simp
qed

section \<open>Exclusive traversals and the result of a synchronisation\<close>

lemma unfinished_hold:
  assumes "pool_core c s"
  shows "card {i. i < length (fl_calls (pl_calls s)) \<and> outcome (stage_of (pl_calls s) i) = None} \<le> pl_limiter s"
proof -
  let ?H = "{i. i < length (pl_tasks s) \<and> pt_phase (pl_tasks s ! i) = Holds}"
  have "{i. i < length (fl_calls (pl_calls s)) \<and> outcome (stage_of (pl_calls s) i) = None} \<subseteq> ?H"
    using assms by (auto simp: pool_core_def)
  then have "card {i. i < length (fl_calls (pl_calls s)) \<and> outcome (stage_of (pl_calls s) i) = None} \<le> card ?H"
    by (intro card_mono) simp_all
  also have "\<dots> = pl_limiter s" using assms by (simp add: pool_core_def length_filter_conv_card)
  finally show ?thesis .
qed

text \<open>C12: in every reachable state the limiter holds: no more calls are under way than the configured concurrency
  (one, when it is not above one), the queue never exceeds its capacity, and no two goroutines traverse the
  graph of the same outpoint at the same time, so that each traversal has its root's temporary graph alone.\<close>

theorem pool_exclusive:
  assumes "reaches pool_step (start_pool concurrency ingest) s"
  shows "card {i. i < length (fl_calls (pl_calls s)) \<and> outcome (stage_of (pl_calls s) i) = None} \<le> limiterCapacity concurrency \<and>
    length (pl_queue s) \<le> queueCapacity \<and>
    (\<forall>i j p q. live (stage_of (pl_calls s) i) = Some p \<and> live (stage_of (pl_calls s) j) = Some q \<and>
       key_of (pl_calls s) i = key_of (pl_calls s) j \<longrightarrow> i = j)"
proof -
  have inv: "pool_inv (limiterCapacity concurrency) ingest s" using assms by (rule reaches_pool_inv)
  then have core: "pool_core (limiterCapacity concurrency) s" and queue: "length (pl_queue s) \<le> queueCapacity"
    by (simp_all add: pool_inv_def)
  have "pl_limiter s \<le> limiterCapacity concurrency" using core by (simp add: pool_core_def)
  with unfinished_hold[OF core] queue gasp_pool.exclusive[OF assms] show ?thesis by (metis (no_types, lifting) le_trans)
qed

definition demo_mid :: "string pool" where
  "demo_mid = (case run_labels pool_step (take 4 demo_labels) (start_pool 2 [demo_outpoint, demo_outpoint]) of
     None \<Rightarrow> start_pool 0 [] | Some s \<Rightarrow> s)"

lemma demo_mid_reaches: "reaches pool_step (start_pool 2 [demo_outpoint, demo_outpoint]) demo_mid"
proof -
  have "run_labels pool_step (take 4 demo_labels) (start_pool 2 [demo_outpoint, demo_outpoint]) \<noteq> None" by code_simp
  then have "run_labels pool_step (take 4 demo_labels) (start_pool 2 [demo_outpoint, demo_outpoint]) = Some demo_mid"
    by (auto simp: demo_mid_def)
  then show ?thesis using reaches_refl by (rule run_labels_reaches)
qed

theorem pool_exclusive_witness:
  "stage_of (pl_calls demo_mid) 0 = Some (Owning 0) \<and> stage_of (pl_calls demo_mid) 1 = Some (Awaiting 0) \<and>
   card {i. i < length (fl_calls (pl_calls demo_mid)) \<and> outcome (stage_of (pl_calls demo_mid) i) = None} \<le> 2"
proof (intro conjI)
  show "card {i. i < length (fl_calls (pl_calls demo_mid)) \<and> outcome (stage_of (pl_calls demo_mid) i) = None} \<le> 2"
    using conjunct1[OF pool_exclusive[OF demo_mid_reaches]] by (simp add: limiterCapacity_def)
qed code_simp+

text \<open>A finished call got its result from the owner of the object it went through.\<close>

lemma outcome_owner:
  assumes inv: "flight_inv f" and "outcome (stage_of f i) = Some r"
  shows "\<exists>j p. key_of f j = key_of f i \<and> (stage_of f j = Some (Signalled p r) \<or> stage_of f j = Some (Returned p r))"
proof (cases "stage_of f i" rule: outcome.cases)
  case (1 p r')
  with assms(2) show ?thesis by auto
next
  case (2 p r')
  with assms(2) flight_shared[OF inv, of i p r] show ?thesis by auto
qed (use assms(2) in auto)

lemma sync_key_task:
  assumes "length (pl_tasks s) = length (fl_calls (pl_calls s))"
  shows "op \<in> set (sync_keys s) \<longleftrightarrow> (\<exists>i < length (pl_tasks s). pt_sync (pl_tasks s ! i) \<and> key_of (pl_calls s) i = op)"
  using assms by (auto simp: sync_keys_def set_zip key_of_def image_iff Bex_def) (metis nth_map)+

text \<open>C31: when the wait of a synchronisation is over, its result says what happened: without an error, every outpoint
  to ingest was traversed to completion without an error by a goroutine that owned it; with an error,
  that is the error of the traversal of one of these outpoints.\<close>

theorem sync_result:
  assumes "reaches pool_step (start_pool concurrency ingest) s" "group_wait s = Some r"
  shows "case r of
      None \<Rightarrow> \<forall>op. op \<in> set ingest \<longrightarrow>
        (\<exists>j p. key_of (pl_calls s) j = op \<and>
          (stage_of (pl_calls s) j = Some (Signalled p None) \<or> stage_of (pl_calls s) j = Some (Returned p None)))
    | Some e \<Rightarrow> \<exists>j p. key_of (pl_calls s) j \<in> set ingest \<and>
        (stage_of (pl_calls s) j = Some (Signalled p (Some e)) \<or> stage_of (pl_calls s) j = Some (Returned p (Some e)))"
proof -
  note inv = reaches_pool_inv[OF assms(1), unfolded pool_inv_def pool_core_def]
  note finv = gasp_pool.inv[OF assms(1)]
  have wait: "pl_ingest s = []" "r = pl_group s" "\<And>i. i < length (pl_tasks s) \<Longrightarrow> pt_sync (pl_tasks s ! i) \<Longrightarrow> reported s i"
    using assms(2) by (auto simp: group_wait_def reported_def list_all_length split: if_splits)
  have len: "length (pl_tasks s) = length (fl_calls (pl_calls s))" and keys: "sync_keys s = ingest" using inv wait(1) by auto
  have group: "group_inv s" using inv by blast
  show ?thesis
  proof (cases r)
    case None
    have "\<exists>j p. key_of (pl_calls s) j = op \<and>
        (stage_of (pl_calls s) j = Some (Signalled p None) \<or> stage_of (pl_calls s) j = Some (Returned p None))"
      if op: "op \<in> set ingest" for op
    proof -
      obtain i where i: "i < length (pl_tasks s)" "pt_sync (pl_tasks s ! i)" "key_of (pl_calls s) i = op"
        using op sync_key_task[OF len, of op] unfolding keys by blast
      have "outcome (stage_of (pl_calls s) i) = Some None" using group None wait i by (simp add: group_inv_def)
      from outcome_owner[OF finv this] i(3) show ?thesis by simp
    qed
    with None show ?thesis by simp
  next
    case (Some e)
    then obtain i where i: "reported s i" "outcome (stage_of (pl_calls s) i) = Some (Some e)"
      using group wait by (auto simp: group_inv_def)
    then have "key_of (pl_calls s) i \<in> set ingest" using sync_key_task[OF len] unfolding keys reported_def by blast
    moreover obtain j p where "key_of (pl_calls s) j = key_of (pl_calls s) i"
        "stage_of (pl_calls s) j = Some (Signalled p (Some e)) \<or> stage_of (pl_calls s) j = Some (Returned p (Some e))"
      using outcome_owner[OF finv i(2)] by blast
    ultimately show ?thesis using Some by (simp, metis)
  qed
qed

theorem sync_result_witness:
  "group_wait demo_pool = Some (Some ''bad'') \<and>
   (\<exists>j p. key_of (pl_calls demo_pool) j \<in> {demo_outpoint} \<and>
     (stage_of (pl_calls demo_pool) j = Some (Signalled p (Some ''bad'')) \<or>
      stage_of (pl_calls demo_pool) j = Some (Returned p (Some ''bad''))))"
proof
  show wait: "group_wait demo_pool = Some (Some ''bad'')" by code_simp
  from sync_result[OF demo_reaches wait] show "\<exists>j p. key_of (pl_calls demo_pool) j \<in> {demo_outpoint} \<and>
     (stage_of (pl_calls demo_pool) j = Some (Signalled p (Some ''bad'')) \<or>
      stage_of (pl_calls demo_pool) j = Some (Returned p (Some ''bad'')))" by simp
qed

end
