(* ===== verification/Gasp_Sync.thy ===== *)
theory Gasp_Sync
  imports Gasp_Storage Gasp_Pool
begin

text \<open>
  The Graph Aware Sync Protocol (\<^verbatim>\<open>pkg/core/gasp/gasp.go\<close>, with the interfaces of \<^verbatim>\<open>storage.go\<close> and
  \<^verbatim>\<open>remote.go\<close>): the page synchronisation, the traversal of a graph from the peer, the completion of a
  graph and the serving side. Storage and peer are interfaces over an outside state; locale
  \<open>graph_store\<close> states what the traversals need of a storage, and is interpreted on the engine's one.
  The model runs the goroutines of a page one after the other; \<^verbatim>\<open>Gasp_Pool\<close> has their interleaving.
\<close>

section \<open>Interfaces\<close>

record ('x, 'f, 'e) gasp_storage =
  gs_FindKnownUTXOs :: "float64 \<Rightarrow> u32 \<Rightarrow> ('x, 'f, 'e, Output list) em"
  gs_HasOutputs :: "Outpoint list \<Rightarrow> ('x, 'f, 'e, bool list) em"
  gs_HydrateGASPNode :: "Outpoint option \<Rightarrow> Outpoint \<Rightarrow> bool \<Rightarrow> ('x, 'f, 'e, Node option) em"
  gs_FindNeededInputs :: "Node \<Rightarrow> ('x, 'f, 'e, requested option) em"
  gs_AppendToGraph :: "Node \<Rightarrow> Outpoint option \<Rightarrow> ('x, 'f, 'e, unit) em"
  gs_ValidateGraphAnchor :: "Outpoint option \<Rightarrow> ('x, 'f, 'e, unit) em"
  gs_DiscardGraph :: "Outpoint option \<Rightarrow> ('x, 'f, 'e, unit) em"
  gs_FinalizeGraph :: "Outpoint option \<Rightarrow> ('x, 'f, 'e, unit) em"

record ('x, 'f, 'e) gasp_remote =
  rm_GetInitialResponse :: "InitialRequest \<Rightarrow> ('x, 'f, 'e, InitialResponse) em"
  rm_RequestNode :: "Outpoint option \<Rightarrow> Outpoint \<Rightarrow> bool \<Rightarrow> ('x, 'f, 'e, Node) em"
  rm_SubmitNode :: "Node \<Rightarrow> ('x, 'f, 'e, requested option) em"

datatype 'e gasp_error =
  ErrNodeNilInProcessOutgoingNode | ErrTransactionParsingPanic | ErrTransactionHexTooShort | ErrTransactionHexTooLong
| VersionMismatchError int int
| Lower 'e \<comment> \<open>an error of the storage or of the peer\<close>
| GaspPanic \<comment> \<open>a run-time panic\<close>
| GaspDepth \<comment> \<open>a recursion deeper than the bound it was given\<close>

text \<open>The SDK's transaction parser, which may panic on malformed input.\<close>

datatype 'e parsed = ParsePanics | ParseFails 'e | Parsed hash

record ('x, 'f, 'e) GASP =
  g_Version :: int
  g_Remote :: "('x, 'f, 'e) gasp_remote"
  g_Storage :: "('x, 'f, 'e) gasp_storage"
  g_LastInteraction :: float64
  g_Unidirectional :: bool
  g_parse :: "byte list \<Rightarrow> 'e parsed"
  g_seed :: "'x \<Rightarrow> nat list \<times> 'x"

definition lower :: "('x, 'f, 'e, 'a) em \<Rightarrow> ('x, 'f, 'e gasp_error, 'a) em" where
  "lower m = (\<lambda>s. case m s of (r, t) \<Rightarrow> (map_error Lower r, t))"

text \<open>A call whose error the code handles itself.\<close>

definition attempt :: "('x, 'f, 'e, 'a) em \<Rightarrow> ('e gasp_error \<Rightarrow> ('x, 'f, 'e gasp_error, 'b) em) \<Rightarrow>
    ('a \<Rightarrow> ('x, 'f, 'e gasp_error, 'b) em) \<Rightarrow> ('x, 'f, 'e gasp_error, 'b) em" where
  "attempt m failed ok = ebind (etry (lower m)) (\<lambda>r. case r of Inl e \<Rightarrow> failed e | Inr x \<Rightarrow> ok x)"

section \<open>Comparison of scores\<close>

text \<open>Go's comparison of two \<open>float64\<close> on their IEEE bits: a NaN is not greater than anything.\<close>

definition is_nan :: "float64 \<Rightarrow> bool" where
  "is_nan w \<longleftrightarrow> 9218868437227405312 < take_bit 63 w"

definition float_key :: "float64 \<Rightarrow> int" where
  "float_key w = (if bit w 63 then - uint (take_bit 63 w) else uint (take_bit 63 w))"

definition float_greater :: "float64 \<Rightarrow> float64 \<Rightarrow> bool" where
  "float_greater a b \<longleftrightarrow> \<not> is_nan a \<and> \<not> is_nan b \<and> float_key b < float_key a"

section \<open>Serving a peer\<close>

definition GetInitialResponse :: "('x, 'f, 'e) GASP \<Rightarrow> InitialRequest \<Rightarrow> ('x, 'f, 'e gasp_error, InitialResponse) em" where
  "GetInitialResponse g request =
     (if req_Version request \<noteq> g_Version g then efail (VersionMismatchError (g_Version g) (req_Version request))
      else ebind (lower (gs_FindKnownUTXOs (g_Storage g) (req_Since request) (req_Limit request))) (\<lambda>utxos.
        eret \<lparr>resp_UTXOList = utxos, resp_Since = g_LastInteraction g\<rparr>))"

definition output_point :: "Output \<Rightarrow> Outpoint" where
  "output_point utxo = \<lparr>op_Txid = o_Txid utxo, op_Index = o_OutputIndex utxo\<rparr>"

definition GetInitialReply :: "('x, 'f, 'e) GASP \<Rightarrow> InitialResponse \<Rightarrow> ('x, 'f, 'e gasp_error, InitialReply) em" where
  "GetInitialReply g response =
     ebind (lower (gs_FindKnownUTXOs (g_Storage g) (resp_Since response) 0)) (\<lambda>knownUtxos.
       eret \<lparr>reply_UTXOList = filter (\<lambda>known. \<not> list_ex (\<lambda>u. o_Txid u = o_Txid known \<and> o_OutputIndex u = o_OutputIndex known)
         (resp_UTXOList response)) knownUtxos\<rparr>)"

definition RequestNode :: "('x, 'f, 'e) GASP \<Rightarrow> Outpoint option \<Rightarrow> Outpoint \<Rightarrow> bool \<Rightarrow> ('x, 'f, 'e gasp_error, Node option) em" where
  "RequestNode g graphID outpoint metadata = lower (gs_HydrateGASPNode (g_Storage g) graphID outpoint metadata)"

text \<open>
  Validate, then finalise, and discard the graph on every path; the error of the discard is dropped.
  The log lines of the code format the graph id, which panics when it is nil.
\<close>

definition CompleteGraph :: "('x, 'f, 'e) GASP \<Rightarrow> Outpoint option \<Rightarrow> ('x, 'f, 'e gasp_error, unit) em" where
  "CompleteGraph g graphID =
     attempt (gs_ValidateGraphAnchor (g_Storage g) graphID)
       (\<lambda>err. if graphID = None then efail GaspPanic
          else ebind (eignore (lower (gs_DiscardGraph (g_Storage g) graphID))) (\<lambda>_. efail err))
       (\<lambda>_. if graphID = None then efail GaspPanic
          else attempt (gs_FinalizeGraph (g_Storage g) graphID)
            (\<lambda>err. ebind (eignore (lower (gs_DiscardGraph (g_Storage g) graphID))) (\<lambda>_. efail err))
            (\<lambda>_. eignore (lower (gs_DiscardGraph (g_Storage g) graphID))))"

definition SubmitNode :: "('x, 'f, 'e) GASP \<Rightarrow> Node \<Rightarrow> ('x, 'f, 'e gasp_error, requested option) em" where
  "SubmitNode g node =
     ebind (lower (gs_AppendToGraph (g_Storage g) node None)) (\<lambda>_.
     ebind (lower (gs_FindNeededInputs (g_Storage g) node)) (\<lambda>requestedInputs.
       if requestedInputs \<noteq> None then ebind (CompleteGraph g (n_GraphID node)) (\<lambda>_. eret requestedInputs)
       else eret requestedInputs))"

section \<open>Traversal\<close>

definition computeTxID :: "('x, 'f, 'e) GASP \<Rightarrow> byte list \<Rightarrow> 'e gasp_error + hash" where
  "computeTxID g rawtx =
     (if length rawtx < 10 then Inl ErrTransactionHexTooShort
      else if 100000000 < int (length rawtx) then Inl ErrTransactionHexTooLong
      else case g_parse g rawtx of
        ParsePanics \<Rightarrow> Inl ErrTransactionParsingPanic
      | ParseFails e \<Rightarrow> Inl (Lower e)
      | Parsed txid \<Rightarrow> Inr txid)"

text \<open>
  The nodes seen so far are shared by all levels of a traversal, also when a level fails; every
  level returns them with its result. The error of a dependency is only logged, except for the
  artificial one of an exhausted bound.
\<close>

type_synonym ('x, 'f, 'e) traversal = "('x, 'f, 'e gasp_error, Outpoint list \<times> ('e gasp_error + unit)) em"

definition keep_depth :: "'e gasp_error + unit \<Rightarrow> 'e gasp_error + unit \<Rightarrow> 'e gasp_error + unit" where
  "keep_depth acc r = (if r = Inl GaspDepth then r else acc)"

definition process_node :: "('x, 'f, 'e) GASP \<Rightarrow>
    (Outpoint \<Rightarrow> Outpoint option \<Rightarrow> Outpoint option \<Rightarrow> Outpoint list \<Rightarrow> ('x, 'f, 'e) traversal) \<Rightarrow>
    Node \<Rightarrow> Outpoint option \<Rightarrow> Outpoint list \<Rightarrow> ('x, 'f, 'e) traversal" where
  "process_node g dependency node spentBy seen =
     (case computeTxID g (n_RawTx node) of
        Inl e \<Rightarrow> eret (seen, Inl e)
      | Inr txid \<Rightarrow>
          let nodeOutpoint = \<lparr>op_Txid = txid, op_Index = n_OutputIndex node\<rparr> in
          if nodeOutpoint \<in> set seen then eret (seen, Inr ())
          else
            let seen' = nodeOutpoint # seen in
            attempt (gs_AppendToGraph (g_Storage g) node spentBy) (\<lambda>e. eret (seen', Inl e)) (\<lambda>_.
            attempt (gs_FindNeededInputs (g_Storage g) node) (\<lambda>e. eret (seen', Inl e)) (\<lambda>needed.
              ebind (erange (g_seed g) (case needed of None \<Rightarrow> [] | Some rq \<Rightarrow> rq)) (\<lambda>order.
                efold (\<lambda>(outpoint, _) (sn, acc).
                  ebind (dependency outpoint (Some nodeOutpoint) (n_GraphID node) sn) (\<lambda>(sn', r). eret (sn', keep_depth acc r)))
                  order (seen', Inr ())))))"

primrec processUTXO :: "nat \<Rightarrow> ('x, 'f, 'e) GASP \<Rightarrow> Outpoint \<Rightarrow> Outpoint option \<Rightarrow> Outpoint option \<Rightarrow> Outpoint list \<Rightarrow>
    ('x, 'f, 'e) traversal" where
  "processUTXO 0 g outpoint spentBy graphID seen = eret (seen, Inl GaspDepth)"
| "processUTXO (Suc fuel) g outpoint spentBy graphID seen =
     attempt (rm_RequestNode (g_Remote g) graphID outpoint True) (\<lambda>e. eret (seen, Inl e)) (\<lambda>resolvedNode.
       ebind (process_node g (processUTXO fuel g) resolvedNode spentBy seen) (\<lambda>(seen', r).
         case r of
           Inl e \<Rightarrow> eret (seen', Inl e)
         | Inr _ \<Rightarrow>
             if spentBy = None then ebind (etry (CompleteGraph g graphID)) (\<lambda>c. eret (seen', c))
             else eret (seen', Inr ())))"

definition processIncomingNode :: "nat \<Rightarrow> ('x, 'f, 'e) GASP \<Rightarrow> Node \<Rightarrow> Outpoint option \<Rightarrow> Outpoint list \<Rightarrow> ('x, 'f, 'e) traversal" where
  "processIncomingNode fuel g = process_node g (processUTXO fuel g)"

text \<open>One call of \<^verbatim>\<open>ProcessUTXOToCompletion\<close> by the goroutine that owns the outpoint.\<close>

definition ProcessUTXOToCompletion :: "nat \<Rightarrow> ('x, 'f, 'e) GASP \<Rightarrow> Outpoint \<Rightarrow> Outpoint option \<Rightarrow> Outpoint list \<Rightarrow>
    ('x, 'f, 'e gasp_error, 'e gasp_error + unit) em" where
  "ProcessUTXOToCompletion fuel g outpoint spentBy seen =
     ebind (processUTXO fuel g outpoint spentBy (Some outpoint) seen) (\<lambda>(_, r).
       case r of
         Inl e \<Rightarrow> ebind (eignore (lower (gs_DiscardGraph (g_Storage g) (Some outpoint)))) (\<lambda>_. eret (Inl e))
       | Inr _ \<Rightarrow> eret (Inr ()))"

section \<open>Sending nodes\<close>

primrec processOutgoingNode :: "nat \<Rightarrow> ('x, 'f, 'e) GASP \<Rightarrow> Node option \<Rightarrow> Outpoint list \<Rightarrow> ('x, 'f, 'e) traversal" where
  "processOutgoingNode 0 g node seen = eret (seen, Inl GaspDepth)"
| "processOutgoingNode (Suc fuel) g node seen =
     (if g_Unidirectional g then eret (seen, Inr ())
      else case node of
        None \<Rightarrow> eret (seen, Inl ErrNodeNilInProcessOutgoingNode)
      | Some n \<Rightarrow>
          (case computeTxID g (n_RawTx n) of
             Inl e \<Rightarrow> eret (seen, Inl e)
           | Inr txid \<Rightarrow>
               let nodeID = \<lparr>op_Txid = txid, op_Index = n_OutputIndex n\<rparr> in
               if nodeID \<in> set seen then eret (seen, Inr ())
               else attempt (rm_SubmitNode (g_Remote g) n) (\<lambda>e. eret (nodeID # seen, Inl e)) (\<lambda>response.
                 ebind (erange (g_seed g) (case response of None \<Rightarrow> [] | Some rq \<Rightarrow> rq)) (\<lambda>order.
                   efold (\<lambda>(outpoint, metadata) (sn, acc).
                     attempt (gs_HydrateGASPNode (g_Storage g) (n_GraphID n) outpoint metadata) (\<lambda>_. eret (sn, acc)) (\<lambda>hydrated.
                       ebind (processOutgoingNode fuel g hydrated sn) (\<lambda>(sn', r). eret (sn', keep_depth acc r))))
                     order (nodeID # seen, Inr ())))))"

section \<open>Synchronisation of a page\<close>

text \<open>
  The loop over the page: the last interaction score, the outpoints known to both sides and the queue of
  outputs to ingest. Reading past the answer of \<^verbatim>\<open>HasOutputs\<close> panics.
\<close>

fun plan_page :: "Output list \<Rightarrow> bool list \<Rightarrow> float64 \<times> Outpoint list \<times> Output list \<Rightarrow>
    'e gasp_error + float64 \<times> Outpoint list \<times> Output list" where
  "plan_page [] hs acc = Inr acc"
| "plan_page (utxo # us) [] acc = Inl GaspPanic"
| "plan_page (utxo # us) (has # hs) (latest, shared, ingest) =
     (let latest' = (if float_greater (o_Score utxo) latest then o_Score utxo else latest); outpoint = output_point utxo in
      if has then plan_page us hs (latest', outpoint # shared, ingest)
      else if outpoint \<in> set shared then plan_page us hs (latest', shared, ingest)
      else plan_page us hs (latest', shared, ingest @ [utxo]))"

definition ingest_page :: "nat \<Rightarrow> ('x, 'f, 'e) GASP \<Rightarrow> Output list \<Rightarrow> Outpoint list \<Rightarrow>
    ('x, 'f, 'e gasp_error, Outpoint list \<times> 'e gasp_error option) em" where
  "ingest_page fuel g ingestQueue shared =
     efold (\<lambda>utxo (sh, err).
       ebind (ProcessUTXOToCompletion fuel g (output_point utxo) None []) (\<lambda>r.
         case r of
           Inl e \<Rightarrow> eret (sh, if err = None then Some e else err)
         | Inr _ \<Rightarrow> eret (output_point utxo # sh, err))) ingestQueue (shared, None)"

definition reply_page :: "nat \<Rightarrow> ('x, 'f, 'e) GASP \<Rightarrow> Output list \<Rightarrow> ('x, 'f, 'e gasp_error, unit) em" where
  "reply_page fuel g replyUTXOs =
     eforeach (\<lambda>utxo.
       attempt (gs_HydrateGASPNode (g_Storage g) (Some (output_point utxo)) (output_point utxo) True) (\<lambda>_. eret ()) (\<lambda>outgoingNode.
         case outgoingNode of
           None \<Rightarrow> eret ()
         | Some node \<Rightarrow> ebind (processOutgoingNode fuel g (Some node) []) (\<lambda>_. eret ()))) replyUTXOs"

text \<open>The processing of the queue and, unless the exchange is unidirectional, the reply.\<close>

definition after_plan :: "nat \<Rightarrow> ('x, 'f, 'e) GASP \<Rightarrow> InitialResponse \<Rightarrow> float64 \<times> Outpoint list \<times> Output list \<Rightarrow>
    ('x, 'f, 'e gasp_error, float64 \<times> ('e gasp_error + unit)) em" where
  "after_plan fuel g resp = (\<lambda>(latest, shared, ingestQueue).
     ebind (ingest_page fuel g ingestQueue shared) (\<lambda>(shared', err).
       case err of
         Some e \<Rightarrow> eret (latest, Inl e)
       | None \<Rightarrow>
           if g_Unidirectional g then eret (latest, Inr ())
           else
             attempt (gs_FindKnownUTXOs (g_Storage g) (resp_Since resp) 0) (\<lambda>e. eret (latest, Inl e)) (\<lambda>localUTXOs.
               ebind (reply_page fuel g (filter (\<lambda>u. output_point u \<notin> set shared') localUTXOs)) (\<lambda>_. eret (latest, Inr ())))))"

text \<open>The new last interaction score, which also a failed page moves, and the result.\<close>

definition Sync :: "nat \<Rightarrow> ('x, 'f, 'e) GASP \<Rightarrow> u32 \<Rightarrow> ('x, 'f, 'e gasp_error, float64 \<times> ('e gasp_error + unit)) em" where
  "Sync fuel g limit =
     (let since = g_LastInteraction g in
      attempt (rm_GetInitialResponse (g_Remote g) \<lparr>req_Version = g_Version g, req_Since = since, req_Limit = limit\<rparr>)
        (\<lambda>e. eret (since, Inl e)) (\<lambda>initialResponse.
      if resp_UTXOList initialResponse = [] then eret (since, Inr ())
      else
        attempt (gs_HasOutputs (g_Storage g) (map output_point (resp_UTXOList initialResponse))) (\<lambda>e. eret (since, Inl e)) (\<lambda>hasOutputs.
        case plan_page (resp_UTXOList initialResponse) hasOutputs (since, [], []) of
          Inl e \<Rightarrow> eret (since, Inl e)
        | Inr plan \<Rightarrow> after_plan fuel g initialResponse plan)))"

lemma attempt_Inr:
  "attempt m failed ok s = (Inr y, t) \<longleftrightarrow>
     (\<exists>e s'. m s = (Inl e, s') \<and> failed (Lower e) s' = (Inr y, t)) \<or> (\<exists>x s'. m s = (Inr x, s') \<and> ok x s' = (Inr y, t))"
proof -
  obtain r s' where "m s = (r, s')" by (rule prod.exhaust)
  then show ?thesis by (cases r) (auto simp: attempt_def etry_def lower_def ebind_def)
qed

text \<open>A root that was processed without an error was completed.\<close>

lemma processed_root:
  assumes "processUTXO fuel g op None gid seen s = (Inr (seen', Inr ()), t)"
  obtains s' where "CompleteGraph g gid s' = (Inr (), t)"
proof (cases fuel)
  case 0
  with assms show thesis by simp
next
  case (Suc k)
  with assms obtain aa ba s2 where "(case ba of Inl e \<Rightarrow> eret (aa, Inl e)
      | Inr (_ :: unit) \<Rightarrow> ebind (etry (CompleteGraph g gid)) (\<lambda>c. eret (aa, c))) s2 = (Inr (seen', Inr ()), t)"
    by (auto simp: attempt_Inr ebind_Inr)
  then have "etry (CompleteGraph g gid) s2 = (Inr (Inr ()), t)"
    by (cases ba) (auto simp: ebind_Inr)
  then show thesis by (intro that[of s2]) (auto simp: etry_def prod_eq_iff)
qed

section \<open>Traversals always return\<close>

lemma avoids_etry [avoids_intros]: "avoids e (etry m)"
  by (simp add: avoids_def etry_def)

lemma avoids_eignore [avoids_intros]: "avoids e (eignore m)"
  by (simp add: avoids_def eignore_def)

lemma avoids_attempt [avoids_intros]:
  assumes "\<And>x. avoids e (failed (Lower x))" "\<And>x. avoids e (ok x)"
  shows "avoids e (attempt m failed ok)"
  unfolding avoids_def
proof
  fix s
  obtain r t where "m s = (r, t)" by (rule prod.exhaust)
  then have "attempt m failed ok s = (case r of Inl x \<Rightarrow> failed (Lower x) t | Inr x \<Rightarrow> ok x t)"
    by (cases r) (simp_all add: attempt_def etry_def lower_def ebind_def)
  then show "fst (attempt m failed ok s) \<noteq> Inl e" using assms unfolding avoids_def by (cases r) (metis sum.case)+
qed

lemma avoids_case_prod [avoids_intros]: "(\<And>y z. avoids e (f y z)) \<Longrightarrow> avoids e (case x of (y, z) \<Rightarrow> f y z)"
  by (cases x) simp

lemma avoids_case_prod2 [avoids_intros]: "(\<And>y z. avoids e (f y z a)) \<Longrightarrow> avoids e ((case x of (y, z) \<Rightarrow> f y z) a)"
  by (cases x) simp

lemma avoids_process_node:
  "(\<And>op sb gid sn. avoids e (dep op sb gid sn)) \<Longrightarrow> avoids e (process_node g dep node spentBy seen)"
  unfolding process_node_def Let_def by (cases "computeTxID g (n_RawTx node)") (auto intro!: avoids_intros)

lemma avoids_processUTXO: "avoids e (processUTXO fuel g op spentBy gid seen)"
proof (induction fuel arbitrary: op spentBy gid seen)
  case (Suc fuel)
  show ?case
    unfolding processUTXO.simps
    by (intro avoids_attempt avoids_eret avoids_ebind[OF avoids_process_node[OF Suc.IH]] avoids_case_prod)
       (auto intro!: avoids_intros split: sum.split)
qed (auto intro: avoids_intros)

lemma processUTXO_returns: obtains seen' r t where "processUTXO fuel g op spentBy gid seen s = (Inr (seen', r), t)"
proof -
  obtain x t where x: "processUTXO fuel g op spentBy gid seen s = (x, t)" by (rule prod.exhaust)
  have "x \<noteq> Inl e" for e using avoids_processUTXO[of e fuel g op spentBy gid seen] x unfolding avoids_def by (metis fst_conv)
  then show thesis using x that by (metis prod.exhaust sum.exhaust)
qed

section \<open>What a traversal needs of its storage\<close>

text \<open>
  The graphs a storage holds, as a set of their ids: discarding a graph removes it, validating and
  finalising create none. Validation has no effects, and what finalisation does satisfies \<open>P\<close>.
\<close>

locale graph_store =
  fixes st :: "('x, 'f, 'e) gasp_storage" and held :: "'x \<Rightarrow> Outpoint set" and P :: "'f \<Rightarrow> bool"
  assumes discard_held: "gs_DiscardGraph st (Some g) (w, l) = (r, (w', l')) \<Longrightarrow> held w' = held w - {g} \<and> l' = l"
    and validate_held: "gs_ValidateGraphAnchor st gid (w, l) = (r, (w', l')) \<Longrightarrow> held w' = held w \<and> l' = l"
    and finalize_held: "gs_FinalizeGraph st gid (w, l) = (r, (w', l')) \<Longrightarrow> held w' = held w"
    and finalize_effects: "emits P (gs_FinalizeGraph st gid)"
begin

lemma discard_run:
  assumes "eignore (lower (gs_DiscardGraph st (Some g))) (w, l) = (r, (w', l'))"
  shows "held w' = held w - {g} \<and> l' = l \<and> r = Inr ()"
  using assms discard_held[of g w l "fst (gs_DiscardGraph st (Some g) (w, l))" w' l']
  by (auto simp: eignore_def lower_def split: prod.splits)

lemma complete_run:
  assumes "CompleteGraph gasp (Some g) (w, l) = (r, (w', l'))" "g_Storage gasp = st"
  shows "held w' = held w - {g} \<and>
    (\<exists>new. l' = l @ new \<and> list_all P new \<and>
      (new \<noteq> [] \<or> r = Inr () \<longrightarrow> fst (gs_ValidateGraphAnchor st (Some g) (w, l)) = Inr ())) \<and>
    (r = Inr () \<longrightarrow> fst (gs_FinalizeGraph st (Some g) (snd (gs_ValidateGraphAnchor st (Some g) (w, l)))) = Inr ())"
proof -
  obtain rv w1 l1 where v: "gs_ValidateGraphAnchor st (Some g) (w, l) = (rv, (w1, l1))" by (metis prod.exhaust)
  have v1: "held w1 = held w" "l1 = l" using validate_held[OF v] by auto
  show ?thesis
  proof (cases rv)
    case (Inl e)
    obtain rd w2 l2 where d: "eignore (lower (gs_DiscardGraph st (Some g))) (w1, l1) =
      ((rd :: 'e gasp_error + unit), (w2, l2))" by (metis prod.exhaust)
    have "r = Inl (Lower e) \<and> w' = w2 \<and> l' = l2"
      using assms v Inl d by (auto simp: CompleteGraph_def attempt_def etry_def lower_def ebind_def efail_def eignore_def split: prod.splits)
    with discard_run[OF d] v1 show ?thesis by simp
  next
    case (Inr u)
    obtain rf w2 l2 where f: "gs_FinalizeGraph st (Some g) (w1, l1) = (rf, (w2, l2))" by (metis prod.exhaust)
    obtain new where new: "l2 = l1 @ new" "list_all P new" using emitsD[OF finalize_effects f] by auto
    obtain rd w3 l3 where d: "eignore (lower (gs_DiscardGraph st (Some g))) (w2, l2) =
      ((rd :: 'e gasp_error + unit), (w3, l3))" by (metis prod.exhaust)
    have run: "w' = w3 \<and> l' = l3 \<and> r = map_error Lower rf"
      using assms v Inr f d by (cases rf) (auto simp: CompleteGraph_def attempt_def etry_def lower_def ebind_def efail_def eignore_def split: prod.splits)
    have "held w3 = held w - {g}" "l3 = l @ new" using discard_run[OF d] finalize_held[OF f] v1 new by auto
    with run new v Inr f show ?thesis by auto
  qed
qed

text \<open>After a root was processed its graph is gone, whatever happened on the way.\<close>

lemma processed_run:
  assumes "ProcessUTXOToCompletion fuel gasp g None seen (w, l) = (r, (w', l'))" "g_Storage gasp = st"
  shows "g \<notin> held w'"
proof -
  obtain seen' res w1 l1 where p: "processUTXO fuel gasp g None (Some g) seen (w, l) = (Inr (seen', res), (w1, l1))"
    by (rule processUTXO_returns[of fuel gasp g None "Some g" seen "(w, l)"]) (metis prod.exhaust)
  show ?thesis
  proof (cases res)
    case (Inl e)
    obtain rd w2 l2 where d: "eignore (lower (gs_DiscardGraph st (Some g))) (w1, l1) =
      ((rd :: 'e gasp_error + unit), (w2, l2))" by (metis prod.exhaust)
    have "w' = w2" using assms p Inl d by (auto simp: ProcessUTXOToCompletion_def ebind_def eret_def eignore_def)
    with discard_run[OF d] show ?thesis by simp
  next
    case (Inr u)
    then have "w' = w1" using assms p by (auto simp: ProcessUTXOToCompletion_def ebind_def eret_def)
    moreover have "g \<notin> held w1"
    proof -
      from Inr p obtain s2 where c: "CompleteGraph gasp (Some g) s2 = (Inr (), (w1, l1))" by (auto elim: processed_root)
      then show ?thesis using complete_run[OF _ assms(2), of g "fst s2" "snd s2"] by auto
    qed
    ultimately show ?thesis by simp
  qed
qed

end

section \<open>The engine's storage\<close>

definition overlay_storage :: "('w, 'b) OverlayGASPStorage \<Rightarrow> (graphs \<times> 'w, effect, graph_error) gasp_storage" where
  "overlay_storage s =
     \<lparr>gs_FindKnownUTXOs = FindKnownUTXOs s, gs_HasOutputs = HasOutputs s,
      gs_HydrateGASPNode = (\<lambda>gid outpoint metadata. ebind (HydrateGASPNode s gid outpoint metadata) (\<lambda>n. eret (Some n))),
      gs_FindNeededInputs = (\<lambda>node. ebind (FindNeededInputs s node) (\<lambda>rq. eret (Some rq))),
      gs_AppendToGraph = AppendToGraph s, gs_ValidateGraphAnchor = ValidateGraphAnchor s, gs_DiscardGraph = DiscardGraph,
      gs_FinalizeGraph = FinalizeGraph s\<rparr>"

definition held_graphs :: "graphs \<times> 'w \<Rightarrow> Outpoint set" where
  "held_graphs x = dom (map_of (fst x))"

interpretation overlay_store: graph_store "overlay_storage s" held_graphs quiet for s
proof
  show "held_graphs w' = held_graphs w - {g} \<and> l' = l" if "gs_DiscardGraph (overlay_storage s) (Some g) (w, l) = (r, (w', l'))" for g w l r w' l'
    using that by (cases w) (auto simp: overlay_storage_def DiscardGraph_def ebind_def get_graphs_def put_graphs_def held_graphs_def
        AList.delete_conv' split: if_splits)
  show "held_graphs w' = held_graphs w \<and> l' = l" if "gs_ValidateGraphAnchor (overlay_storage s) gid (w, l) = (r, (w', l'))" for gid w l r w' l'
  proof -
    have v: "ValidateGraphAnchor s gid (w, l) = (r, (w', l'))" using that by (simp add: overlay_storage_def)
    moreover have "fst w' = fst w" using v keepsD[OF keeps_ValidateGraphAnchor, of s gid "fst w" "snd w" l r "fst w'" "snd w'" l'] by simp
    ultimately show ?thesis using emits_nothing[OF silent_ValidateGraphAnchor v] by (simp add: held_graphs_def)
  qed
  show "held_graphs w' = held_graphs w" if "gs_FinalizeGraph (overlay_storage s) gid (w, l) = (r, (w', l'))" for gid w l r w' l'
    using that keepsD[OF keeps_FinalizeGraph, of s gid "fst w" "snd w" l r "fst w'" "snd w'" l'] by (simp add: overlay_storage_def held_graphs_def)
  show "emits quiet (gs_FinalizeGraph (overlay_storage s) gid)" for gid
    by (simp add: overlay_storage_def quiet_FinalizeGraph)
qed

text \<open>C11: completing a graph on the engine's storage is safe: the engine is touched only when the anchor of the graph was
  validated, nothing that is done reaches the network (no broadcast, no propagation, no admission callback), and
  the temporary graph is discarded, and only that graph, whether the completion succeeds or fails.\<close>

theorem CompleteGraph_safe:
  assumes "g_Storage gasp = overlay_storage s" "CompleteGraph gasp (Some root) ((gs, w), log) = (r, ((gs', w'), log'))"
  shows "dom (map_of gs') = dom (map_of gs) - {root} \<and>
    (\<exists>new. log' = log @ new \<and> list_all (\<lambda>f. \<not> network_effect f) new \<and>
      (new \<noteq> [] \<or> r = Inr () \<longrightarrow> fst (ValidateGraphAnchor s (Some root) ((gs, w), log)) = Inr ()))"
  using overlay_store.complete_run[OF assms(2,1)]
  by (auto simp: held_graphs_def overlay_storage_def quiet_def[abs_def])

text \<open>C34: processing a root never leaves its temporary graph behind: after the call, with whatever result and whatever the
  peer answered, the storage holds no graph of that root.\<close>

theorem ProcessUTXOToCompletion_discards:
  assumes "g_Storage gasp = overlay_storage s"
    and "ProcessUTXOToCompletion fuel gasp root None seen ((gs, w), log) = (r, ((gs', w'), log'))"
  shows "root \<notin> dom (map_of gs')"
  using overlay_store.processed_run[OF assms(2,1)] by (simp add: held_graphs_def)

section \<open>Depth of a traversal\<close>

text \<open>The outpoint of a node, when its transaction is readable.\<close>

definition node_outpoint :: "('x, 'f, 'e) GASP \<Rightarrow> Node \<Rightarrow> Outpoint option" where
  "node_outpoint g node = (case computeTxID g (n_RawTx node) of
     Inl _ \<Rightarrow> None | Inr txid \<Rightarrow> Some \<lparr>op_Txid = txid, op_Index = n_OutputIndex node\<rparr>)"

text \<open>Every node the peer serves is one of \<open>U\<close>.\<close>

definition serves :: "('x, 'f, 'e) GASP \<Rightarrow> Outpoint set \<Rightarrow> bool" where
  "serves g U \<longleftrightarrow> (\<forall>gid op s node t o1. rm_RequestNode (g_Remote g) gid op True s = (Inr node, t) \<longrightarrow>
     node_outpoint g node = Some o1 \<longrightarrow> o1 \<in> U)"

lemma computeTxID_depth: "computeTxID g raw \<noteq> Inl GaspDepth"
  by (auto simp: computeTxID_def split: if_splits parsed.splits)

lemma process_node_depth:
  assumes run: "process_node g dep node spentBy seen s = (Inr (seen', r), t)"
    and dep: "\<And>op sb gid sn s sn' r t. dep op sb gid sn s = (Inr (sn', r), t) \<Longrightarrow> card (U - set sn) < k \<Longrightarrow>
      set sn \<subseteq> set sn' \<and> r \<noteq> Inl GaspDepth"
    and U: "finite U" "\<And>o1. node_outpoint g node = Some o1 \<Longrightarrow> o1 \<in> U" "card (U - set seen) < Suc k"
  shows "set seen \<subseteq> set seen' \<and> r \<noteq> Inl GaspDepth"
proof (cases "computeTxID g (n_RawTx node)")
  case (Inl e)
  with run computeTxID_depth[of g "n_RawTx node"] show ?thesis by (auto simp: process_node_def)
next
  case (Inr txid)
  define o1 where "o1 = \<lparr>op_Txid = txid, op_Index = n_OutputIndex node\<rparr>"
  have "o1 \<in> U" using U(2) Inr by (simp add: node_outpoint_def o1_def)
  show ?thesis
  proof (cases "o1 \<in> set seen")
    case True
    with run Inr show ?thesis by (simp add: process_node_def o1_def)
  next
    case False
    have "U - set seen = insert o1 (U - insert o1 (set seen))" using \<open>o1 \<in> U\<close> False by auto
    then have small: "card (U - insert o1 (set seen)) < k" using U(1,3) by (metis Diff_iff card_insert_disjoint finite_Diff insertI1 not_less_eq)
    from run Inr False consider e where "seen' = o1 # seen" "r = Inl (Lower e)"
      | needed s2 where "ebind (erange (g_seed g) (needed :: requested)) (\<lambda>order. efold (\<lambda>(outpoint, _) (sn, acc).
            ebind (dep outpoint (Some o1) (n_GraphID node) sn) (\<lambda>(sn', r). eret (sn', keep_depth acc r))) order (o1 # seen, Inr ())) s2
          = (Inr (seen', r), t)"
      by (auto simp: process_node_def o1_def[symmetric] Let_def attempt_Inr)
    then show ?thesis
    proof cases
      case 1
      then show ?thesis by auto
    next
      case 2
      then obtain order s3 where loop: "efold (\<lambda>(outpoint, _ :: bool) (sn, acc).
            ebind (dep outpoint (Some o1) (n_GraphID node) sn) (\<lambda>(sn', r). eret (sn', keep_depth acc r))) order (o1 # seen, Inr ()) s3
          = (Inr (seen', r), t)" by (auto simp: ebind_Inr)
      let ?I = "\<lambda>(sn, acc) (_ :: 'b \<times> 'c list). insert o1 (set seen) \<subseteq> set sn \<and> acc \<noteq> Inl GaspDepth"
      have "?I (seen', r) t"
        using loop
      proof (rule efold_invariant[where I = ?I])
        fix x a s a' t
        assume x: "?I a s" "(case x of (outpoint, _) \<Rightarrow> \<lambda>(sn, acc).
            ebind (dep outpoint (Some o1) (n_GraphID node) sn) (\<lambda>(sn', r). eret (sn', keep_depth acc r))) a s = (Inr a', t)"
        obtain sn acc where a: "a = (sn, acc)" by (rule prod.exhaust)
        with x(2) obtain sn' r' s' where d: "dep (fst x) (Some o1) (n_GraphID node) sn s = (Inr (sn', r'), s')" "a' = (sn', keep_depth acc r')"
          by (auto simp: ebind_Inr split: prod.splits)
        have "card (U - set sn) \<le> card (U - insert o1 (set seen))" using x(1) a U(1) by (intro card_mono) auto
        with dep[OF d(1)] small have "set sn \<subseteq> set sn' \<and> r' \<noteq> Inl GaspDepth" by simp
        with x(1) a d(2) show "?I a' t" by (auto simp: keep_depth_def)
      qed auto
      then show ?thesis by auto
    qed
  qed
qed

lemma CompleteGraph_depth: "CompleteGraph g gid s = (r, t) \<Longrightarrow> r \<noteq> Inl GaspDepth"
proof
  assume run: "CompleteGraph g gid s = (r, t)" and r: "r = Inl GaspDepth"
  have "avoids GaspDepth (CompleteGraph g gid)"
    unfolding CompleteGraph_def by (intro avoids_intros) simp_all
  with run r show False unfolding avoids_def by (metis fst_conv)
qed

lemma processUTXO_depth:
  assumes "finite U" "serves g U"
  shows "processUTXO fuel g op spentBy gid seen s = (Inr (seen', r), t) \<Longrightarrow> card (U - set seen) < fuel \<Longrightarrow>
    set seen \<subseteq> set seen' \<and> r \<noteq> Inl GaspDepth"
proof (induction fuel arbitrary: op spentBy gid seen s seen' r t)
  case 0
  then show ?case by simp
next
  case (Suc k)
  from Suc.prems(1) consider e where "seen' = seen" "r = Inl (Lower e)"
    | node s1 sn rr s2 where "rm_RequestNode (g_Remote g) gid op True s = (Inr node, s1)"
        "process_node g (processUTXO k g) node spentBy seen s1 = (Inr (sn, rr), s2)"
        "(case rr of Inl e \<Rightarrow> eret (sn, Inl e) | Inr (_ :: unit) \<Rightarrow>
             if spentBy = None then ebind (etry (CompleteGraph g gid)) (\<lambda>c. eret (sn, c))
             else eret (sn, Inr ())) s2 = (Inr (seen', r), t)"
    by (auto simp: attempt_Inr ebind_Inr)
  then show ?case
  proof cases
    case 1
    then show ?thesis by simp
  next
    case 2
    have "o1 \<in> U" if "node_outpoint g node = Some o1" for o1 using assms(2) 2(1) that unfolding serves_def by blast
    then have sn: "set seen \<subseteq> set sn \<and> rr \<noteq> Inl GaspDepth"
      using Suc.IH Suc.prems(2) by (intro process_node_depth[OF 2(2) _ assms(1), where k = k]) blast+
    have "fst (CompleteGraph g gid s2) \<noteq> Inl GaspDepth" using CompleteGraph_depth[OF surjective_pairing] by blast
    with 2(3) sn show ?thesis by (cases rr) (auto simp: ebind_Inr etry_def split: if_splits)
  qed
qed

text \<open>C35: a traversal ends when the peer can serve only finitely many different outputs: the nodes already seen stop the
  recursion, so that a depth of one more than the outputs not yet seen is never exceeded and every level returns. This
  holds also for answers with cycles or repeated nodes.\<close>

theorem processUTXO_terminates:
  assumes "finite U" "serves g U" "card (U - set seen) < fuel"
  shows "\<exists>seen' r t. processUTXO fuel g outpoint spentBy graphID seen s = (Inr (seen', r), t) \<and> r \<noteq> Inl GaspDepth"
proof -
  obtain seen' r t where run: "processUTXO fuel g outpoint spentBy graphID seen s = (Inr (seen', r), t)" by (rule processUTXO_returns)
  with processUTXO_depth[OF assms(1,2) run assms(3)] show ?thesis by blast
qed

section \<open>Concrete runs\<close>

text \<open>A peer that serves one node, on the storage of the demonstration engine.\<close>

definition demo_root :: Outpoint where
  "demo_root = \<lparr>op_Txid = replicate 32 9, op_Index = 0\<rparr>"

definition demo_served :: Node where
  "demo_served = (demo_node 0)\<lparr>n_RawTx := replicate 10 1\<rparr>"

definition demo_gasp :: "(graphs \<times> unit, effect, graph_error) GASP" where
  "demo_gasp = \<lparr>g_Version = 1,
     g_Remote = \<lparr>rm_GetInitialResponse = \<lambda>_. eret \<lparr>resp_UTXOList = [\<lparr>o_Txid = replicate 32 9, o_OutputIndex = 0, o_Score = 5\<rparr>], resp_Since = 0\<rparr>,
       rm_RequestNode = \<lambda>_ _ _. eret demo_served, rm_SubmitNode = \<lambda>_. eret None\<rparr>,
     g_Storage = overlay_storage demo_graph_storage, g_LastInteraction = 0, g_Unidirectional = True,
     g_parse = \<lambda>_. Parsed (replicate 32 9), g_seed = \<lambda>w. ([], w)\<rparr>"

lemma demo_gasp_storage: "g_Storage demo_gasp = overlay_storage demo_graph_storage"
  by (simp add: demo_gasp_def)

theorem CompleteGraph_safe_witness:
  "fst (CompleteGraph demo_gasp (Some demo_root) ((demo_graphs, ()), [])) = Inr () \<and>
   demo_root \<in> dom (map_of demo_graphs) \<and>
   demo_root \<notin> dom (map_of (fst (fst (snd (CompleteGraph demo_gasp (Some demo_root) ((demo_graphs, ()), []))))))"
proof (intro conjI)
  obtain r gs w log where run: "CompleteGraph demo_gasp (Some demo_root) ((demo_graphs, ()), []) = (r, ((gs, w), log))" by (metis prod.exhaust)
  from CompleteGraph_safe[OF demo_gasp_storage run] run
  show "demo_root \<notin> dom (map_of (fst (fst (snd (CompleteGraph demo_gasp (Some demo_root) ((demo_graphs, ()), []))))))" by simp
  have "(case map_of demo_graphs demo_root of None \<Rightarrow> False | Some _ \<Rightarrow> True)" by code_simp
  then show "demo_root \<in> dom (map_of demo_graphs)" by (auto split: option.splits)
qed code_simp

theorem ProcessUTXOToCompletion_discards_witness:
  "fst (ProcessUTXOToCompletion 5 demo_gasp demo_root None [] (([], ()), [])) = Inr (Inr ()) \<and>
   demo_root \<notin> dom (map_of (fst (fst (snd (ProcessUTXOToCompletion 5 demo_gasp demo_root None [] (([], ()), []))))))"
proof
  obtain r gs w log where run: "ProcessUTXOToCompletion 5 demo_gasp demo_root None [] (([], ()), []) = (r, ((gs, w), log))" by (metis prod.exhaust)
  from ProcessUTXOToCompletion_discards[OF demo_gasp_storage run] run
  show "demo_root \<notin> dom (map_of (fst (fst (snd (ProcessUTXOToCompletion 5 demo_gasp demo_root None [] (([], ()), []))))))" by simp
  show "fst (ProcessUTXOToCompletion 5 demo_gasp demo_root None [] (([], ()), [])) = Inr (Inr ())" by code_simp
qed

theorem processUTXO_terminates_witness:
  "\<exists>seen' r t. processUTXO 2 demo_gasp demo_root None (Some demo_root) [] (([], ()), []) = (Inr (seen', r), t) \<and> r \<noteq> Inl GaspDepth"
proof (rule processUTXO_terminates[where U = "{demo_root}"])
  show "serves demo_gasp {demo_root}"
    by (auto simp: serves_def demo_gasp_def demo_served_def demo_node_def node_outpoint_def computeTxID_def demo_root_def)
qed simp_all

section \<open>The page\<close>

lemma plan_page_append_ok:
  "length hs = length us \<Longrightarrow> \<exists>latest' shared' ingest'. plan_page us hs (latest, shared, ingest) = Inr (latest', shared', ingest')"
  by (induction us hs "(latest, shared, ingest)" arbitrary: latest shared ingest rule: plan_page.induct) (auto simp: Let_def)

lemma plan_page_sets:
  assumes "plan_page us hs (latest, shared, ingest) = (Inr (latest', shared', ingest') :: 'e gasp_error + _)"
  shows "set shared' = set shared \<union> {output_point u | u. (u, True) \<in> set (zip us hs)} \<and>
    (\<exists>more. ingest' = ingest @ more \<and> set more \<subseteq> set us \<and>
      (\<forall>u. (u, False) \<in> set (zip us hs) \<longrightarrow> output_point u \<in> set shared' \<or> u \<in> set more) \<and>
      (\<forall>u \<in> set more. (u, False) \<in> set (zip us hs) \<and> output_point u \<notin> set shared))"
  using assms
proof (induction us arbitrary: hs latest shared ingest)
  case (Cons utxo us)
  then obtain h0 hs' where hs: "hs = h0 # hs'" by (cases hs) auto
  have "plan_page us hs' (if float_greater (o_Score utxo) latest then o_Score utxo else latest,
      if h0 then output_point utxo # shared else shared,
      if h0 \<or> output_point utxo \<in> set shared then ingest else ingest @ [utxo]) = (Inr (latest', shared', ingest') :: 'e gasp_error + _)"
    using Cons.prems unfolding hs by (simp add: Let_def split: if_splits)
  note IH = Cons.IH[OF this]
  from IH obtain more where more: "ingest' = (if h0 \<or> output_point utxo \<in> set shared then ingest else ingest @ [utxo]) @ more"
    "set more \<subseteq> set us" "\<forall>u. (u, False) \<in> set (zip us hs') \<longrightarrow> output_point u \<in> set shared' \<or> u \<in> set more"
    "\<forall>u \<in> set more. (u, False) \<in> set (zip us hs') \<and> output_point u \<notin> set (if h0 then output_point utxo # shared else shared)"
    by blast
  have sh: "set shared' = set (if h0 then output_point utxo # shared else shared) \<union> {output_point u | u. (u, True) \<in> set (zip us hs')}"
    using IH by (rule conjunct1)
  then have "set shared' = set shared \<union> {output_point u | u. (u, True) \<in> set (zip (utxo # us) (h0 # hs'))}" by auto
  moreover have "\<exists>more. ingest' = ingest @ more \<and> set more \<subseteq> set (utxo # us) \<and>
      (\<forall>u. (u, False) \<in> set (zip (utxo # us) (h0 # hs')) \<longrightarrow> output_point u \<in> set shared' \<or> u \<in> set more) \<and>
      (\<forall>u \<in> set more. (u, False) \<in> set (zip (utxo # us) (h0 # hs')) \<and> output_point u \<notin> set shared)"
    using more sh
    by (intro exI[of _ "(if h0 \<or> output_point utxo \<in> set shared then [] else [utxo]) @ more"]) (auto split: if_splits)
  ultimately show ?case unfolding hs by blast
qed simp

lemma float_greater_trans: "float_greater a b \<Longrightarrow> \<not> float_greater c b \<Longrightarrow> \<not> float_greater c a"
  by (auto simp: float_greater_def)

lemma plan_page_latest:
  assumes "plan_page us hs (latest, shared, ingest) = Inr (latest', shared', ingest')"
  shows "(latest' = latest \<or> float_greater latest' latest \<and> latest' \<in> o_Score ` set us) \<and> (\<forall>u \<in> set us. \<not> float_greater (o_Score u) latest')"
  using assms
proof (induction us hs "(latest, shared, ingest)" arbitrary: latest shared ingest rule: plan_page.induct)
  case (3 utxo us has hs latest shared ingest)
  define l where "l = (if float_greater (o_Score utxo) latest then o_Score utxo else latest)"
  have IH: "(latest' = l \<or> float_greater latest' l \<and> latest' \<in> o_Score ` set us) \<and> (\<forall>u \<in> set us. \<not> float_greater (o_Score u) latest')"
    using 3 by (auto simp: Let_def l_def split: if_splits)
  have "\<not> float_greater (o_Score utxo) l" by (auto simp: l_def float_greater_def)
  with IH have "\<not> float_greater (o_Score utxo) latest'" using float_greater_trans by blast
  with IH show ?case by (auto simp: l_def float_greater_def split: if_splits)
qed auto

text \<open>The plan of a page is right: with one answer per output it never fails; an output is queued for ingestion only when the
  storage lacks it, and every output it lacks is queued unless its outpoint was reported as held in the same
  page; the score to continue from is the greatest of the old one and those of the page, where a score that is not
  a number never counts, so that the cursor never moves backwards.\<close>

theorem plan_page_correct:
  assumes "length has = length page"
  shows "\<exists>latest shared ingest. plan_page page has (since, [], []) = (Inr (latest, shared, ingest) :: 'e gasp_error + _) \<and>
    set shared = {output_point u | u. (u, True) \<in> set (zip page has)} \<and>
    (\<forall>u. u \<in> set ingest \<longrightarrow> (u, False) \<in> set (zip page has)) \<and>
    (\<forall>u. (u, False) \<in> set (zip page has) \<longrightarrow> u \<in> set ingest \<or> output_point u \<in> set shared) \<and>
    (latest = since \<or> float_greater latest since \<and> latest \<in> o_Score ` set page) \<and>
    (\<forall>u. u \<in> set page \<longrightarrow> \<not> float_greater (o_Score u) latest)"
proof -
  obtain latest shared ingest where plan: "plan_page page has (since, [], []) = (Inr (latest, shared, ingest) :: 'e gasp_error + _)"
    using plan_page_append_ok[OF assms] by blast
  from plan_page_sets[OF plan] plan_page_latest[OF plan] plan show ?thesis
    by (intro exI[of _ latest] exI[of _ shared] exI[of _ ingest]) auto
qed

theorem plan_page_correct_witness:
  "\<exists>latest shared ingest.
     plan_page [\<lparr>o_Txid = [], o_OutputIndex = 0, o_Score = 4611686018427387904\<rparr>, \<lparr>o_Txid = [], o_OutputIndex = 1, o_Score = 9221120237041090560\<rparr>]
       [True, False] (0, [], []) = (Inr (latest, shared, ingest) :: unit gasp_error + _) \<and> latest = 4611686018427387904 \<and> length ingest = 1"
proof -
  let ?page = "[\<lparr>o_Txid = [], o_OutputIndex = 0, o_Score = 4611686018427387904\<rparr>, \<lparr>o_Txid = [], o_OutputIndex = 1, o_Score = 9221120237041090560\<rparr>]"
  obtain latest shared ingest where "plan_page ?page [True, False] (0, [], []) = (Inr (latest, shared, ingest) :: unit gasp_error + _)"
    using plan_page_correct[of "[True, False]" ?page 0] by auto
  moreover have "(case (plan_page ?page [True, False] (0, [], []) :: unit gasp_error + _) of Inl _ \<Rightarrow> False
    | Inr (latest, shared, ingest) \<Rightarrow> latest = 4611686018427387904 \<and> length ingest = 1)" by code_simp
  ultimately show ?thesis by auto
qed

text \<open>The synchronisation itself never moves its cursor backwards.\<close>

lemma after_plan_cursor: "after_plan fuel g resp (latest, shared, queue) s = (Inr (latest', r), t) \<Longrightarrow> latest' = latest"
  unfolding after_plan_def by (auto simp: ebind_Inr attempt_Inr split: option.split_asm if_splits)

lemma Sync_cursor:
  fixes g :: "('x, 'f, 'e) GASP"
  assumes "Sync fuel g limit s = (Inr (latest, r), t)"
  shows "latest = g_LastInteraction g \<or> float_greater latest (g_LastInteraction g)"
proof -
  from assms consider "latest = g_LastInteraction g"
    | resp has s1 where "(case plan_page (resp_UTXOList resp) has (g_LastInteraction g, [], []) of
          Inl e \<Rightarrow> eret (g_LastInteraction g, Inl e) | Inr plan \<Rightarrow> after_plan fuel g resp plan) s1 = (Inr (latest, r), t)"
    unfolding Sync_def Let_def attempt_Inr by (auto simp: attempt_Inr split: if_splits)
  then show ?thesis
  proof cases
    case 2
    show ?thesis
    proof (cases "plan_page (resp_UTXOList resp) has (g_LastInteraction g, [], []) :: 'e gasp_error + _")
      case (Inl e)
      with 2 show ?thesis by simp
    next
      case (Inr plan)
      obtain l sh q where plan: "plan = (l, sh, q)" by (metis prod.exhaust)
      with 2 Inr have "latest = l" using after_plan_cursor by (metis (no_types, lifting) sum.case(2))
      with plan_page_latest[OF Inr[unfolded plan]] show ?thesis by blast
    qed
  qed simp
qed

section \<open>Submitted nodes\<close>

text \<open>
  A node submitted by a peer: the engine's storage always answers with a response, so the graph is
  completed and discarded at once, also when the answer still asks for inputs.
\<close>

lemma SubmitNode_discards:
  assumes "g_Storage gasp = overlay_storage s" "n_GraphID node = Some gid"
    and "SubmitNode gasp node ((gs, w), log) = (Inr requested, ((gs', w'), log'))"
  shows "gid \<notin> dom (map_of gs')"
proof -
  from assms(1,3) obtain x where "CompleteGraph gasp (n_GraphID node) x = (Inr (), ((gs', w'), log'))"
    by (auto simp: SubmitNode_def ebind_Inr lower_def overlay_storage_def split: if_splits prod.split_asm)
  then obtain gs0 w0 l0 where "CompleteGraph gasp (Some gid) ((gs0, w0), l0) = (Inr (), ((gs', w'), log'))"
    using assms(2) by (metis prod.exhaust)
  from overlay_store.complete_run[OF this assms(1)] show ?thesis by (simp add: held_graphs_def)
qed

end
