(* ===== verification/Engine_Merkle.thy ===== *)
theory Engine_Merkle
  imports Engine_Submit
begin

text \<open>
  New Merkle proofs, the part of \<^verbatim>\<open>pkg/core/engine/engine.go\<close> from \<open>updateInputProofs\<close> to \<open>findBlockIdx\<close>:
  validating a proof against the chain tracker, attaching it to the stored transactions and to
  every transaction that descends from them, and telling the lookup services. The outputs a
  storage call returns do not share their BEEF. The walk over the consumers is bounded by \<open>fuel\<close>;
  \<open>HandleNewMerkleProof_terminates\<close> shows how much is enough.
\<close>

section \<open>Attaching a proof\<close>

abbreviation attach_path :: "MerklePath \<Rightarrow> Tx \<Rightarrow> Tx" where
  "attach_path proof tx \<equiv> Tx (tx_Version tx) (tx_Inputs tx) (tx_Outputs tx) (tx_LockTime tx) (Some proof)"

fun updateInputProofs :: "'b sdk_tx \<Rightarrow> hash \<Rightarrow> MerklePath \<Rightarrow> Tx \<Rightarrow> engine_error + Tx"
and update_inputs :: "'b sdk_tx \<Rightarrow> hash \<Rightarrow> MerklePath \<Rightarrow> TxInput list \<Rightarrow> engine_error + TxInput list" where
  "updateInputProofs s txid proof (Tx v ins outs lt mp) =
     (if mp \<noteq> None then Inr (Tx v ins outs lt (Some proof))
      else if TxID s (Tx v ins outs lt mp) = txid then Inr (Tx v ins outs lt (Some proof))
      else rbind (update_inputs s txid proof ins) (\<lambda>ins'. Inr (Tx v ins' outs lt mp)))"
| "update_inputs s txid proof [] = Inr []"
| "update_inputs s txid proof (TxInput sid idx us sn None # ins) = Inl ErrMissingSourceTransaction"
| "update_inputs s txid proof (TxInput sid idx us sn (Some src) # ins) =
     rbind (updateInputProofs s txid proof src) (\<lambda>src'.
     rbind (update_inputs s txid proof ins) (\<lambda>ins'. Inr (TxInput sid idx us sn (Some src') # ins')))"

definition isMerkleRootUnchanged :: "'b sdk_tx \<Rightarrow> Tx \<Rightarrow> hash \<Rightarrow> MerklePath \<Rightarrow> engine_error + bool" where
  "isMerkleRootUnchanged s tx txid proof =
     (case tx_MerklePath tx of
        None \<Rightarrow> Inr False
      | Some old \<Rightarrow> rbind (ComputeRoot s old (Some txid)) (\<lambda>oldRoot.
          rbind (ComputeRoot s proof (Some txid)) (\<lambda>newRoot. Inr (oldRoot = newRoot))))"

definition rebuildBeefFromTx :: "'b sdk_tx \<Rightarrow> Tx \<Rightarrow> engine_error + 'b" where
  "rebuildBeefFromTx s tx =
     rbind (TxAtomicBEEF s tx) (\<lambda>atomicBytes. rbind (ParseBeef s atomicBytes) (\<lambda>(updatedBeef, _, _). Inr updatedBeef))"

text \<open>The first leaf of the lowest level with the given hash; a nil leaf and a path without levels panic.\<close>

fun leaf_offset :: "hash \<Rightarrow> PathElement option list \<Rightarrow> engine_error + u64 option" where
  "leaf_offset txid [] = Inr None"
| "leaf_offset txid (None # leaves) = Inl Panic"
| "leaf_offset txid (Some leaf # leaves) =
     (if pe_Hash leaf = Some txid then Inr (Some (pe_Offset leaf)) else leaf_offset txid leaves)"

definition findBlockIdx :: "MerklePath \<Rightarrow> hash \<Rightarrow> engine_error + u64 option" where
  "findBlockIdx proof txid = (case mp_Path proof of [] \<Rightarrow> Inl Panic | leaves # _ \<Rightarrow> leaf_offset txid leaves)"

definition updateOutputBlockInfo :: "'b EOutput \<Rightarrow> MerklePath \<Rightarrow> engine_error + 'b EOutput" where
  "updateOutputBlockInfo o1 proof =
     (let o2 = o1\<lparr>eo_BlockHeight := mp_BlockHeight proof\<rparr> in
      case mp_Path proof of
        [] \<Rightarrow> Inl Panic
      | leaves # _ \<Rightarrow> rbind (leaf_offset (op_Txid (eo_Outpoint o1)) leaves) (\<lambda>found.
          case found of None \<Rightarrow> Inr o2 | Some offset \<Rightarrow> Inr (o2\<lparr>eo_BlockIdx := offset\<rparr>)))"

definition consumingAlreadyMined :: "'b sdk_tx \<Rightarrow> 'b EOutput \<Rightarrow> bool" where
  "consumingAlreadyMined s o1 =
     (case eo_Beef o1 of
        None \<Rightarrow> False
      | Some beef \<Rightarrow>
          (case FindTransactionForSigningByHash s beef (op_Txid (eo_Outpoint o1)) of
             None \<Rightarrow> False
           | Some tx \<Rightarrow> tx_MerklePath tx \<noteq> None))"

text \<open>The consumers of an output; \<open>update\<close> is the recursive call of \<open>updateMerkleProof\<close>.\<close>

definition propagateMerkleProofToConsumers :: "('b EOutput \<Rightarrow> ('w, 'b EOutput) eng) \<Rightarrow> ('w, 'b) Engine \<Rightarrow>
    Outpoint list \<Rightarrow> ('w, unit) eng" where
  "propagateMerkleProofToConsumers update e consumedBy =
     eforeach (\<lambda>outpoint.
       ebind (eread (st_FindOutputsForTransaction (en_Storage e) (op_Txid outpoint) True)) (\<lambda>consumingOutputs.
         eforeach (\<lambda>consuming.
           if consumingAlreadyMined (sdk_of e) consuming then eret () else ebind (update consuming) (\<lambda>_. eret ()))
           consumingOutputs)) consumedBy"

text \<open>The output is returned with its block position, which the caller stores.\<close>

primrec updateMerkleProof :: "nat \<Rightarrow> ('w, 'b) Engine \<Rightarrow> hash \<Rightarrow> MerklePath \<Rightarrow> 'b EOutput \<Rightarrow> ('w, 'b EOutput) eng" where
  "updateMerkleProof 0 e txid proof o1 = efail NoFuel"
| "updateMerkleProof (Suc fuel) e txid proof o1 =
     (case eo_Beef o1 of
        None \<Rightarrow> efail ErrMissingBeef
      | Some beef \<Rightarrow>
     (case FindTransactionForSigningByHash (sdk_of e) beef (op_Txid (eo_Outpoint o1)) of
        None \<Rightarrow> efail ErrMissingTransaction
      | Some tx \<Rightarrow>
          ebind (elift (isMerkleRootUnchanged (sdk_of e) tx txid proof)) (\<lambda>unchanged.
          if unchanged then eret o1
          else
            ebind (elift (updateInputProofs (sdk_of e) txid proof tx)) (\<lambda>tx'.
            ebind (elift (rebuildBeefFromTx (sdk_of e) tx')) (\<lambda>updatedBeef.
            ebind (elift (updateOutputBlockInfo o1 proof)) (\<lambda>o2.
            ebind (ecall (SetBEEF (op_Txid (eo_Outpoint o1)))
                     (st_UpdateTransactionBEEF (en_Storage e) (op_Txid (eo_Outpoint o1)) updatedBeef)) (\<lambda>_.
            ebind (propagateMerkleProofToConsumers (updateMerkleProof fuel e txid proof) e (eo_ConsumedBy o2)) (\<lambda>_.
              eret o2))))))))"

section \<open>A new proof\<close>

definition validateMerkleProof :: "('w, 'b) Engine \<Rightarrow> hash \<Rightarrow> MerklePath \<Rightarrow> ('w, unit) eng" where
  "validateMerkleProof e txid proof =
     ebind (elift (ComputeRoot (sdk_of e) proof (Some txid))) (\<lambda>merkleRoot.
     ebind (eread (en_IsValidRootForHeight e merkleRoot (mp_BlockHeight proof))) (\<lambda>valid.
       if \<not> valid then efail ErrInvalidMerkleProof else eret ()))"

definition apply_proof :: "nat \<Rightarrow> ('w, 'b) Engine \<Rightarrow> hash \<Rightarrow> MerklePath \<Rightarrow> 'b EOutput \<Rightarrow> ('w, unit) eng" where
  "apply_proof fuel e txid proof o1 =
     ebind (updateMerkleProof fuel e txid proof o1) (\<lambda>o2.
       ecall (SetBlockHeight (eo_Outpoint o2) (eo_Topic o2) (eo_BlockHeight o2) (eo_BlockIdx o2))
         (st_UpdateOutputBlockHeight (en_Storage e) (eo_Outpoint o2) (eo_Topic o2) (eo_BlockHeight o2) (eo_BlockIdx o2)))"

definition notify_height :: "('w, 'b) Engine \<Rightarrow> hash \<Rightarrow> u32 \<Rightarrow> u64 \<Rightarrow> ('w, unit) eng" where
  "notify_height e txid height idx =
     ebind (getLookupServicesSnapshot e) (\<lambda>ls.
       eforeach (\<lambda>l. ecall (NotifyHeight txid height idx) (ls_OutputBlockHeightUpdated l txid height idx)) ls)"

definition HandleNewMerkleProof :: "nat \<Rightarrow> ('w, 'b) Engine \<Rightarrow> hash \<Rightarrow> MerklePath \<Rightarrow> ('w, unit) eng" where
  "HandleNewMerkleProof fuel e txid proof =
     ebind (validateMerkleProof e txid proof) (\<lambda>_.
     ebind (eread (st_FindOutputsForTransaction (en_Storage e) txid True)) (\<lambda>outputs.
     if outputs = [] then eret ()
     else
       ebind (elift (findBlockIdx proof txid)) (\<lambda>blockIdx.
       case blockIdx of
         None \<Rightarrow> efail (OtherError ''not found in proof'')
       | Some idx \<Rightarrow>
           ebind (eforeach (apply_proof fuel e txid proof) outputs) (\<lambda>_.
             notify_height e txid (mp_BlockHeight proof) idx))))"

section \<open>Where a proof is attached\<close>

text \<open>
  The SDK hashes the serialised transaction: the id depends neither on the Merkle path nor on the
  source transactions that the inputs link to.
\<close>

abbreviation input_fields :: "TxInput \<Rightarrow> hash \<times> u32 \<times> byte list option \<times> u32" where
  "input_fields i \<equiv> (in_SourceTXID i, in_SourceTxOutIndex i, in_UnlockingScript i, in_SequenceNumber i)"

definition id_of_bytes :: "'b sdk_tx \<Rightarrow> bool" where
  "id_of_bytes s \<longleftrightarrow> (\<forall>v ins ins' outs lt mp mp'. map input_fields ins = map input_fields ins' \<longrightarrow>
     TxID s (Tx v ins outs lt mp) = TxID s (Tx v ins' outs lt mp'))"

text \<open>
  The nearest ancestors, through the source transactions, that are proven or have the given id;
  and whether every line of ancestors ends in one.
\<close>

fun frontier :: "'b sdk_tx \<Rightarrow> hash \<Rightarrow> Tx \<Rightarrow> Tx list"
and frontier_inputs :: "'b sdk_tx \<Rightarrow> hash \<Rightarrow> TxInput list \<Rightarrow> Tx list" where
  "frontier s txid (Tx v ins outs lt mp) =
     (if mp \<noteq> None \<or> TxID s (Tx v ins outs lt mp) = txid then [Tx v ins outs lt mp] else frontier_inputs s txid ins)"
| "frontier_inputs s txid [] = []"
| "frontier_inputs s txid (TxInput sid idx us sn None # ins) = frontier_inputs s txid ins"
| "frontier_inputs s txid (TxInput sid idx us sn (Some src) # ins) = frontier s txid src @ frontier_inputs s txid ins"

fun anchored :: "'b sdk_tx \<Rightarrow> hash \<Rightarrow> Tx \<Rightarrow> bool"
and anchored_inputs :: "'b sdk_tx \<Rightarrow> hash \<Rightarrow> TxInput list \<Rightarrow> bool" where
  "anchored s txid (Tx v ins outs lt mp) \<longleftrightarrow>
     mp \<noteq> None \<or> TxID s (Tx v ins outs lt mp) = txid \<or> anchored_inputs s txid ins"
| "anchored_inputs s txid [] \<longleftrightarrow> True"
| "anchored_inputs s txid (TxInput sid idx us sn None # ins) \<longleftrightarrow> False"
| "anchored_inputs s txid (TxInput sid idx us sn (Some src) # ins) \<longleftrightarrow> anchored s txid src \<and> anchored_inputs s txid ins"

lemma update_succeeds:
  shows "(\<exists>tx'. updateInputProofs s txid proof tx = Inr tx') \<longleftrightarrow> anchored s txid tx"
    and "(\<exists>ins'. update_inputs s txid proof ins = Inr ins') \<longleftrightarrow> anchored_inputs s txid ins"
  by (induction s txid "proof" tx and s txid "proof" ins rule: updateInputProofs_update_inputs.induct)
     (auto simp: rbind_Inr_iff)

lemma update_errors:
  shows "updateInputProofs s txid proof tx = Inl err \<Longrightarrow> err = ErrMissingSourceTransaction"
    and "update_inputs s txid proof ins = Inl err \<Longrightarrow> err = ErrMissingSourceTransaction"
  by (induction s txid "proof" tx and s txid "proof" ins rule: updateInputProofs_update_inputs.induct)
     (auto simp: rbind_Inl_iff split: if_splits)

lemma update_frontier:
  assumes "id_of_bytes s"
  shows "updateInputProofs s txid proof tx = Inr tx' \<Longrightarrow>
      frontier s txid tx' = map (attach_path proof) (frontier s txid tx) \<and> TxID s tx' = TxID s tx"
    and "update_inputs s txid proof ins = Inr ins' \<Longrightarrow>
      frontier_inputs s txid ins' = map (attach_path proof) (frontier_inputs s txid ins) \<and> map input_fields ins' = map input_fields ins"
  using assms
proof (induction s txid "proof" tx and s txid "proof" ins arbitrary: tx' and ins' rule: updateInputProofs_update_inputs.induct)
  case (1 s txid pf v ins outs lt mp)
  show ?case
  proof (cases "mp \<noteq> None \<or> TxID s (Tx v ins outs lt mp) = txid")
    case True
    then have "tx' = Tx v ins outs lt (Some pf)" using "1.prems"(1) by (auto split: if_splits)
    moreover have "TxID s (Tx v ins outs lt (Some pf)) = TxID s (Tx v ins outs lt mp)"
      using "1.prems"(2) unfolding id_of_bytes_def by blast
    ultimately show ?thesis using True by simp
  next
    case False
    then obtain ins' where ins': "update_inputs s txid pf ins = Inr ins'" "tx' = Tx v ins' outs lt mp"
      using "1.prems"(1) by (auto simp: rbind_Inr_iff split: if_splits)
    have IH: "frontier_inputs s txid ins' = map (attach_path pf) (frontier_inputs s txid ins)"
      "map input_fields ins' = map input_fields ins"
      using "1.IH"[OF _ _ ins'(1) "1.prems"(2)] False by auto
    moreover have "TxID s (Tx v ins' outs lt mp) = TxID s (Tx v ins outs lt mp)"
      using "1.prems"(2) IH(2) unfolding id_of_bytes_def by blast
    ultimately show ?thesis using ins'(2) False by auto
  qed
qed (auto simp: rbind_Inr_iff)

text \<open>C37: attaching a proof succeeds exactly when every line of ancestors of the transaction ends in a
  proven transaction or in the one the proof is for. It then puts the new path on all of these
  nearest ancestors, on those that already carried a path of their own as well, and keeps the rest.\<close>

theorem updateInputProofs_frontier:
  assumes "id_of_bytes s"
  shows "if anchored s txid tx
    then \<exists>tx'. updateInputProofs s txid proof tx = Inr tx' \<and> TxID s tx' = TxID s tx \<and>
      frontier s txid tx' = map (attach_path proof) (frontier s txid tx)
    else updateInputProofs s txid proof tx = Inl ErrMissingSourceTransaction"
proof (cases "anchored s txid tx")
  case True
  then obtain tx' where "updateInputProofs s txid proof tx = Inr tx'" using update_succeeds(1) by blast
  with True update_frontier(1)[OF assms this] show ?thesis by auto
next
  case False
  then have "\<not> (\<exists>tx'. updateInputProofs s txid proof tx = Inr tx')" using update_succeeds(1) by blast
  then obtain err where "updateInputProofs s txid proof tx = Inl err" by (metis sum.exhaust)
  with False update_errors(1) show ?thesis by auto
qed

text \<open>
  An unmined transaction that spends two others: the first was mined earlier and has its own path, the
  second receives a proof now. Afterwards both carry the proof of the second.
\<close>

definition tagged_sdk :: "Tx sdk_tx" where
  "tagged_sdk = demo_sdk\<lparr>TxID := \<lambda>tx. replicate 32 (ucast (tx_Version tx))\<rparr>"

definition path_at :: "u32 \<Rightarrow> MerklePath" where
  "path_at h = \<lparr>mp_BlockHeight = h, mp_Path = [[Some \<lparr>pe_Offset = 0, pe_Hash = Some (replicate 32 (ucast h)), pe_Txid = Some True, pe_Duplicate = None\<rparr>]]\<rparr>"

definition mined_parent :: Tx where
  "mined_parent = Tx 5 [] [] 0 (Some (path_at 5))"

definition fresh_parent :: Tx where
  "fresh_parent = Tx 6 [] [] 0 None"

definition child :: Tx where
  "child = Tx 7 [TxInput (TxID tagged_sdk mined_parent) 0 None 0 (Some mined_parent),
     TxInput (TxID tagged_sdk fresh_parent) 0 None 0 (Some fresh_parent)] [] 0 None"

theorem updateInputProofs_frontier_witness:
  "\<exists>tx'. updateInputProofs tagged_sdk (TxID tagged_sdk fresh_parent) (path_at 6) child = Inr tx' \<and>
     map tx_MerklePath (frontier tagged_sdk (TxID tagged_sdk fresh_parent) child) = [Some (path_at 5), None] \<and>
     map tx_MerklePath (frontier tagged_sdk (TxID tagged_sdk fresh_parent) tx') = [Some (path_at 6), Some (path_at 6)]"
proof -
  have ok: "id_of_bytes tagged_sdk" by (simp add: id_of_bytes_def tagged_sdk_def)
  have f: "frontier tagged_sdk (TxID tagged_sdk fresh_parent) child = [mined_parent, fresh_parent]" by code_simp
  have "anchored tagged_sdk (TxID tagged_sdk fresh_parent) child" by code_simp
  with updateInputProofs_frontier[OF ok, of "TxID tagged_sdk fresh_parent" child "path_at 6"] f show ?thesis
    by (auto simp: mined_parent_def fresh_parent_def)
qed

section \<open>What a new proof changes\<close>

fun proof_update :: "effect \<Rightarrow> bool" where
  "proof_update (SetBEEF _) \<longleftrightarrow> True"
| "proof_update (SetBlockHeight _ _ _ _) \<longleftrightarrow> True"
| "proof_update _ \<longleftrightarrow> False"

lemma emits_updateMerkleProof [emits_intros]: "emits proof_update (updateMerkleProof fuel e txid pf o1)"
proof (induction fuel arbitrary: o1)
  case 0
  then show ?case by (simp add: emits_efail)
next
  case (Suc fuel)
  show ?case unfolding updateMerkleProof.simps propagateMerkleProofToConsumers_def
    by (intro emits_intros Suc) simp
qed

lemma emits_apply_proof [emits_intros]: "emits proof_update (apply_proof fuel e txid pf o1)"
  unfolding apply_proof_def by (intro emits_intros) simp

lemma emits_validateMerkleProof [emits_intros]: "emits P (validateMerkleProof e txid pf)"
  unfolding validateMerkleProof_def by (intro emits_intros)

lemma emits_notify_height: "emits (\<lambda>f. f = NotifyHeight txid h idx) (notify_height e txid h idx)"
  unfolding notify_height_def by (intro emits_intros) simp

lemma validateMerkleProof_run:
  assumes "validateMerkleProof e txid pf s = (Inr u, t)"
  shows "\<exists>root. ComputeRoot (sdk_of e) pf (Some txid) = Inr root \<and>
    en_IsValidRootForHeight e root (mp_BlockHeight pf) (fst s) = (Inr True, fst t) \<and> snd t = snd s"
  using assms by (auto simp: validateMerkleProof_def ebind_Inr eread_Inr split: if_splits)

text \<open>
  What storage learns about one output: its position in the block of the proof, or what it
  already held when the transaction has a path with the same root.
\<close>

definition refreshed :: "('w, 'b) Engine \<Rightarrow> hash \<Rightarrow> MerklePath \<Rightarrow> 'b EOutput \<Rightarrow> 'b EOutput \<Rightarrow> bool" where
  "refreshed e txid pf o1 o2 \<longleftrightarrow>
     (\<exists>beef tx. eo_Beef o1 = Some beef \<and>
        FindTransactionForSigningByHash (sdk_of e) beef (op_Txid (eo_Outpoint o1)) = Some tx \<and>
        (if isMerkleRootUnchanged (sdk_of e) tx txid pf = Inr True then o2 = o1
         else updateOutputBlockInfo o1 pf = Inr o2))"

lemma updateMerkleProof_refreshed:
  "updateMerkleProof fuel e txid pf o1 s = (Inr o2, t) \<Longrightarrow> refreshed e txid pf o1 o2"
  by (cases fuel) (auto simp: refreshed_def ebind_Inr split: option.splits if_splits)

lemma refreshed_outpoint: "refreshed e txid pf o1 o2 \<Longrightarrow> eo_Outpoint o2 = eo_Outpoint o1 \<and> eo_Topic o2 = eo_Topic o1"
  by (auto simp: refreshed_def updateOutputBlockInfo_def Let_def rbind_Inr_iff split: if_splits list.splits option.splits)

lemma apply_proof_run:
  assumes "apply_proof fuel e txid pf o1 s = (Inr u, t)"
  shows "\<exists>o2 l. refreshed e txid pf o1 o2 \<and>
    snd t = snd s @ l @ [SetBlockHeight (eo_Outpoint o1) (eo_Topic o1) (eo_BlockHeight o2) (eo_BlockIdx o2)]"
proof -
  obtain o2 s' where m: "updateMerkleProof fuel e txid pf o1 s = (Inr o2, s')"
    and c: "snd t = snd s' @ [SetBlockHeight (eo_Outpoint o2) (eo_Topic o2) (eo_BlockHeight o2) (eo_BlockIdx o2)]"
    using assms by (auto simp: apply_proof_def ebind_Inr ecall_Inr)
  obtain l where "snd s' = snd s @ l" using emitsD[OF emits_updateMerkleProof m] by blast
  with c refreshed_outpoint[OF updateMerkleProof_refreshed[OF m]] updateMerkleProof_refreshed[OF m] show ?thesis by auto
qed

lemma apply_all_run:
  assumes "eforeach (apply_proof fuel e txid pf) os s = (Inr u, t)"
  shows "\<exists>l. snd t = snd s @ l \<and> list_all proof_update l \<and>
    (\<forall>o1 \<in> set os. \<exists>o2. refreshed e txid pf o1 o2 \<and>
       SetBlockHeight (eo_Outpoint o1) (eo_Topic o1) (eo_BlockHeight o2) (eo_BlockIdx o2) \<in> set l)"
  using assms
proof (induction os arbitrary: s)
  case Nil
  then show ?case by simp
next
  case (Cons o1 os)
  then obtain v s' where m: "apply_proof fuel e txid pf o1 s = (Inr v, s')" "eforeach (apply_proof fuel e txid pf) os s' = (Inr u, t)"
    by (auto simp: ebind_Inr)
  obtain l1 where l1: "snd s' = snd s @ l1" "list_all proof_update l1" using emitsD[OF emits_apply_proof m(1)] by blast
  obtain o2 k where k: "refreshed e txid pf o1 o2" "snd s' = snd s @ k @ [SetBlockHeight (eo_Outpoint o1) (eo_Topic o1) (eo_BlockHeight o2) (eo_BlockIdx o2)]"
    using apply_proof_run[OF m(1)] by blast
  have here: "SetBlockHeight (eo_Outpoint o1) (eo_Topic o1) (eo_BlockHeight o2) (eo_BlockIdx o2) \<in> set l1" using l1(1) k(2) by auto
  obtain l2 where l2: "snd t = snd s' @ l2" "list_all proof_update l2"
    "\<forall>o1 \<in> set os. \<exists>o2. refreshed e txid pf o1 o2 \<and> SetBlockHeight (eo_Outpoint o1) (eo_Topic o1) (eo_BlockHeight o2) (eo_BlockIdx o2) \<in> set l2"
    using Cons.IH[OF m(2)] by blast
  show ?case
  proof (intro exI[of _ "l1 @ l2"] conjI ballI)
    show "snd t = snd s @ l1 @ l2" using l1 l2 by simp
    show "list_all proof_update (l1 @ l2)" using l1 l2 by simp
    fix x assume "x \<in> set (o1 # os)"
    then show "\<exists>o2. refreshed e txid pf x o2 \<and> SetBlockHeight (eo_Outpoint x) (eo_Topic x) (eo_BlockHeight o2) (eo_BlockIdx o2) \<in> set (l1 @ l2)"
      using k(1) here l2(3) by auto
  qed
qed

lemma snapshot_length: "getLookupServicesSnapshot e s = (Inr ls, t) \<Longrightarrow> length ls = length (lookupServices e) \<and> snd t = snd s"
  unfolding getLookupServicesSnapshot_def
  by (erule ebind_InrE) (metis erange_Inr eret_Inr length_map size_mset sum.inject(2))

lemma notify_height_run:
  assumes "notify_height e txid h idx s = (Inr u, t)"
  shows "snd t = snd s @ replicate (length (lookupServices e)) (NotifyHeight txid h idx)"
proof -
  obtain ls s' where ls: "getLookupServicesSnapshot e s = (Inr ls, s')"
    "eforeach (\<lambda>l. ecall (NotifyHeight txid h idx) (ls_OutputBlockHeightUpdated l txid h idx)) ls s' = (Inr u, t)"
    using assms unfolding notify_height_def by (rule ebind_InrE)
  have "snd t = snd s' @ concat (map (\<lambda>_. [NotifyHeight txid h idx]) ls)"
    using ls(2) by (rule efold_log) (simp add: ecall_Inr)
  moreover have "concat (map (\<lambda>_. [NotifyHeight txid h idx]) ls) = replicate (length ls) (NotifyHeight txid h idx)"
    by (induction ls) auto
  ultimately show ?thesis using snapshot_length[OF ls(1)] by simp
qed

lemma HandleNewMerkleProof_effects:
  assumes "HandleNewMerkleProof fuel e txid pf (w, l) = (r, (w', l'))"
  shows "\<exists>ups ns. l' = l @ ups @ ns \<and> list_all proof_update ups \<and>
    (\<forall>f \<in> set ns. \<exists>idx. findBlockIdx pf txid = Inr (Some idx) \<and> f = NotifyHeight txid (mp_BlockHeight pf) idx) \<and>
    (ups @ ns \<noteq> [] \<or> r = Inr () \<longrightarrow>
       (\<exists>root. ComputeRoot (sdk_of e) pf (Some txid) = Inr root \<and>
          fst (en_IsValidRootForHeight e root (mp_BlockHeight pf) w) = Inr True))"
proof -
  let ?told = "\<lambda>f. \<exists>idx. findBlockIdx pf txid = Inr (Some idx) \<and> f = NotifyHeight txid (mp_BlockHeight pf) idx"
  let ?apply = "\<lambda>outs idx. ebind (eforeach (apply_proof fuel e txid pf) outs) (\<lambda>_. notify_height e txid (mp_BlockHeight pf) idx)"
  obtain rv w1 l1 where v: "validateMerkleProof e txid pf (w, l) = (rv, (w1, l1))" by (metis prod.exhaust)
  have l1: "l1 = l" using emits_nothing[OF emits_validateMerkleProof v] by simp
  show ?thesis
  proof (cases rv)
    case (Inl err)
    with assms v have "l' = l \<and> r \<noteq> Inr ()" using l1 by (auto simp: HandleNewMerkleProof_def ebind_def)
    then show ?thesis by (intro exI[of _ "[]"]) simp
  next
    case (Inr u)
    have valid: "\<exists>root. ComputeRoot (sdk_of e) pf (Some txid) = Inr root \<and>
        fst (en_IsValidRootForHeight e root (mp_BlockHeight pf) w) = Inr True"
      using validateMerkleProof_run v Inr by fastforce
    have told: "emits ?told (notify_height e txid (mp_BlockHeight pf) idx)" if "findBlockIdx pf txid = Inr (Some idx)" for idx
      by (rule emits_mono[OF emits_notify_height]) (use that in auto)
    obtain ro w2 l2 where f: "eread (st_FindOutputsForTransaction (en_Storage e) txid True) (w1, l1) = ((ro :: engine_error + _), (w2, l2))"
      by (metis prod.exhaust)
    then have l2: "l2 = l1" by (auto simp: eread_Inr)
    have "l' = l \<or> (\<exists>outs idx. findBlockIdx pf txid = Inr (Some idx) \<and> ?apply outs idx (w2, l2) = (r, (w', l')))"
      using assms v Inr f l1 l2
      by (auto simp: HandleNewMerkleProof_def ebind_def eret_def elift_def efail_def split: sum.splits if_splits option.splits)
    then show ?thesis
    proof (elim disjE exE conjE)
      fix outs idx assume idx: "findBlockIdx pf txid = Inr (Some idx)" and run: "?apply outs idx (w2, l2) = (r, (w', l'))"
      have "emits proof_update (eforeach (apply_proof fuel e txid pf) outs)" by (intro emits_intros)
      from ebind_phases[OF run this told[OF idx]]
      obtain ups ns where "l' = l2 @ ups @ ns" "list_all proof_update ups" "list_all ?told ns" by auto
      then show ?thesis using valid l1 l2 by (intro exI[of _ ups] exI[of _ ns]) (auto simp: list_all_iff)
    qed (use valid in \<open>auto intro!: exI[of _ "[]"]\<close>)
  qed
qed

text \<open>C4: a Merkle proof reaches storage and the lookup services only when the chain tracker accepts its root
  for its height. Storage is updated first; the lookup services are told afterwards, with the
  height of the proof and the offset its lowest level gives for the transaction.\<close>

theorem HandleNewMerkleProof_safe:
  assumes "HandleNewMerkleProof fuel e txid pf (w, l) = (r, (w', l'))"
  shows "\<exists>ups ns. l' = l @ ups @ ns \<and> list_all proof_update ups \<and>
    (\<forall>f \<in> set ns. \<exists>idx. findBlockIdx pf txid = Inr (Some idx) \<and> f = NotifyHeight txid (mp_BlockHeight pf) idx) \<and>
    (ups @ ns \<noteq> [] \<or> r = Inr () \<longrightarrow>
       (\<exists>root. ComputeRoot (sdk_of e) pf (Some txid) = Inr root \<and>
          fst (en_IsValidRootForHeight e root (mp_BlockHeight pf) w) = Inr True))"
  using assms by (rule HandleNewMerkleProof_effects)


section \<open>Termination\<close>

text \<open>
  The history of a topic is acyclic: the transactions that consume the outputs of a stored
  transaction have smaller ranks, for instance the length of the longest chain of consumers.
\<close>

definition consumers_descend :: "('w, 'b) Engine \<Rightarrow> (hash \<Rightarrow> nat) \<Rightarrow> bool" where
  "consumers_descend e rank \<longleftrightarrow>
     (\<forall>txid w outs w'. st_FindOutputsForTransaction (en_Storage e) txid True w = (Inr outs, w') \<longrightarrow>
        (\<forall>o1 \<in> set outs. \<forall>c \<in> set (eo_ConsumedBy o1). rank (op_Txid c) < rank txid))"

text \<open>The parameters never answer with the error that stands for the end of the fuel.\<close>

definition proof_fuelless :: "('w, 'b) Engine \<Rightarrow> bool" where
  "proof_fuelless e \<longleftrightarrow>
     (\<forall>p t. ComputeRoot (sdk_of e) p t \<noteq> Inl NoFuel) \<and> (\<forall>tx. TxAtomicBEEF (sdk_of e) tx \<noteq> Inl NoFuel) \<and>
     (\<forall>b. ParseBeef (sdk_of e) b \<noteq> Inl NoFuel) \<and>
     (\<forall>root h. outside_avoids NoFuel (en_IsValidRootForHeight e root h)) \<and>
     (\<forall>t b. outside_avoids NoFuel (st_FindOutputsForTransaction (en_Storage e) t b)) \<and>
     (\<forall>t b. outside_avoids NoFuel (st_UpdateTransactionBEEF (en_Storage e) t b)) \<and>
     (\<forall>op1 t h i. outside_avoids NoFuel (st_UpdateOutputBlockHeight (en_Storage e) op1 t h i)) \<and>
     (\<forall>l \<in> snd ` set (lookupServices e). \<forall>t h i. outside_avoids NoFuel (ls_OutputBlockHeightUpdated l t h i))"

lemma avoids_elift [avoids_intros]: "r \<noteq> Inl err \<Longrightarrow> avoids err (elift r)"
  by (simp add: avoids_def elift_def)

lemma leaf_offset_fuelless: "leaf_offset txid leaves \<noteq> Inl NoFuel"
  by (induction txid leaves rule: leaf_offset.induct) auto

lemma proof_steps_fuelless:
  assumes "proof_fuelless e"
  shows "isMerkleRootUnchanged (sdk_of e) tx txid pf \<noteq> Inl NoFuel" "updateInputProofs (sdk_of e) txid pf tx \<noteq> Inl NoFuel"
    "rebuildBeefFromTx (sdk_of e) tx \<noteq> Inl NoFuel" "updateOutputBlockInfo o1 pf \<noteq> Inl NoFuel" "findBlockIdx pf txid \<noteq> Inl NoFuel"
  using assms leaf_offset_fuelless update_errors(1)[of "sdk_of e" txid pf tx NoFuel]
  by (auto simp: proof_fuelless_def isMerkleRootUnchanged_def rebuildBeefFromTx_def updateOutputBlockInfo_def findBlockIdx_def
      rbind_Inl_iff Let_def split: option.splits list.splits)

lemma updateOutputBlockInfo_consumers: "updateOutputBlockInfo o1 pf = Inr o2 \<Longrightarrow> eo_ConsumedBy o2 = eo_ConsumedBy o1"
  by (auto simp: updateOutputBlockInfo_def Let_def rbind_Inr_iff split: list.splits option.splits)

lemma propagate_cong:
  assumes "\<And>c w outs w' o1. c \<in> set cs \<Longrightarrow> st_FindOutputsForTransaction (en_Storage e) (op_Txid c) True w = (Inr outs, w') \<Longrightarrow>
    o1 \<in> set outs \<Longrightarrow> update o1 = update' o1"
  shows "propagateMerkleProofToConsumers update e cs = propagateMerkleProofToConsumers update' e cs"
  unfolding propagateMerkleProofToConsumers_def
  by (intro efold_cong_set ebind_cong_run if_cong refl arg_cong[where f = "\<lambda>m. ebind m (\<lambda>_. eret ())"])
     (use assms in \<open>auto simp: eread_Inr\<close>)

lemma avoids_propagate:
  assumes "proof_fuelless e" "\<And>c w outs w' o1. c \<in> set cs \<Longrightarrow> st_FindOutputsForTransaction (en_Storage e) (op_Txid c) True w = (Inr outs, w') \<Longrightarrow>
    o1 \<in> set outs \<Longrightarrow> avoids NoFuel (update o1)"
  shows "avoids NoFuel (propagateMerkleProofToConsumers update e cs)"
  unfolding propagateMerkleProofToConsumers_def
  by (intro avoids_intros) (use assms in \<open>auto simp: eread_Inr proof_fuelless_def\<close>)

lemma avoids_update_step:
  assumes "proof_fuelless e" "\<And>c w outs w' o2. c \<in> set (eo_ConsumedBy o1) \<Longrightarrow>
    st_FindOutputsForTransaction (en_Storage e) (op_Txid c) True w = (Inr outs, w') \<Longrightarrow> o2 \<in> set outs \<Longrightarrow>
    avoids NoFuel (updateMerkleProof fuel e txid pf o2)"
  shows "avoids NoFuel (updateMerkleProof (Suc fuel) e txid pf o1)"
proof (cases "eo_Beef o1")
  case None
  then show ?thesis by (simp add: avoids_efail)
next
  case (Some beef)
  have beef: "outside_avoids NoFuel (st_UpdateTransactionBEEF (en_Storage e) t b)" for t b
    using assms(1) by (auto simp: proof_fuelless_def)
  have further: "avoids NoFuel (propagateMerkleProofToConsumers (updateMerkleProof fuel e txid pf) e (eo_ConsumedBy o2))"
    if "elift (updateOutputBlockInfo o1 pf) s = ((Inr o2 :: engine_error + _), t)" for o2 s t
    using that assms(2) updateOutputBlockInfo_consumers[of o1 pf o2] by (intro avoids_propagate assms(1)) auto
  show ?thesis
  proof (cases "FindTransactionForSigningByHash (sdk_of e) beef (op_Txid (eo_Outpoint o1))")
    case None
    with Some show ?thesis by (simp add: avoids_efail)
  next
    case (Some tx)
    with \<open>eo_Beef o1 = Some beef\<close> show ?thesis
      by (auto intro!: avoids_intros proof_steps_fuelless[OF assms(1)] beef further)
  qed
qed

lemma updateMerkleProof_fuel:
  assumes e: "consumers_descend e rank" "proof_fuelless e" and o1: "\<forall>c \<in> set (eo_ConsumedBy o1). rank (op_Txid c) < k"
  shows "avoids NoFuel (updateMerkleProof (Suc k) e txid pf o1) \<and>
    (\<forall>fuel > k. updateMerkleProof fuel e txid pf o1 = updateMerkleProof (Suc k) e txid pf o1)"
  using o1
proof (induction k arbitrary: o1 rule: less_induct)
  case (less k)
  have deeper: "avoids NoFuel (updateMerkleProof f e txid pf o2) \<and> updateMerkleProof f e txid pf o2 = updateMerkleProof k e txid pf o2"
    if "c \<in> set (eo_ConsumedBy o1)" "st_FindOutputsForTransaction (en_Storage e) (op_Txid c) True w = (Inr outs, w')"
      "o2 \<in> set outs" "k \<le> f" for c w outs w' o2 f
  proof -
    have c: "rank (op_Txid c) < k" using less.prems that(1) by blast
    have "\<forall>x \<in> set (eo_ConsumedBy o2). rank (op_Txid x) < rank (op_Txid c)"
      using e(1) that(2,3) unfolding consumers_descend_def by blast
    from less.IH[OF c this] c that(4) show ?thesis by (metis less_le_trans)
  qed
  have "avoids NoFuel (updateMerkleProof (Suc k) e txid pf o1)"
    by (intro avoids_update_step e(2)) (use deeper in blast)
  moreover have "updateMerkleProof fuel e txid pf o1 = updateMerkleProof (Suc k) e txid pf o1" if lt: "k < fuel" for fuel
  proof -
    obtain f where f: "fuel = Suc f" "k \<le> f" using lt by (cases fuel) auto
    have "propagateMerkleProofToConsumers (updateMerkleProof f e txid pf) e (eo_ConsumedBy o2) =
        propagateMerkleProofToConsumers (updateMerkleProof k e txid pf) e (eo_ConsumedBy o2)"
      if "updateOutputBlockInfo o1 pf = Inr o2" for o2
    proof (rule propagate_cong)
      fix c w outs w' o3 assume c: "c \<in> set (eo_ConsumedBy o2)"
        "st_FindOutputsForTransaction (en_Storage e) (op_Txid c) True w = (Inr outs, w')" "o3 \<in> set outs"
      from c(1) have "c \<in> set (eo_ConsumedBy o1)" by (simp add: updateOutputBlockInfo_consumers[OF that])
      from deeper[OF this c(2,3) f(2)] show "updateMerkleProof f e txid pf o3 = updateMerkleProof k e txid pf o3" ..
    qed
    then show ?thesis unfolding f(1) updateMerkleProof.simps
      by (intro option.case_cong refl ebind_cong_run if_cong) auto
  qed
  ultimately show ?case by blast
qed

lemma avoids_apply_proof:
  assumes "proof_fuelless e" "avoids NoFuel (updateMerkleProof fuel e txid pf o1)"
  shows "avoids NoFuel (apply_proof fuel e txid pf o1)"
  unfolding apply_proof_def using assms by (intro avoids_intros) (auto simp: proof_fuelless_def)

lemma avoids_notify_height:
  assumes "proof_fuelless e" shows "avoids NoFuel (notify_height e txid h idx)"
proof -
  have told: "outside_avoids NoFuel (ls_OutputBlockHeightUpdated l txid h idx)" if "l \<in> snd ` set (lookupServices e)" for l
    using assms that by (auto simp: proof_fuelless_def)
  have snap: "avoids NoFuel (getLookupServicesSnapshot e)"
    unfolding getLookupServicesSnapshot_def by (intro avoids_intros)
  show ?thesis unfolding notify_height_def by (intro avoids_intros snap, rule told, rule snapshot_member)
qed

lemma avoids_validateMerkleProof:
  assumes "proof_fuelless e" shows "avoids NoFuel (validateMerkleProof e txid pf)"
  unfolding validateMerkleProof_def using assms by (intro avoids_intros) (auto simp: proof_fuelless_def)

lemma avoids_HandleNewMerkleProof:
  assumes "proof_fuelless e" "\<And>w outs w' o1. st_FindOutputsForTransaction (en_Storage e) txid True w = (Inr outs, w') \<Longrightarrow>
    o1 \<in> set outs \<Longrightarrow> avoids NoFuel (updateMerkleProof fuel e txid pf o1)"
  shows "avoids NoFuel (HandleNewMerkleProof fuel e txid pf)"
proof -
  have found: "outside_avoids NoFuel (st_FindOutputsForTransaction (en_Storage e) txid True)"
    using assms(1) by (auto simp: proof_fuelless_def)
  have stored: "avoids NoFuel (eforeach (apply_proof fuel e txid pf) outs)"
    if "eread (st_FindOutputsForTransaction (en_Storage e) txid True) s = ((Inr outs :: engine_error + _), t)" for outs s t
    using that assms(2) by (intro avoids_efold avoids_apply_proof assms(1)) (auto simp: eread_Inr)
  have told: "avoids NoFuel (case idx of None \<Rightarrow> efail (OtherError ''not found in proof'')
      | Some i \<Rightarrow> ebind (eforeach (apply_proof fuel e txid pf) outs) (\<lambda>_. notify_height e txid (mp_BlockHeight pf) i))"
    if "eread (st_FindOutputsForTransaction (en_Storage e) txid True) s = ((Inr outs :: engine_error + _), t)" for idx outs s t
    by (cases idx) (auto intro!: avoids_efail avoids_ebind avoids_notify_height[OF assms(1)] stored[OF that])
  show ?thesis unfolding HandleNewMerkleProof_def
    by (intro avoids_ebind avoids_eread avoids_if avoids_eret avoids_elift avoids_validateMerkleProof
        proof_steps_fuelless[OF assms(1)] assms(1) found) (rule told)
qed

text \<open>C36: handling a proof terminates on every acyclic history: with ranks that decrease from a transaction to
  those that consume its outputs, recursion to the depth of the rank suffices, so that any larger
  bound gives the same run and the bound is never reached.\<close>

theorem HandleNewMerkleProof_terminates:
  assumes "consumers_descend e rank" "proof_fuelless e"
  shows "\<forall>fuel > rank txid. HandleNewMerkleProof fuel e txid pf s = HandleNewMerkleProof (Suc (rank txid)) e txid pf s \<and>
    fst (HandleNewMerkleProof fuel e txid pf s) \<noteq> Inl NoFuel"
proof (intro allI impI)
  fix fuel assume lt: "rank txid < fuel"
  have step: "avoids NoFuel (updateMerkleProof (Suc (rank txid)) e txid pf o1) \<and>
      updateMerkleProof fuel e txid pf o1 = updateMerkleProof (Suc (rank txid)) e txid pf o1"
    if "st_FindOutputsForTransaction (en_Storage e) txid True w = (Inr outs, w')" "o1 \<in> set outs" for w outs w' o1
  proof -
    have "\<forall>c \<in> set (eo_ConsumedBy o1). rank (op_Txid c) < rank txid"
      using assms(1) that unfolding consumers_descend_def by blast
    from updateMerkleProof_fuel[OF assms this, of txid pf] lt show ?thesis by blast
  qed
  have "eforeach (apply_proof fuel e txid pf) outs = eforeach (apply_proof (Suc (rank txid)) e txid pf) outs"
    if "eread (st_FindOutputsForTransaction (en_Storage e) txid True) s = ((Inr outs :: engine_error + _), t)" for outs s t
    using that step by (intro efold_cong_set) (auto simp: eread_Inr apply_proof_def)
  then have "HandleNewMerkleProof fuel e txid pf = HandleNewMerkleProof (Suc (rank txid)) e txid pf"
    unfolding HandleNewMerkleProof_def
    by (intro ebind_cong_run if_cong refl option.case_cong arg_cong[where f = "\<lambda>m. ebind m _"]) auto
  moreover have "avoids NoFuel (HandleNewMerkleProof (Suc (rank txid)) e txid pf)"
    using step by (intro avoids_HandleNewMerkleProof assms(2)) blast
  ultimately show "HandleNewMerkleProof fuel e txid pf s = HandleNewMerkleProof (Suc (rank txid)) e txid pf s \<and>
    fst (HandleNewMerkleProof fuel e txid pf s) \<noteq> Inl NoFuel"
    by (metis avoids_def)
qed

section \<open>A proof for a consumed transaction\<close>

definition proof_output :: "Tx \<Rightarrow> Outpoint list \<Rightarrow> Tx EOutput" where
  "proof_output tx consumers = (demo_output 0 [] consumers)
     \<lparr>eo_Outpoint := \<lparr>op_Txid = TxID tagged_sdk tx, op_Index = 0\<rparr>, eo_Beef := Some tx\<rparr>"

definition child_point :: Outpoint where
  "child_point = \<lparr>op_Txid = TxID tagged_sdk child, op_Index = 0\<rparr>"

definition demo_service :: "(unit, Tx) LookupService" where
  "demo_service = \<lparr>ls_OutputAdmittedByTopic = \<lambda>_ w. (Inr (), w), ls_OutputSpent = \<lambda>_ w. (Inr (), w),
     ls_OutputNoLongerRetainedInHistory = \<lambda>_ _ w. (Inr (), w), ls_OutputEvicted = \<lambda>_ w. (Inr (), w),
     ls_OutputBlockHeightUpdated = \<lambda>_ _ _ w. (Inr (), w),
     ls_Lookup = \<lambda>_ w. (Inr \<lparr>la_Type = AnswerTypeFreeform, la_Outputs = [], la_Formulas = [], la_Result = ''''\<rparr>, w),
     ls_GetDocumentation = ''doc'', ls_GetMetaData = None\<rparr>"

definition proof_engine :: "(unit, Tx) Engine" where
  "proof_engine = demo_engine\<lparr>sdk_of := tagged_sdk, lookupServices := [(''ls_a'', demo_service)],
     en_Storage := demo_storage\<lparr>st_FindOutputsForTransaction := \<lambda>txid _ w.
       (Inr (if txid = TxID tagged_sdk fresh_parent then [proof_output fresh_parent [child_point]]
             else if txid = TxID tagged_sdk child then [proof_output child []] else []), w)\<rparr>\<rparr>"

definition proof_log :: "effect list" where
  "proof_log = [SetBEEF (TxID tagged_sdk fresh_parent), SetBEEF (TxID tagged_sdk child),
     SetBlockHeight \<lparr>op_Txid = TxID tagged_sdk fresh_parent, op_Index = 0\<rparr> ''tm_a'' 6 0,
     NotifyHeight (TxID tagged_sdk fresh_parent) 6 0]"

lemma demo_proof_run:
  "HandleNewMerkleProof 2 proof_engine (TxID tagged_sdk fresh_parent) (path_at 6) ((), []) = (Inr (), ((), proof_log))"
  by code_simp

lemmas proof_engine_defs = proof_engine_def demo_defs tagged_sdk_def demo_service_def

theorem HandleNewMerkleProof_safe_witness:
  "(\<exists>ups ns. proof_log = ups @ ns \<and> list_all proof_update ups) \<and>
   (\<exists>root. ComputeRoot (sdk_of proof_engine) (path_at 6) (Some (TxID tagged_sdk fresh_parent)) = Inr root \<and>
      fst (en_IsValidRootForHeight proof_engine root 6 ()) = Inr True)"
  using HandleNewMerkleProof_safe[OF demo_proof_run] by (auto simp: path_at_def)


theorem HandleNewMerkleProof_terminates_witness:
  "HandleNewMerkleProof 1000 proof_engine (TxID tagged_sdk fresh_parent) (path_at 6) ((), []) = (Inr (), ((), proof_log))"
proof -
  let ?rank = "\<lambda>txid. if txid = TxID tagged_sdk fresh_parent then 1 else 0 :: nat"
  have "TxID tagged_sdk child \<noteq> TxID tagged_sdk fresh_parent" by code_simp
  then have "consumers_descend proof_engine ?rank"
    by (auto simp: consumers_descend_def proof_engine_def demo_storage_def proof_output_def demo_output_def child_point_def split: if_splits)
  moreover have "proof_fuelless proof_engine"
    by (auto simp: proof_fuelless_def outside_avoids_def proof_engine_defs)
  ultimately have bound: "\<forall>fuel > ?rank (TxID tagged_sdk fresh_parent).
     HandleNewMerkleProof fuel proof_engine (TxID tagged_sdk fresh_parent) (path_at 6) ((), []) =
     HandleNewMerkleProof (Suc (?rank (TxID tagged_sdk fresh_parent))) proof_engine (TxID tagged_sdk fresh_parent) (path_at 6) ((), []) \<and>
     fst (HandleNewMerkleProof fuel proof_engine (TxID tagged_sdk fresh_parent) (path_at 6) ((), [])) \<noteq> Inl NoFuel"
    by (rule HandleNewMerkleProof_terminates)
  have "?rank (TxID tagged_sdk fresh_parent) < 1000" by simp
  from conjunct1[OF mp[OF spec[OF bound] this]] demo_proof_run show ?thesis by (simp add: numeral_2_eq_2)
qed

end
