(* ===== verification/Engine_Sync.thy ===== *)
theory Engine_Sync
  imports Gasp_Sync Engine_Merkle
begin

text \<open>
  The engine's side of synchronisation (\<^verbatim>\<open>pkg/core/engine/engine.go\<close>, from \<open>SyncAdvertisements\<close> to
  \<open>syncMerkleProofFromPeers\<close>): keeping the SHIP and SLAP advertisements in step with the configuration,
  discovering peers, paging through a peer with GASP, and fetching proofs for outputs whose block was
  orphaned. The advertiser, the lookup resolver and the peers are interfaces over the outside state.
\<close>

section \<open>Advertisements\<close>

text \<open>A call whose error the code only logs; a panic and an exhausted bound are not errors of the code.\<close>

definition logged :: "('w, 'a) eng \<Rightarrow> ('w, unit) eng" where
  "logged m = ebind (etry m) (\<lambda>r. case r of Inl Panic \<Rightarrow> efail Panic | Inl NoFuel \<Rightarrow> efail NoFuel | _ \<Rightarrow> eret ())"

definition ProtocolSHIP :: string where
  "ProtocolSHIP = ''SHIP''"

definition ProtocolSLAP :: string where
  "ProtocolSLAP = ''SLAP''"

definition missing_ads :: "string \<Rightarrow> Advertisement list \<Rightarrow> string list \<Rightarrow> string list" where
  "missing_ads hostingURL current required =
     filter (\<lambda>name. \<not> list_ex (\<lambda>ad. av_TopicOrService ad = name \<and> av_Domain ad = hostingURL) current) required"

definition stale_ads :: "string list \<Rightarrow> Advertisement list \<Rightarrow> Advertisement list" where
  "stale_ads required current = filter (\<lambda>ad. av_TopicOrService ad \<notin> set required) current"

definition ad_data :: "string \<Rightarrow> string list \<Rightarrow> AdvertisementData list" where
  "ad_data protocol names = map (\<lambda>name. \<lparr>avd_Protocol = protocol, avd_TopicOrServiceName = name\<rparr>) names"

text \<open>Submits what the advertiser built; the errors of both calls are logged.\<close>

definition publish_ads :: "json_codec \<Rightarrow> nat \<Rightarrow> ('w, 'b) Engine \<Rightarrow> ('w, TaggedBEEF) eng \<Rightarrow> ('w, unit) eng" where
  "publish_ads json fuel e build =
     logged (ebind build (\<lambda>tagged.
       Submit json fuel e (tb_Beef tagged) (tb_Topics tagged) (tb_OffChainValues tagged) SubmitModeCurrent None))"

definition SyncAdvertisements :: "json_codec \<Rightarrow> nat \<Rightarrow> ('w, 'b) Engine \<Rightarrow> ('w, unit) eng" where
  "SyncAdvertisements json fuel e =
     (case en_Advertiser e of
        None \<Rightarrow> eret ()
      | Some adv \<Rightarrow>
          ebind (eread (FindAllAdvertisements adv ProtocolSHIP)) (\<lambda>currentSHIP.
          ebind (erange (range_seed e) (map fst (managers e))) (\<lambda>topics.
          ebind (eread (FindAllAdvertisements adv ProtocolSLAP)) (\<lambda>currentSLAP.
          ebind (erange (range_seed e) (map fst (lookupServices e))) (\<lambda>services.
          let advertisementData = ad_data ProtocolSHIP (missing_ads (en_HostingURL e) currentSHIP topics) @
                ad_data ProtocolSLAP (missing_ads (en_HostingURL e) currentSLAP services);
              revokeData = stale_ads topics currentSHIP @ stale_ads services currentSLAP in
          ebind (if advertisementData = [] then eret ()
                 else publish_ads json fuel e (ecall (CreateAds advertisementData) (CreateAdvertisements adv advertisementData))) (\<lambda>_.
          if revokeData = [] then eret ()
          else publish_ads json fuel e (ecall (RevokeAds revokeData) (RevokeAdvertisements adv revokeData))))))))"

section \<open>Discovery of peers\<close>

definition expectedProtocolForTopic :: "string \<Rightarrow> string option" where
  "expectedProtocolForTopic topic =
     (if topic = ''tm_ship'' then Some ProtocolSHIP else if topic = ''tm_slap'' then Some ProtocolSLAP else None)"

text \<open>The script of the advertised output; every defect of the item gives none.\<close>

definition advertised_script :: "'b sdk_tx \<Rightarrow> OutputListItem \<Rightarrow> byte list option" where
  "advertised_script s item =
     (case ParseBeef s (li_Beef item) of
        Inr (beef, _, Some txID) \<Rightarrow>
          (case FindTransactionByHash s beef txID of
             None \<Rightarrow> None
           | Some tx \<Rightarrow>
               if length (tx_Outputs tx) \<le> unat (li_OutputIndex item) then None
               else (case tx_Outputs tx ! unat (li_OutputIndex item) of
                       None \<Rightarrow> None
                     | Some txOut \<Rightarrow> to_LockingScript txOut))
      | _ \<Rightarrow> None)"

definition parseAdvertisementDomain :: "('w, 'b) Engine \<Rightarrow> OutputListItem \<Rightarrow> string \<Rightarrow> ('w, string) eng" where
  "parseAdvertisementDomain e item expectedProto =
     (case (advertised_script (sdk_of e) item, en_Advertiser e) of
        (Some script, Some adv) \<Rightarrow>
          ebind (etry (eread (ParseAdvertisement adv script))) (\<lambda>parsed.
            case parsed of
              Inr (Some advertisement) \<Rightarrow> eret (if av_Protocol advertisement = expectedProto then av_Domain advertisement else '''')
            | _ \<Rightarrow> eret '''')
      | _ \<Rightarrow> eret '''')"

definition extractPeerEndpoints :: "('w, 'b) Engine \<Rightarrow> string \<Rightarrow> OutputListItem list \<Rightarrow> ('w, string list) eng" where
  "extractPeerEndpoints e topic items =
     (case expectedProtocolForTopic topic of
        None \<Rightarrow> eret []
      | Some expectedProto \<Rightarrow>
          efold (\<lambda>item endpointSet.
            ebind (parseAdvertisementDomain e item expectedProto) (\<lambda>domain.
              eret (if domain \<noteq> '''' then List.insert domain endpointSet else endpointSet))) items [])"

text \<open>\<open>encode\<close> is the JSON encoding of the query for a topic.\<close>

definition discoverSHIPPeers :: "(string \<Rightarrow> engine_error + byte list) \<Rightarrow> ('w, 'b) Engine \<Rightarrow> string \<Rightarrow> ('w, string list) eng" where
  "discoverSHIPPeers encode e topic =
     ebind (eread (callback (lr_SetSLAPTrackers (en_LookupResolver e) (en_SLAPTrackers e)))) (\<lambda>_.
     ebind (elift (encode topic)) (\<lambda>query.
     ebind (eread (lr_Query (en_LookupResolver e) \<lparr>lq_Service = ''ls_ship'', lq_Query = query\<rparr>)) (\<lambda>lookupAnswer.
       if la_Type lookupAnswer \<noteq> AnswerTypeOutputList then eret []
       else
         ebind (extractPeerEndpoints e topic (la_Outputs lookupAnswer)) (\<lambda>endpointSet.
         ebind (erange (range_seed e) endpointSet) (\<lambda>order.
           eret (filter (\<lambda>endpoint. endpoint \<noteq> en_HostingURL e) order))))))"

section \<open>Synchronisation with a peer\<close>

text \<open>
  A peer as its HTTP endpoints behave. \<open>env_depth\<close> bounds a traversal, \<open>env_pages\<close> the loop over the pages;
  the other fields are what the temporary graphs of the session need.
\<close>

record 'w peer =
  pr_GetInitialResponse :: "InitialRequest \<Rightarrow> ('w, InitialResponse) op"
  pr_RequestNode :: "Outpoint \<Rightarrow> Outpoint \<Rightarrow> bool \<Rightarrow> ('w, Node) op"

record ('w, 'b) sync_env =
  env_peer :: "string \<Rightarrow> string \<Rightarrow> 'w peer"
  env_marshal :: "string \<Rightarrow> engine_error + byte list"
  env_graph_sdk :: "'b graph_sdk"
  env_parse :: "byte list \<Rightarrow> graph_error parsed"
  env_json :: json_codec
  env_delete :: nat
  env_hydrate :: nat
  env_depth :: nat
  env_pages :: nat

definition DefaultGASPSyncLimit :: u32 where
  "DefaultGASPSyncLimit = 1000"

text \<open>A missing graph id is the outpoint; nodes cannot be submitted over HTTP.\<close>

definition overlay_remote :: "'w peer \<Rightarrow> (graphs \<times> 'w, effect, graph_error) gasp_remote" where
  "overlay_remote p =
     \<lparr>rm_GetInitialResponse = (\<lambda>request. lift_engine (eread (pr_GetInitialResponse p request))),
      rm_RequestNode = (\<lambda>graphID outpoint metadata.
        lift_engine (eread (pr_RequestNode p (case graphID of None \<Rightarrow> outpoint | Some g \<Rightarrow> g) outpoint metadata))),
      rm_SubmitNode = (\<lambda>_. efail (EngineError (OtherError ''not-implemented'')))\<rparr>"

definition new_session :: "('w, 'b) sync_env \<Rightarrow> ('w, 'b) Engine \<Rightarrow> string \<Rightarrow> string \<Rightarrow> float64 \<Rightarrow> (graphs \<times> 'w, effect, graph_error) GASP" where
  "new_session env e topic peer lastInteraction =
     \<lparr>g_Version = 1, g_Remote = overlay_remote (env_peer env peer topic),
      g_Storage = overlay_storage \<lparr>s_Topic = topic, s_Engine = e, s_MaxNodesInGraph = None, s_parse = env_graph_sdk env,
        s_json = env_json env, s_depth = env_delete env, s_hydrate = env_hydrate env\<rparr>,
      g_LastInteraction = lastInteraction, g_Unidirectional = True, g_parse = env_parse env,
      g_seed = (\<lambda>(gs, w). case range_seed e w of (seed, w') \<Rightarrow> (seed, (gs, w')))\<rparr>"

text \<open>
  The loop over the pages: it ends with the first page that fails or does not move the cursor. The error
  of saving the cursor is logged. A traversal that panics or exhausts its bound ends the run.
\<close>

primrec sync_pages :: "nat \<Rightarrow> nat \<Rightarrow> ('w, 'b) Engine \<Rightarrow> string \<Rightarrow> string \<Rightarrow> (graphs \<times> 'w, effect, graph_error) GASP \<Rightarrow>
    (graphs \<times> 'w, effect, graph_error gasp_error, unit) em" where
  "sync_pages 0 depth e topic peer g = efail GaspDepth"
| "sync_pages (Suc pages) depth e topic peer g =
     ebind (Sync depth g DefaultGASPSyncLimit) (\<lambda>(latest, result).
       case result of
         Inl GaspDepth \<Rightarrow> efail GaspDepth
       | Inl GaspPanic \<Rightarrow> efail GaspPanic
       | Inl _ \<Rightarrow> eret ()
       | Inr _ \<Rightarrow>
           if float_greater latest (g_LastInteraction g) then
             ebind (eignore (lower (lift_engine (ecall (SetLastInteraction peer topic latest)
               (st_UpdateLastInteraction (en_Storage e) peer topic latest))))) (\<lambda>_.
               sync_pages pages depth e topic peer (g\<lparr>g_LastInteraction := latest\<rparr>))
           else eret ())"

text \<open>A session starts without temporary graphs and drops them at its end.\<close>

fun session_error :: "graph_error gasp_error \<Rightarrow> engine_error" where
  "session_error GaspDepth = NoFuel"
| "session_error GaspPanic = Panic"
| "session_error _ = OtherError ''gasp''"

definition run_session :: "(graphs \<times> 'w, effect, graph_error gasp_error, 'a) em \<Rightarrow> ('w, 'a) eng" where
  "run_session m = (\<lambda>(w, log). case m (([], w), log) of (r, ((_, w'), log')) \<Rightarrow> (map_error session_error r, (w', log')))"

definition syncWithPeer :: "('w, 'b) sync_env \<Rightarrow> ('w, 'b) Engine \<Rightarrow> string \<Rightarrow> string \<Rightarrow> ('w, unit) eng" where
  "syncWithPeer env e topic peer =
     ebind (eread (st_GetLastInteraction (en_Storage e) peer topic)) (\<lambda>lastInteraction.
       run_session (sync_pages (env_pages env) (env_depth env) e topic peer (new_session env e topic peer lastInteraction)))"

definition StartGASPSync :: "('w, 'b) sync_env \<Rightarrow> ('w, 'b) Engine \<Rightarrow> ('w, unit) eng" where
  "StartGASPSync env e =
     ebind (erange (range_seed e) (en_SyncConfiguration e)) (\<lambda>order.
       eforeach (\<lambda>(topic, syncEndpoints).
         ebind (if sc_Type syncEndpoints = SyncConfigurationSHIP then discoverSHIPPeers (env_marshal env) e topic
                else eret (sc_Peers syncEndpoints)) (\<lambda>peers.
           eforeach (syncWithPeer env e topic) peers)) order)"

section \<open>Invalidated outputs\<close>

definition groupOutpointsByTxid :: "Outpoint list \<Rightarrow> (hash \<times> Outpoint) list" where
  "groupOutpointsByTxid outpoints =
     fold (\<lambda>outpoint result. if map_of result (op_Txid outpoint) = None then result @ [(op_Txid outpoint, outpoint)] else result) outpoints []"

fun syncMerkleProofFromPeers :: "nat \<Rightarrow> ('w, 'b) sync_env \<Rightarrow> ('w, 'b) Engine \<Rightarrow> string \<Rightarrow> hash \<Rightarrow> Outpoint \<Rightarrow> string list \<Rightarrow> ('w, bool) eng" where
  "syncMerkleProofFromPeers fuel env e topic txid outpoint [] = eret False"
| "syncMerkleProofFromPeers fuel env e topic txid outpoint (peer # peers) =
     (if peer = en_HostingURL e then syncMerkleProofFromPeers fuel env e topic txid outpoint peers
      else
        ebind (etry (eread (pr_RequestNode (env_peer env peer topic) outpoint outpoint True))) (\<lambda>answer.
          case answer of
            Inl _ \<Rightarrow> syncMerkleProofFromPeers fuel env e topic txid outpoint peers
          | Inr node \<Rightarrow>
              if n_Proof node = [] then syncMerkleProofFromPeers fuel env e topic txid outpoint peers
              else (case NewMerklePathFromBinary (sdk_of e) (n_Proof node) of
                      Inl _ \<Rightarrow> syncMerkleProofFromPeers fuel env e topic txid outpoint peers
                    | Inr merklePath \<Rightarrow>
                        ebind (etry (HandleNewMerkleProof fuel e txid merklePath)) (\<lambda>handled.
                          case handled of
                            Inl Panic \<Rightarrow> efail Panic
                          | Inl NoFuel \<Rightarrow> efail NoFuel
                          | Inl _ \<Rightarrow> syncMerkleProofFromPeers fuel env e topic txid outpoint peers
                          | Inr _ \<Rightarrow> eret True))))"

definition SyncInvalidatedOutputs :: "nat \<Rightarrow> ('w, 'b) sync_env \<Rightarrow> ('w, 'b) Engine \<Rightarrow> string \<Rightarrow> ('w, unit) eng" where
  "SyncInvalidatedOutputs fuel env e topic =
     ebind (eread (st_FindOutpointsByMerkleState (en_Storage e) topic MerkleStateInvalidated 1000)) (\<lambda>invalidatedOutpoints.
       if invalidatedOutpoints = [] then eret ()
       else (case map_of (en_SyncConfiguration e) topic of
               None \<Rightarrow> eret ()
             | Some syncConfig \<Rightarrow>
                 if sc_Peers syncConfig = [] then eret ()
                 else
                   ebind (erange (range_seed e) (groupOutpointsByTxid invalidatedOutpoints)) (\<lambda>order.
                     eforeach (\<lambda>(txid, outpoint).
                       ebind (syncMerkleProofFromPeers fuel env e topic txid outpoint (sc_Peers syncConfig)) (\<lambda>_. eret ())) order)))"

section \<open>Effects of submissions and sessions\<close>

text \<open>Neither a submission nor a traversal touches advertisements or the cursors of peers.\<close>

fun plain :: "effect \<Rightarrow> bool" where
  "plain (CreateAds _) \<longleftrightarrow> False"
| "plain (RevokeAds _) \<longleftrightarrow> False"
| "plain (SetLastInteraction _ _ _) \<longleftrightarrow> False"
| "plain _ \<longleftrightarrow> True"

lemma commit_plain: "commit_effect f \<Longrightarrow> plain f"
  by (cases f) auto

lemma spend_plain: "spend_effect f \<Longrightarrow> plain f"
  by (cases f) auto

lemma plain_publishBytes [emits_intros]: "emits plain (publishBytes host bs kind)"
  unfolding publishBytes_def Let_def by (intro emits_intros) simp

lemma plain_publish_script [emits_intros]: "emits plain (publish_script host tx vout acc)"
  unfolding publish_script_def by (cases acc) (simp, intro emits_intros)

lemma plain_buildTopicDecision [emits_intros]: "emits plain (buildTopicDecision e host p tx topic admit ins idx)"
  unfolding buildTopicDecision_def admissionSpends_def Let_def by (intro emits_intros) simp_all

lemma plain_submitWithAdmission: "emits plain (submitWithAdmission json e p tx steak tis)"
proof -
  have "emits plain (buildAdmissionPlan json e host p tx steak tis)" for host
    unfolding buildAdmissionPlan_def publishAdmissionPayloads_def publish_scripts_def Let_def by (intro emits_intros)
  then show ?thesis unfolding submitWithAdmission_def
    by (auto intro!: emits_intros split: option.split AdmissionCommitState.split)
qed

lemma plain_submitLegacy: "emits plain (submitLegacy fuel e p tx st)"
proof -
  have "emits plain (after_broadcast fuel e p tx st)"
    unfolding after_broadcast_def
    by (auto intro!: emits_intros emits_mono[OF emits_commitAdmittedOutputs commit_plain])
  then show ?thesis
    unfolding submitLegacy_split
    by (intro emits_ebind[OF emits_mono[OF emits_markSpentAndNotify spend_plain]] emits_ebind[OF emits_broadcastIfNeeded]) simp_all
qed

lemma plain_Submit: "emits plain (Submit json fuel e beef topics values mode ready)"
proof -
  have "emits plain (identifyAdmissibleOutputsPerTopic e p ms ips)" for p ms ips
    by (rule emits_mono[OF emits_identify]) simp
  then have "emits plain (submitParsedBeefInternal json fuel e p)" for p
    unfolding submitParsedBeefInternal_def Let_def
    by (intro emits_intros emits_verifyTransaction plain_submitLegacy plain_submitWithAdmission)
  then show ?thesis unfolding Submit_def by (auto intro!: emits_intros split: option.split)
qed

lemma emits_logged [emits_intros]: "emits P m \<Longrightarrow> emits P (logged m)"
  unfolding logged_def by (intro emits_intros) (auto split: sum.split engine_error.split intro: emits_intros)

section \<open>Advertisements follow the configuration\<close>

fun ad_effect :: "effect \<Rightarrow> bool" where
  "ad_effect (CreateAds _) \<longleftrightarrow> True"
| "ad_effect (RevokeAds _) \<longleftrightarrow> True"
| "ad_effect _ \<longleftrightarrow> False"

lemma plain_no_ads: "list_all plain l \<Longrightarrow> filter ad_effect l = []"
  by (induction l) (auto elim: ad_effect.elims)

lemma logged_run: "logged m s = (r, t) \<Longrightarrow> t = snd (m s)"
  by (auto simp: logged_def ebind_def etry_def eret_def efail_def split: sum.splits engine_error.splits)

lemma publish_ads_run:
  assumes "publish_ads json fuel e (ecall f c) s = (r, t)"
  shows "\<exists>rest. snd t = snd s @ f # rest \<and> list_all plain rest"
proof -
  let ?submit = "\<lambda>tagged. Submit json fuel e (tb_Beef tagged) (tb_Topics tagged) (tb_OffChainValues tagged) SubmitModeCurrent None"
  obtain r1 s1 where c: "ecall f c s = (r1, s1)" by (rule prod.exhaust)
  then have s1: "snd s1 = snd s @ [f]" by (simp add: ecall_Inr)
  have t: "t = snd (ebind (ecall f c) ?submit s)" using assms unfolding publish_ads_def by (rule logged_run)
  show ?thesis
  proof (cases r1)
    case (Inl err)
    with c t have "t = s1" by (simp add: ebind_def)
    with s1 show ?thesis by simp
  next
    case (Inr tagged)
    obtain r2 s2 where run: "?submit tagged s1 = (r2, s2)" by (rule prod.exhaust)
    with c t Inr have "t = s2" by (simp add: ebind_def)
    with s1 emitsD[OF plain_Submit run] show ?thesis by auto
  qed
qed

lemma maybe_publish_run:
  assumes "(if d = [] then eret () else publish_ads json fuel e (ecall (f d) c)) s = (r, t)" "ad_effect (f d)"
  shows "\<exists>new. snd t = snd s @ new \<and> filter ad_effect new = (if d = [] then [] else [f d])"
proof (cases "d = []")
  case True
  with assms(1) show ?thesis by (auto simp: eret_def)
next
  case False
  with assms(1) have "publish_ads json fuel e (ecall (f d) c) s = (r, t)" by simp
  from publish_ads_run[OF this] obtain rest where "snd t = snd s @ f d # rest" "list_all plain rest" by blast
  with False assms(2) plain_no_ads show ?thesis by auto
qed

lemma mset_missing_ads: "mset names' = mset names \<Longrightarrow> mset (ad_data p (missing_ads url cur names')) = mset (ad_data p (missing_ads url cur names))"
  by (simp add: ad_data_def missing_ads_def)

lemma stale_ads_cong: "set names' = set names \<Longrightarrow> stale_ads names' cur = stale_ads names cur"
  by (simp add: stale_ads_def)


section \<open>Discovered peers\<close>

lemma emits_parseAdvertisementDomain [emits_intros]: "emits P (parseAdvertisementDomain e item proto)"
  unfolding parseAdvertisementDomain_def
  by (auto intro!: emits_intros split: option.split sum.split)

lemma emits_discoverSHIPPeers: "emits P (discoverSHIPPeers encode e topic)"
  unfolding discoverSHIPPeers_def extractPeerEndpoints_def by (intro emits_intros)

definition advertises :: "('w, 'b) Engine \<Rightarrow> string \<Rightarrow> string \<Rightarrow> bool" where
  "advertises e proto domain \<longleftrightarrow> (\<exists>adv script ad v v'. en_Advertiser e = Some adv \<and>
     ParseAdvertisement adv script v = (Inr (Some ad), v') \<and> av_Protocol ad = proto \<and> av_Domain ad = domain)"

lemma parseAdvertisementDomain_Inr:
  assumes "parseAdvertisementDomain e item proto s = (Inr domain, t)"
  shows "domain = '''' \<or> advertises e proto domain"
proof (cases "advertised_script (sdk_of e) item")
  case None
  with assms show ?thesis by (simp add: parseAdvertisementDomain_def)
next
  case (Some script)
  show ?thesis
  proof (cases "en_Advertiser e")
    case None
    with assms Some show ?thesis by (simp add: parseAdvertisementDomain_def)
  next
    case adv: (Some adv)
    obtain r s1 where parsed: "eread (ParseAdvertisement adv script) s = ((r :: engine_error + _), s1)" by (rule prod.exhaust)
    then have p: "ParseAdvertisement adv script (fst s) = (r, fst s1)" by (simp add: eread_Inr)
    have "(case r of Inr (Some ad) \<Rightarrow> eret (if av_Protocol ad = proto then av_Domain ad else '''') | _ \<Rightarrow> eret '''') s1 = ((Inr domain :: engine_error + _), t)"
      using assms Some adv parsed by (simp add: parseAdvertisementDomain_def ebind_def etry_def)
    then show ?thesis using p adv unfolding advertises_def
      by (auto split: sum.split_asm option.split_asm if_split_asm)
  qed
qed

lemma extractPeerEndpoints_Inr:
  assumes "extractPeerEndpoints e topic items s = (Inr endpoints, t)"
  shows "distinct endpoints \<and> '''' \<notin> set endpoints \<and>
    (\<forall>d \<in> set endpoints. \<exists>proto. expectedProtocolForTopic topic = Some proto \<and> advertises e proto d)"
proof (cases "expectedProtocolForTopic topic")
  case None
  with assms show ?thesis by (simp add: extractPeerEndpoints_def)
next
  case (Some proto)
  with assms have loop: "efold (\<lambda>item endpointSet. ebind (parseAdvertisementDomain e item proto) (\<lambda>domain.
      eret (if domain \<noteq> '''' then List.insert domain endpointSet else endpointSet))) items [] s = (Inr endpoints, t)"
    by (simp add: extractPeerEndpoints_def)
  have "distinct endpoints \<and> '''' \<notin> set endpoints \<and> (\<forall>d \<in> set endpoints. advertises e proto d)"
    using loop
  proof (rule efold_invariant[where I = "\<lambda>acc _. distinct acc \<and> '''' \<notin> set acc \<and> (\<forall>d \<in> set acc. advertises e proto d)"])
    fix item acc s acc' t
    assume I: "distinct acc \<and> '''' \<notin> set acc \<and> (\<forall>d \<in> set acc. advertises e proto d)"
      and body: "ebind (parseAdvertisementDomain e item proto) (\<lambda>domain.
        eret (if domain \<noteq> '''' then List.insert domain acc else acc)) s = (Inr acc', t)"
    from body obtain domain s1 where d: "parseAdvertisementDomain e item proto s = (Inr domain, s1)"
      and acc': "acc' = (if domain \<noteq> '''' then List.insert domain acc else acc)" by (auto simp: ebind_Inr)
    from parseAdvertisementDomain_Inr[OF d] I show "distinct acc' \<and> '''' \<notin> set acc' \<and> (\<forall>d \<in> set acc'. advertises e proto d)"
      unfolding acc' by auto
  qed simp
  with Some show ?thesis by simp
qed

text \<open>C40: the peers discovered for a topic are distinct hosts other than this one, each taken from an advertisement of
  the protocol expected for the topic; the discovery has no effects. Only the topics of the advertisements
  themselves, \<open>tm_ship\<close> and \<open>tm_slap\<close>, have such a protocol: for every other topic no peer is ever found.\<close>

theorem discoverSHIPPeers_sound:
  fixes e :: "('w, 'b) Engine"
  assumes "discoverSHIPPeers encode e topic (w, l) = (Inr peers, (w', l'))"
  shows "l' = l \<and> distinct peers \<and> en_HostingURL e \<notin> set peers \<and> '''' \<notin> set peers \<and>
    (\<forall>p. p \<in> set peers \<longrightarrow> (\<exists>proto. expectedProtocolForTopic topic = Some proto \<and> advertises e proto p)) \<and>
    (topic \<notin> {''tm_ship'', ''tm_slap''} \<longrightarrow> peers = [])"
proof -
  have "l' = l" using emits_nothing[OF emits_discoverSHIPPeers assms] by simp
  moreover have "distinct peers \<and> en_HostingURL e \<notin> set peers \<and> '''' \<notin> set peers \<and>
    (\<forall>p \<in> set peers. \<exists>proto. expectedProtocolForTopic topic = Some proto \<and> advertises e proto p)"
  proof -
    obtain ans :: "'b LookupAnswer" and s1 where rest: "(if la_Type ans \<noteq> AnswerTypeOutputList then eret []
       else ebind (extractPeerEndpoints e topic (la_Outputs ans)) (\<lambda>endpointSet.
         ebind (erange (range_seed e) endpointSet) (\<lambda>order.
           eret (filter (\<lambda>endpoint. endpoint \<noteq> en_HostingURL e) order)))) s1 = (Inr peers, (w', l'))"
      using assms unfolding discoverSHIPPeers_def by (blast elim: ebind_InrE)
    show ?thesis
    proof (cases "la_Type ans = AnswerTypeOutputList")
      case True
      with rest obtain endpoints s2 order s3 where x: "extractPeerEndpoints e topic (la_Outputs ans) s1 = (Inr endpoints, s2)"
        and o: "erange (range_seed e) endpoints s2 = ((Inr order :: engine_error + _), s3)" and p: "peers = filter (\<lambda>p. p \<noteq> en_HostingURL e) order"
        by (auto elim!: ebind_InrE)
      have m: "mset order = mset endpoints" using erange_Inr[OF o] by auto
      have "distinct order = distinct endpoints" "set order = set endpoints"
        using mset_eq_imp_distinct_iff[OF m] mset_eq_setD[OF m] by auto
      with extractPeerEndpoints_Inr[OF x] show ?thesis unfolding p by auto
    qed (use rest in simp)
  qed
  ultimately show ?thesis by (fastforce simp: expectedProtocolForTopic_def split: if_splits)
qed

section \<open>Effects of a session\<close>

text \<open>
  A session that only receives: when every call it makes of the storage and of the peer has only effects
  in \<open>P\<close>, so has the synchronisation of a page.
\<close>

locale receiving_session =
  fixes st :: "('x, 'f, 'e) gasp_storage" and rm :: "('x, 'f, 'e) gasp_remote" and P :: "'f \<Rightarrow> bool"
  assumes has_effects: "emits P (gs_HasOutputs st ops)"
    and needed_effects: "emits P (gs_FindNeededInputs st node)"
    and append_effects: "emits P (gs_AppendToGraph st node spentBy)"
    and validate_effects: "emits P (gs_ValidateGraphAnchor st gid)"
    and discard_effects: "emits P (gs_DiscardGraph st gid)"
    and finalize_effects: "emits P (gs_FinalizeGraph st gid)"
    and response_effects: "emits P (rm_GetInitialResponse rm request)"
    and node_effects: "emits P (rm_RequestNode rm gid outpoint metadata)"
begin

lemma lower_effects: "emits P m \<Longrightarrow> emits P (lower m)"
  unfolding emits_def lower_def by (auto split: prod.splits) (metis snd_conv)

lemma attempt_effects:
  "emits P m \<Longrightarrow> (\<And>e. emits P (failed e)) \<Longrightarrow> (\<And>x. emits P (ok x)) \<Longrightarrow> emits P (attempt m failed ok)"
  unfolding attempt_def by (intro emits_intros lower_effects)

lemma complete_effects: "g_Storage g = st \<Longrightarrow> emits P (CompleteGraph g gid)"
  unfolding CompleteGraph_def
  by (intro attempt_effects emits_intros lower_effects) (simp_all add: validate_effects discard_effects finalize_effects)

lemma process_effects:
  assumes "g_Storage g = st" "\<And>op sb gid sn. emits P (dep op sb gid sn)"
  shows "emits P (process_node g dep node spentBy seen)"
proof (cases "computeTxID g (n_RawTx node)")
  case (Inl e)
  then show ?thesis by (simp add: process_node_def emits_eret)
next
  case (Inr txid)
  have calls: "emits P (gs_AppendToGraph (g_Storage g) node spentBy)" "emits P (gs_FindNeededInputs (g_Storage g) node)"
    by (simp_all add: assms(1) append_effects needed_effects)
  with Inr assms(2) show ?thesis
    by (auto simp: process_node_def Let_def intro!: emits_intros attempt_effects)
qed

lemma traversal_effects:
  assumes "g_Storage g = st" "g_Remote g = rm"
  shows "emits P (processUTXO fuel g outpoint spentBy gid seen)"
proof (induction fuel arbitrary: outpoint spentBy gid seen)
  case 0
  then show ?case by (simp add: emits_eret)
next
  case (Suc fuel)
  show ?case unfolding processUTXO.simps
    by (intro attempt_effects emits_intros process_effects Suc complete_effects assms(1)) (simp add: assms(2) node_effects)
qed

lemma sync_effects:
  assumes "g_Storage g = st" "g_Remote g = rm" "g_Unidirectional g"
  shows "emits P (Sync fuel g limit)"
proof -
  have discard: "emits P (gs_DiscardGraph (g_Storage g) gid)" for gid by (simp add: assms(1) discard_effects)
  have "emits P (ProcessUTXOToCompletion fuel g outpoint None [])" for outpoint
    unfolding ProcessUTXOToCompletion_def
    by (auto intro!: emits_intros lower_effects traversal_effects[OF assms(1,2)] discard split: sum.split)
  then have ingest: "emits P (ingest_page fuel g queue shared)" for queue shared
    unfolding ingest_page_def by (auto intro!: emits_intros split: prod.split sum.split)
  have plan: "emits P (after_plan fuel g resp p)" for resp p
    unfolding after_plan_def using assms(3)
    by (auto intro!: emits_intros ingest split: prod.split option.split)
  then show ?thesis unfolding Sync_def Let_def
    by (intro attempt_effects emits_intros plan) (simp_all add: assms(1,2) has_effects response_effects)
qed

end

lemma emits_put_graphs [emits_intros]: "emits P (put_graphs gs)"
  unfolding emits_def put_graphs_def by (auto split: prod.splits)

lemma plain_FinalizeGraph: "emits plain (FinalizeGraph s gid)"
proof -
  have "emits plain (emit_loop fuel s bo n deps em)" for fuel bo n deps em
    by (induction fuel arbitrary: em) (auto intro!: emits_intros)
  then have "emits plain (computeOrderedBEEFsForGraph s graph)" for graph
    unfolding computeOrderedBEEFsForGraph_def Let_def by (intro emits_intros)
  moreover have "emits plain (submitBeef s beef)" for beef
    unfolding submitBeef_def by (auto intro!: emits_intros plain_Submit split: option.split)
  ultimately show ?thesis unfolding FinalizeGraph_def by (intro emits_intros)
qed

interpretation overlay_session: receiving_session "overlay_storage s" "overlay_remote p" plain for s p
proof
  show "emits plain (gs_HasOutputs (overlay_storage s) ops)" for ops
    by (simp add: overlay_storage_def HasOutputs_def) (intro emits_intros)
  have calls: "emits plain (stripAlreadyKnowInputs s rq)" "emits plain (IdentifyAdmissibleOutputs s beef txid coins)"
    "emits plain (IdentifyNeededInputs s beef txid)" for rq beef txid coins
    unfolding stripAlreadyKnowInputs_def IdentifyAdmissibleOutputs_def IdentifyNeededInputs_def
    by (auto intro!: emits_intros split: prod.split option.split)
  show "emits plain (gs_FindNeededInputs (overlay_storage s) node)" for node
    by (simp add: overlay_storage_def FindNeededInputs_def Let_def) (intro emits_intros calls)
  show "emits plain (gs_AppendToGraph (overlay_storage s) node spentBy)" for node spentBy
    by (auto simp: overlay_storage_def AppendToGraph_def Let_def intro!: emits_intros split: option.split prod.split)
  show "emits plain (gs_ValidateGraphAnchor (overlay_storage s) gid)" for gid
    by (simp add: overlay_storage_def) (rule emits_mono[OF silent_ValidateGraphAnchor], simp)
  show "emits plain (gs_DiscardGraph (overlay_storage s) gid)" for gid
    by (auto simp: overlay_storage_def DiscardGraph_def intro!: emits_intros split: option.split)
  show "emits plain (gs_FinalizeGraph (overlay_storage s) gid)" for gid
    by (simp add: overlay_storage_def plain_FinalizeGraph)
  show "emits plain (rm_GetInitialResponse (overlay_remote p) request)" for request
    by (simp add: overlay_remote_def) (intro emits_intros)
  show "emits plain (rm_RequestNode (overlay_remote p) gid outpoint metadata)" for gid outpoint metadata
    by (simp add: overlay_remote_def) (intro emits_intros)
qed

lemma Sync_returns:
  assumes "g_Unidirectional g"
  obtains latest r t where "Sync fuel g limit s = (Inr (latest, r), t)"
proof -
  have complete: "avoids e (ProcessUTXOToCompletion fuel g outpoint None [])" for e outpoint
    unfolding ProcessUTXOToCompletion_def
    by (auto intro!: avoids_ebind avoids_processUTXO avoids_eignore avoids_eret split: sum.split)
  have ingest: "avoids e (ingest_page fuel g queue shared)" for e queue shared
    unfolding ingest_page_def by (auto intro!: avoids_efold avoids_ebind complete avoids_eret split: prod.split sum.split)
  have plan: "avoids e (after_plan fuel g resp p)" for e resp p
    unfolding after_plan_def using assms by (auto intro!: avoids_ebind ingest avoids_eret split: prod.split option.split)
  have "avoids e (Sync fuel g limit)" for e
    unfolding Sync_def Let_def by (auto intro!: avoids_attempt avoids_eret avoids_if plan split: sum.split)
  then have "fst (Sync fuel g limit s) \<noteq> Inl e" for e unfolding avoids_def by blast
  then show thesis using that by (metis fst_conv prod.exhaust sum.exhaust)
qed

section \<open>The cursor of a peer\<close>

text \<open>The cursors that a run saved, with their peer and topic.\<close>

fun cursors :: "effect list \<Rightarrow> (string \<times> string \<times> float64) list" where
  "cursors [] = []"
| "cursors (SetLastInteraction p t c # fs) = (p, t, c) # cursors fs"
| "cursors (_ # fs) = cursors fs"

lemma cursors_append: "cursors (a @ b) = cursors a @ cursors b"
  by (induction a rule: cursors.induct) auto

lemma cursors_plain: "list_all plain l \<Longrightarrow> cursors l = []"
  by (induction l rule: cursors.induct) auto

lemma float_greater_chain: "float_greater a b \<Longrightarrow> float_greater b c \<Longrightarrow> float_greater a c"
  by (auto simp: float_greater_def)

definition receiving :: "('w, 'b) Engine \<Rightarrow> (graphs \<times> 'w, effect, graph_error) GASP \<Rightarrow> bool" where
  "receiving e g \<longleftrightarrow> g_Unidirectional g \<and> (\<exists>s. g_Storage g = overlay_storage (s :: ('w, 'b) OverlayGASPStorage)) \<and> (\<exists>p. g_Remote g = overlay_remote p)"

lemma new_session_receives: "receiving e (new_session env e topic peer c)"
  by (auto simp: receiving_def new_session_def)

lemma receiving_update: "receiving e g \<Longrightarrow> receiving e (g\<lparr>g_LastInteraction := c\<rparr>)"
  by (simp add: receiving_def)

lemma page_plain: "receiving e g \<Longrightarrow> emits plain (Sync depth g limit)"
  unfolding receiving_def using overlay_session.sync_effects by metis

lemma save_run:
  assumes "eignore (lower (lift_engine (ecall f c))) s = (r, t)"
  shows "snd t = snd s @ [f] \<and> r = Inr ()"
  using assms by (cases s) (auto simp: eignore_def lower_def lift_engine_def ecall_def split: prod.splits)

lemma sync_pages_cursors:
  assumes "receiving e g" "sync_pages pages depth e topic peer g s = (r, t)"
  shows "\<exists>new cs. snd t = snd s @ new \<and> cursors new = map (\<lambda>c. (peer, topic, c)) cs \<and>
    sorted_wrt (\<lambda>a b. float_greater b a) (g_LastInteraction g # cs)"
  using assms
proof (induction pages arbitrary: g s)
  case 0
  then show ?case by (intro exI[of _ "[]"]) (auto simp: efail_def)
next
  case (Suc pages)
  have uni: "g_Unidirectional g" using Suc.prems(1) by (simp add: receiving_def)
  obtain latest res s1 where page: "Sync depth g DefaultGASPSyncLimit s = (Inr (latest, res), s1)"
    by (rule Sync_returns[OF uni])
  obtain n1 where n1: "snd s1 = snd s @ n1" "cursors n1 = []"
    using emitsD[OF page_plain[OF Suc.prems(1)] page] cursors_plain by auto
  show ?case
  proof (cases "(\<exists>u. res = Inr u) \<and> float_greater latest (g_LastInteraction g)")
    case False
    then have "t = s1" using Suc.prems(2) page
      by (auto simp: ebind_def eret_def efail_def split: sum.split_asm gasp_error.split_asm)
    with n1 show ?thesis by (intro exI[of _ n1] exI[of _ "[]"]) auto
  next
    case True
    let ?save = "eignore (lower (lift_engine (ecall (SetLastInteraction peer topic latest)
               (st_UpdateLastInteraction (en_Storage e) peer topic latest)))) :: (graphs \<times> 'a, effect, graph_error gasp_error, unit) em"
    obtain r2 s2 where save: "?save s1 = (r2, s2)" by (rule prod.exhaust)
    from save_run[OF save] have s2: "snd s2 = snd s1 @ [SetLastInteraction peer topic latest]" "r2 = Inr ()" by auto
    have rest: "sync_pages pages depth e topic peer (g\<lparr>g_LastInteraction := latest\<rparr>) s2 = (r, t)"
      using Suc.prems(2) True page save s2(2) by (auto simp: ebind_def)
    from Suc.IH[OF receiving_update[OF Suc.prems(1)] rest] obtain n2 cs where n2: "snd t = snd s2 @ n2"
      "cursors n2 = map (\<lambda>c. (peer, topic, c)) cs" "sorted_wrt (\<lambda>a b. float_greater b a) (latest # cs)" by auto
    show ?thesis
    proof (intro exI[of _ "n1 @ SetLastInteraction peer topic latest # n2"] exI[of _ "latest # cs"] conjI)
      show "snd t = snd s @ n1 @ SetLastInteraction peer topic latest # n2" using n1 s2 n2 by simp
      show "cursors (n1 @ SetLastInteraction peer topic latest # n2) = map (\<lambda>c. (peer, topic, c)) (latest # cs)"
        using n1 n2 by (simp add: cursors_append)
      show "sorted_wrt (\<lambda>a b. float_greater b a) (g_LastInteraction g # latest # cs)"
        using n2(3) True float_greater_chain by auto
    qed
  qed
qed

text \<open>C15: the cursors that a synchronisation with a peer saves belong to that peer and topic and strictly increase from
  the one that storage held at the start, so that no page moves a peer backwards and none is saved
  twice; nothing else in the session touches a cursor.\<close>

theorem syncWithPeer_cursor:
  assumes "syncWithPeer env e topic peer (w, l) = (r, (w', l'))"
  shows "\<exists>new cs. l' = l @ new \<and> cursors new = map (\<lambda>c. (peer, topic, c)) cs \<and>
    (cs = [] \<or> (\<exists>start. fst (st_GetLastInteraction (en_Storage e) peer topic w) = Inr start \<and>
       sorted_wrt (\<lambda>a b. float_greater b a) (start # cs)))"
proof -
  obtain r1 s1 where start: "eread (st_GetLastInteraction (en_Storage e) peer topic) (w, l) = ((r1 :: engine_error + _), s1)" by (rule prod.exhaust)
  then have s1: "snd s1 = l" "fst (st_GetLastInteraction (en_Storage e) peer topic w) = r1" by (simp_all add: eread_Inr)
  show ?thesis
  proof (cases r1)
    case (Inl err)
    with assms start s1 have "l' = l" by (auto simp: syncWithPeer_def ebind_def)
    then show ?thesis by (intro exI[of _ "[]"]) simp
  next
    case (Inr c)
    obtain rp g t where pages: "sync_pages (env_pages env) (env_depth env) e topic peer (new_session env e topic peer c) (([], fst s1), snd s1) = (rp, (g, t))"
      by (metis prod.exhaust)
    then have "l' = t" using assms start Inr
      by (cases s1) (auto simp: syncWithPeer_def ebind_def run_session_def split: prod.splits)
    with sync_pages_cursors[OF new_session_receives pages] s1 Inr show ?thesis by (auto simp: new_session_def)
  qed
qed

section \<open>Sessions end\<close>

text \<open>The cursor increases with every page in the finite order of the 64-bit scores.\<close>

definition pages_left :: "float64 \<Rightarrow> nat" where
  "pages_left c = nat (9223372036854775808 - float_key c)"

lemma float_key_bounds: "- 9223372036854775808 < float_key c" "float_key c < 9223372036854775808"
proof -
  define u where "u = uint (take_bit 63 c)"
  have "u < 2 ^ 63" unfolding u_def unsigned_take_bit_eq by (rule take_bit_int_less_exp)
  moreover have "0 \<le> u" by (simp add: u_def)
  ultimately show "- 9223372036854775808 < float_key c" "float_key c < 9223372036854775808"
    by (auto simp: float_key_def simp flip: u_def)
qed

lemma pages_left_less: "float_greater latest c \<Longrightarrow> pages_left latest < pages_left c"
  using float_key_bounds(2)[of c] float_key_bounds(2)[of latest] by (auto simp: float_greater_def pages_left_def)

lemma pages_left_bound: "pages_left c < 18446744073709551616"
  using float_key_bounds(1)[of c] by (auto simp: pages_left_def)

lemma sync_pages_enough:
  assumes "pages_left (g_LastInteraction g) < m" "pages_left (g_LastInteraction g) < n"
  shows "sync_pages m depth e topic peer g = sync_pages n depth e topic peer g"
  using assms
proof (induction "pages_left (g_LastInteraction g)" arbitrary: g m n rule: less_induct)
  case less
  obtain m' n' where mn: "m = Suc m'" "n = Suc n'" using less.prems by (cases m; cases n) auto
  have rest: "sync_pages m' depth e topic peer (g\<lparr>g_LastInteraction := latest\<rparr>) = sync_pages n' depth e topic peer (g\<lparr>g_LastInteraction := latest\<rparr>)"
    if "float_greater latest (g_LastInteraction g)" for latest
    using less.hyps[of "g\<lparr>g_LastInteraction := latest\<rparr>" m' n'] pages_left_less[OF that] less.prems mn by simp
  show ?case unfolding mn sync_pages.simps
    by (intro arg_cong[where f = "ebind _"] ext) (auto split: sum.split gasp_error.split simp: rest)
qed

lemma sync_pages_depth:
  assumes "receiving e g" "\<And>c s latest t. Sync depth (g\<lparr>g_LastInteraction := c\<rparr>) DefaultGASPSyncLimit s \<noteq> (Inr (latest, Inl GaspDepth), t)"
    and "pages_left (g_LastInteraction g) < pages"
  shows "fst (sync_pages pages depth e topic peer g s) \<noteq> Inl GaspDepth"
  using assms
proof (induction pages arbitrary: g s)
  case (Suc pages)
  have uni: "g_Unidirectional g" using Suc.prems(1) by (simp add: receiving_def)
  obtain latest res s1 where page: "Sync depth g DefaultGASPSyncLimit s = (Inr (latest, res), s1)"
    by (rule Sync_returns[OF uni])
  have res: "res \<noteq> Inl GaspDepth" using Suc.prems(2)[of "g_LastInteraction g" s latest s1] page by auto
  show ?case
  proof (cases "(\<exists>u. res = Inr u) \<and> float_greater latest (g_LastInteraction g)")
    case False
    with page res show ?thesis
      by (auto simp: ebind_def eret_def efail_def split: sum.split gasp_error.split)
  next
    case True
    let ?save = "eignore (lower (lift_engine (ecall (SetLastInteraction peer topic latest)
               (st_UpdateLastInteraction (en_Storage e) peer topic latest)))) :: (graphs \<times> 'a, effect, graph_error gasp_error, unit) em"
    obtain r2 s2 where save: "?save s1 = (r2, s2)" by (rule prod.exhaust)
    have r2: "r2 = Inr ()" using save_run[OF save] by simp
    have "fst (sync_pages pages depth e topic peer (g\<lparr>g_LastInteraction := latest\<rparr>) s2) \<noteq> Inl GaspDepth"
      using Suc.prems(2,3) pages_left_less[of latest "g_LastInteraction g"] True
      by (intro Suc.IH receiving_update Suc.prems(1)) auto
    with True page save r2 show ?thesis by (auto simp: ebind_def)
  qed
qed simp


section \<open>Proofs for invalidated outputs\<close>

lemma group_step:
  "map_of (fold (\<lambda>outpoint result. if map_of result (op_Txid outpoint) = None then result @ [(op_Txid outpoint, outpoint)] else result) ops acc) t =
     (case map_of acc t of Some o1 \<Rightarrow> Some o1 | None \<Rightarrow> find (\<lambda>o1. op_Txid o1 = t) ops)"
  by (induction ops arbitrary: acc) (auto simp: map_add_def split: option.splits)

lemma group_distinct:
  "distinct (map fst acc) \<Longrightarrow>
   distinct (map fst (fold (\<lambda>outpoint result. if map_of result (op_Txid outpoint) = None then result @ [(op_Txid outpoint, outpoint)] else result) ops acc))"
  by (induction ops arbitrary: acc) (auto simp: map_of_eq_None_iff)

text \<open>One entry per transaction, with the first of its outpoints.\<close>

lemma groupOutpointsByTxid_first: "map_of (groupOutpointsByTxid ops) t = find (\<lambda>o1. op_Txid o1 = t) ops"
  by (simp add: groupOutpointsByTxid_def group_step)

lemma groupOutpointsByTxid_distinct: "distinct (map fst (groupOutpointsByTxid ops))"
  unfolding groupOutpointsByTxid_def by (rule group_distinct) simp

lemma groupOutpointsByTxid_txid:
  assumes "(t, o1) \<in> set (groupOutpointsByTxid ops)" shows "op_Txid o1 = t \<and> o1 \<in> set ops"
proof -
  have "map_of (groupOutpointsByTxid ops) t = Some o1"
    using assms groupOutpointsByTxid_distinct by (intro map_of_is_SomeI)
  then show ?thesis unfolding groupOutpointsByTxid_first by (auto simp: find_Some_iff)
qed

text \<open>
  An effect that a proof accepted by the chain tracker accounts for: an update of stored proofs, or
  the notification of the height and offset that the proof itself gives.
\<close>

definition backed :: "('w, 'b) Engine \<Rightarrow> hash set \<Rightarrow> effect \<Rightarrow> bool" where
  "backed e txids f \<longleftrightarrow> (\<exists>txid path root v. txid \<in> txids \<and> ComputeRoot (sdk_of e) path (Some txid) = Inr root \<and>
     fst (en_IsValidRootForHeight e root (mp_BlockHeight path) v) = Inr True \<and>
     (proof_update f \<or> (\<exists>idx. findBlockIdx path txid = Inr (Some idx) \<and> f = NotifyHeight txid (mp_BlockHeight path) idx)))"

lemma backed_HandleNewMerkleProof: "emits (backed e {txid}) (HandleNewMerkleProof fuel e txid path)"
  unfolding emits_def
proof
  fix s :: "'a \<times> effect list"
  obtain w l where s: "s = (w, l)" by (rule prod.exhaust)
  obtain r w' l' where run: "HandleNewMerkleProof fuel e txid path (w, l) = (r, (w', l'))" by (metis prod.exhaust)
  from HandleNewMerkleProof_effects[OF run] obtain ups ns where l': "l' = l @ ups @ ns" and ups: "list_all proof_update ups"
    and ns: "\<forall>f \<in> set ns. \<exists>idx. findBlockIdx path txid = Inr (Some idx) \<and> f = NotifyHeight txid (mp_BlockHeight path) idx"
    and valid: "ups @ ns \<noteq> [] \<longrightarrow> (\<exists>root. ComputeRoot (sdk_of e) path (Some txid) = Inr root \<and>
          fst (en_IsValidRootForHeight e root (mp_BlockHeight path) w) = Inr True)" by blast
  have "list_all (backed e {txid}) (ups @ ns)"
    unfolding list_all_iff
  proof
    fix f assume f: "f \<in> set (ups @ ns)"
    then obtain root where "ComputeRoot (sdk_of e) path (Some txid) = Inr root" "fst (en_IsValidRootForHeight e root (mp_BlockHeight path) w) = Inr True"
      using valid by (metis empty_iff empty_set)
    moreover have "proof_update f \<or> (\<exists>idx. findBlockIdx path txid = Inr (Some idx) \<and> f = NotifyHeight txid (mp_BlockHeight path) idx)"
      using f ups ns by (auto simp: list_all_iff)
    ultimately show "backed e {txid} f" unfolding backed_def by blast
  qed
  then show "\<exists>l. snd (snd (HandleNewMerkleProof fuel e txid path s)) = snd s @ l \<and> list_all (backed e {txid}) l"
    using run l' s by auto
qed

lemma backed_syncMerkleProofFromPeers: "emits (backed e {txid}) (syncMerkleProofFromPeers fuel env e topic txid outpoint peers)"
proof (induction peers)
  case Nil
  then show ?case by (simp add: emits_eret)
next
  case (Cons peer peers)
  have handled: "emits (backed e {txid}) (case h of Inl Panic \<Rightarrow> efail Panic | Inl NoFuel \<Rightarrow> efail NoFuel
      | Inl _ \<Rightarrow> syncMerkleProofFromPeers fuel env e topic txid outpoint peers | Inr _ \<Rightarrow> eret True)" for h :: "engine_error + unit"
    using Cons by (auto split: sum.split engine_error.split intro: emits_intros)
  show ?case unfolding syncMerkleProofFromPeers.simps
    by (intro emits_intros Cons backed_HandleNewMerkleProof handled)
qed

lemma emits_efold_set: "(\<And>x a. x \<in> set xs \<Longrightarrow> emits P (body x a)) \<Longrightarrow> emits P (efold body xs a)"
proof (induction xs arbitrary: a)
  case Nil
  then show ?case by (simp add: emits_eret)
next
  case (Cons x xs)
  then have "emits P (body x a)" "\<And>a'. emits P (efold body xs a')" by auto
  then show ?case unfolding efold.simps by (rule emits_ebind)
qed

text \<open>C39: fetching proofs for invalidated outputs changes nothing that a valid proof does not account for: every effect is the
  update of a stored proof or a notification of the height and offset in a proof, and that proof has a root which the
  chain tracker accepts at its height for one of the transactions with an invalidated output.\<close>

theorem SyncInvalidatedOutputs_backed:
  assumes "SyncInvalidatedOutputs fuel env e topic (w, l) = (r, (w', l'))"
  shows "\<exists>new. l' = l @ new \<and>
    (new = [] \<or> (\<exists>ops. fst (st_FindOutpointsByMerkleState (en_Storage e) topic MerkleStateInvalidated 1000 w) = Inr ops \<and>
       list_all (backed e (op_Txid ` set ops)) new))"
proof -
  obtain r1 s1 where find: "eread (st_FindOutpointsByMerkleState (en_Storage e) topic MerkleStateInvalidated 1000) (w, l) = ((r1 :: engine_error + _), s1)"
    by (rule prod.exhaust)
  then have s1: "snd s1 = l" "fst (st_FindOutpointsByMerkleState (en_Storage e) topic MerkleStateInvalidated 1000 w) = r1" by (simp_all add: eread_Inr)
  show ?thesis
  proof (cases r1)
    case (Inl err)
    with assms find s1 have "l' = l" by (auto simp: SyncInvalidatedOutputs_def ebind_def)
    then show ?thesis by simp
  next
    case (Inr ops)
    let ?loop = "\<lambda>peers order. eforeach (\<lambda>(txid, outpoint).
        ebind (syncMerkleProofFromPeers fuel env e topic txid outpoint peers) (\<lambda>_. eret ())) order"
    have loop: "emits (backed e (op_Txid ` set ops)) (?loop peers order)" if "mset order = mset (groupOutpointsByTxid ops)" for peers order
    proof (rule emits_efold_set)
      fix x :: "hash \<times> Outpoint" and a :: unit assume "x \<in> set order"
      then have x: "x \<in> set (groupOutpointsByTxid ops)" using mset_eq_setD[OF that] by simp
      obtain t o1 where t: "x = (t, o1)" by (rule prod.exhaust)
      have "t \<in> op_Txid ` set ops" using groupOutpointsByTxid_txid x t by blast
      then have "backed e {t} f \<Longrightarrow> backed e (op_Txid ` set ops) f" for f unfolding backed_def by blast
      then have "emits (backed e (op_Txid ` set ops)) (syncMerkleProofFromPeers fuel env e topic t o1 peers)"
        by (rule emits_mono[OF backed_syncMerkleProofFromPeers])
      then show "emits (backed e (op_Txid ` set ops)) (case x of (txid, outpoint) \<Rightarrow>
          ebind (syncMerkleProofFromPeers fuel env e topic txid outpoint peers) (\<lambda>_. eret ()))"
        unfolding t prod.case by (intro emits_ebind emits_eret)
    qed
    have "l' = l \<or> (\<exists>peers. ebind (erange (range_seed e) (groupOutpointsByTxid ops)) (?loop peers) s1 = (r, (w', l')))"
      using assms find Inr s1
      by (auto simp: SyncInvalidatedOutputs_def ebind_def[of "eread _"] eret_def split: if_split_asm option.split_asm)
    then show ?thesis
    proof (elim disjE exE)
      fix peers assume run: "ebind (erange (range_seed e) (groupOutpointsByTxid ops)) (?loop peers) s1 = (r, (w', l'))"
      obtain ro s2 where order: "erange (range_seed e) (groupOutpointsByTxid ops) s1 = ((ro :: engine_error + _), s2)" by (rule prod.exhaust)
      from erange_Inr[OF order] obtain ys where ys: "ro = Inr ys" "mset ys = mset (groupOutpointsByTxid ops)" "snd s2 = snd s1" by blast
      have "?loop peers ys s2 = (r, (w', l'))" using run order ys(1) by (simp add: ebind_def)
      from emitsD[OF loop[OF ys(2)] this] s1 ys(3) Inr show ?thesis by auto
    qed simp
  qed
qed

section \<open>A small instance\<close>

text \<open>A host with one topic, an advertiser that knows one advertisement of a topic no longer configured, and one peer.\<close>

definition demo_ad :: Advertisement where
  "demo_ad = \<lparr>av_Protocol = ''SHIP'', av_IdentityKey = '''', av_Domain = ''https://b'', av_TopicOrService = ''tm_old'', av_Beef = [], av_OutputIndex = 0\<rparr>"

definition demo_advertiser :: "unit Advertiser" where
  "demo_advertiser = \<lparr>CreateAdvertisements = \<lambda>_ w. (Inr \<lparr>tb_Beef = [1], tb_Topics = [''tm_a''], tb_OffChainValues = []\<rparr>, w),
     FindAllAdvertisements = \<lambda>p w. (Inr (if p = ''SHIP'' then [demo_ad] else []), w),
     RevokeAdvertisements = \<lambda>_ w. (Inl (OtherError ''revoke''), w),
     ParseAdvertisement = \<lambda>_ w. (Inr (Some demo_ad), w)\<rparr>"

definition ads_engine :: "(unit, Tx) Engine" where
  "ads_engine = demo_engine\<lparr>en_Advertiser := Some demo_advertiser,
     en_LookupResolver := demo_resolver\<lparr>lr_Query := \<lambda>_ w. (Inr \<lparr>la_Type = AnswerTypeOutputList,
       la_Outputs = [\<lparr>li_Beef = [1], li_OutputIndex = 0\<rparr>, \<lparr>li_Beef = [1], li_OutputIndex = 7\<rparr>, \<lparr>li_Beef = [2], li_OutputIndex = 0\<rparr>],
       la_Formulas = [], la_Result = ''''\<rparr>, w)\<rparr>\<rparr>"


theorem discoverSHIPPeers_sound_witness:
  "fst (discoverSHIPPeers (\<lambda>_. Inr []) ads_engine ''tm_ship'' ((), [])) = Inr [''https://b''] \<and>
     (\<exists>proto. expectedProtocolForTopic ''tm_ship'' = Some proto \<and> advertises ads_engine proto ''https://b'') \<and>
     fst (discoverSHIPPeers (\<lambda>_. Inr []) ads_engine ''tm_a'' ((), [])) = Inr []"
proof -
  have ship: "fst (discoverSHIPPeers (\<lambda>_. Inr []) ads_engine ''tm_ship'' ((), [])) = Inr [''https://b'']" by code_simp
  obtain w l where run: "discoverSHIPPeers (\<lambda>_. Inr []) ads_engine ''tm_ship'' ((), []) = (Inr [''https://b''], (w, l))"
    using ship by (metis prod.collapse)
  obtain peers w2 l2 where other: "discoverSHIPPeers (\<lambda>_. Inr []) ads_engine ''tm_a'' ((), []) = (Inr peers, (w2, l2))"
  proof -
    have "\<not> isl (fst (discoverSHIPPeers (\<lambda>_. Inr []) ads_engine ''tm_a'' ((), [])))" by code_simp
    then show thesis using that by (metis prod.collapse sum.collapse(2))
  qed
  from discoverSHIPPeers_sound[OF run] discoverSHIPPeers_sound[OF other] ship other show ?thesis by auto
qed

definition demo_peer :: "Output list \<Rightarrow> unit peer" where
  "demo_peer page = \<lparr>pr_GetInitialResponse = \<lambda>_ w. (Inr \<lparr>resp_UTXOList = page, resp_Since = 0\<rparr>, w),
     pr_RequestNode = \<lambda>gid op1 _ w. (Inr \<lparr>n_GraphID = Some gid, n_RawTx = [1], n_OutputIndex = op_Index op1, n_Proof = [1],
       n_TxMetadata = '''', n_OutputMetadata = '''', n_Inputs = Map.empty\<rparr>, w)\<rparr>"

definition demo_env :: "nat \<Rightarrow> Output list \<Rightarrow> (unit, Tx) sync_env" where
  "demo_env pages page = \<lparr>env_peer = \<lambda>_ _. demo_peer page, env_marshal = \<lambda>_. Inr [], env_graph_sdk = demo_graph_sdk,
     env_parse = \<lambda>_. Parsed demo_txid, env_json = demo_json, env_delete = 5, env_hydrate = 5, env_depth = 5, env_pages = pages\<rparr>"

text \<open>A storage that has every output it is asked about.\<close>

definition full_engine :: "(unit, Tx) Engine" where
  "full_engine = demo_engine\<lparr>en_Storage := demo_storage\<lparr>st_FindOutputs := \<lambda>ops _ _ _ w. (Inr (map (\<lambda>_. Some (demo_output 0 [] [])) ops), w)\<rparr>\<rparr>"

definition demo_page :: "Output list" where
  "demo_page = [\<lparr>o_Txid = demo_txid, o_OutputIndex = 0, o_Score = 4611686018427387904\<rparr>]"

theorem syncWithPeer_cursor_witness:
  "cursors (snd (snd (syncWithPeer (demo_env 3 demo_page) full_engine ''tm_a'' ''https://b'' ((), [])))) = [(''https://b'', ''tm_a'', 4611686018427387904)] \<and>
   float_greater 4611686018427387904 0"
proof -
  let ?run = "syncWithPeer (demo_env 3 demo_page) full_engine ''tm_a'' ''https://b'' ((), [])"
  have saved: "cursors (snd (snd ?run)) = [(''https://b'', ''tm_a'', 4611686018427387904)]" by code_simp
  obtain r w l where run: "?run = (r, (w, l))" by (metis prod.exhaust)
  have start: "fst (st_GetLastInteraction (en_Storage full_engine) ''https://b'' ''tm_a'' ()) = Inr 0"
    by (simp add: full_engine_def demo_storage_def)
  from syncWithPeer_cursor[OF run] saved run start show ?thesis by auto
qed

lemma empty_page:
  "Sync n (new_session (demo_env k []) full_engine topic peer c) limit s = (Inr (c, Inr ()), s)"
  by (cases s) (auto simp: Sync_def Let_def attempt_def etry_def lower_def lift_engine_def eread_def ebind_def eret_def
      new_session_def overlay_remote_def demo_env_def demo_peer_def split: prod.splits)


definition invalid_engine :: "(unit, Tx) Engine" where
  "invalid_engine = proof_engine\<lparr>en_SyncConfiguration := [(''tm_a'', \<lparr>sc_Type = SyncConfigurationPeers, sc_Peers = [''https://a'', ''https://b''], sc_Concurrency = 1\<rparr>)],
     sdk_of := tagged_sdk\<lparr>NewMerklePathFromBinary := \<lambda>_. Inr (path_at 6)\<rparr>,
     en_Storage := (en_Storage proof_engine)\<lparr>st_FindOutpointsByMerkleState := \<lambda>_ _ _ w.
       (Inr [\<lparr>op_Txid = TxID tagged_sdk fresh_parent, op_Index = 0\<rparr>, \<lparr>op_Txid = TxID tagged_sdk fresh_parent, op_Index = 1\<rparr>], w)\<rparr>\<rparr>"

theorem SyncInvalidatedOutputs_backed_witness:
  "snd (snd (SyncInvalidatedOutputs 5 (demo_env 3 []) invalid_engine ''tm_a'' ((), []))) = proof_log \<and>
   list_all (backed invalid_engine {TxID tagged_sdk fresh_parent}) proof_log"
proof -
  let ?run = "SyncInvalidatedOutputs 5 (demo_env 3 []) invalid_engine ''tm_a'' ((), [])"
  have log: "snd (snd ?run) = proof_log" by code_simp
  obtain r w l where run: "?run = (r, (w, l))" by (metis prod.exhaust)
  have ops: "fst (st_FindOutpointsByMerkleState (en_Storage invalid_engine) ''tm_a'' MerkleStateInvalidated 1000 ()) =
      Inr [\<lparr>op_Txid = TxID tagged_sdk fresh_parent, op_Index = 0\<rparr>, \<lparr>op_Txid = TxID tagged_sdk fresh_parent, op_Index = 1\<rparr>]"
    by (simp add: invalid_engine_def)
  have "proof_log \<noteq> []" by (simp add: proof_log_def)
  with SyncInvalidatedOutputs_backed[OF run] log run ops show ?thesis by auto
qed

end
