(* ===== verification/Spec2Isabelle.thy ===== *)
theory Spec2Isabelle
  imports Basm_Read Engine_Serve Engine_Sync
begin

text \<open>
  Verification of the overlay services engine (\<^verbatim>\<open>bsv-blockchain/go-overlay-services\<close>).

  \<^bold>\<open>The program.\<close> An overlay node keeps, per topic, the transaction outputs that a topic manager admits.
  Its parts are:
  \<^item> the engine (\<^verbatim>\<open>pkg/core/engine/engine.go\<close>): accepts transactions (BEEF), asks topic managers which
    outputs to admit, updates storage, tells lookup services, broadcasts and propagates; it attaches
    Merkle proofs when transactions are mined, answers lookups and drives synchronisation;
  \<^item> the admission capability (\<^verbatim>\<open>admission_storage.go\<close>, \<^verbatim>\<open>admission_submit.go\<close>, \<^verbatim>\<open>recovery_contract.go\<close>): a
    submission becomes one atomic, replayable plan with content-addressed payloads;
  \<^item> GASP (\<^verbatim>\<open>pkg/core/gasp\<close> and \<^verbatim>\<open>engine/gasp-storage.go\<close>): pages of outputs exchanged with a peer, a recursive
    traversal that fetches the graph below an unknown output, a temporary graph per traversal, and
    the goroutines (limiter, queue worker, shared in-flight calls) that run the traversals;
  \<^item> BASM (\<^verbatim>\<open>pkg/core/basm\<close>, \<^verbatim>\<open>engine/basm-read*.go\<close>): anchors that commit, block by block, to the list of
    admitted transactions of a topic, and a read service that serves lists, raw transactions and
    compound Merkle paths which it checks against those anchors.

  \<^bold>\<open>The theories.\<close> Definitions keep the names of the Go functions.
  \<^item> \<open>Prelude\<close>, \<open>Go_Bytes\<close>, \<open>Go_Text\<close>, \<open>Go_Sha256\<close>: results, cancellable contexts, and what the code uses of
    Go's \<^verbatim>\<open>encoding/binary\<close>, \<^verbatim>\<open>encoding/hex\<close>, \<^verbatim>\<open>unicode/utf8\<close>, \<^verbatim>\<open>strconv\<close> and \<^verbatim>\<open>crypto/sha256\<close>, all executable,
    with their round trips.
  \<^item> \<open>Basm_Hash\<close> (\<^verbatim>\<open>basm/hash.go\<close>), \<open>Basm_Values\<close> (\<^verbatim>\<open>values.go\<close>, \<^verbatim>\<open>chain.go\<close>): hash text, Merkle root, anchors, admitted
    lists and the anchor chain. The root of a list is the specified tree; two lists with the same
    anchor are equal or exhibit a SHA-256 collision; accepted chains are contiguous and commit to
    their past.
  \<^item> \<open>Wire_Reader\<close>, \<open>Basm_Wire\<close>, \<open>Basm_Bump\<close> (\<^verbatim>\<open>basm/wire.go\<close>): bounded readers. The preflights of raw transactions
    and BUMPs accept exactly the languages that the encoders in these theories generate; the anchor
    codec is a bijection. Locale \<open>wire_skipper\<close> gives repetition of a skipper once and is interpreted
    on inputs, outputs and scripts.
  \<^item> \<open>Basm_Proof\<close>, \<open>Basm_Read\<close> (\<^verbatim>\<open>basm-read-proof.go\<close>, \<^verbatim>\<open>basm-read-service.go\<close>, \<^verbatim>\<open>basm-read.go\<close>, \<^verbatim>\<open>protocol.go\<close>): validation of
    compound paths against the admitted list, and the read operations. What the service returns
    is complete, canonical on the chain and proven, or it returns an error.
  \<^item> \<open>Admission_Contract\<close>, \<open>Admission_Submit\<close>: the admission records, canonical integers, digests and
    operation ids (equal exactly for equal operations, up to an exhibited collision), and the
    submission that commits at most one plan whose payloads were published before.
  \<^item> \<open>Effects\<close>, \<open>Engine_Types\<close>, \<open>Engine_Submit\<close>, \<open>Engine_Merkle\<close>, \<open>Engine_Serve\<close>: the effect monad, the engine's data and
    interfaces, the submission pipeline with deep deletion, Merkle proof updates, and the answers to
    lookups and peers. The theorems give the order of effects, what a successful run recorded, what an
    answer contains, and termination.
  \<^item> \<open>Gasp_Wire\<close> (\<^verbatim>\<open>gasp/wire.go\<close>, \<^verbatim>\<open>types.go\<close>): all messages with the wrap-around of Go's \<^verbatim>\<open>int\<close>; round trips, and
    the two length checks that overflow.
  \<^item> \<open>Single_Flight\<close>, \<open>Gasp_Pool\<close>: the goroutines as labelled step relations with invariants by induction over
    reachable states. Locale \<open>flight_client\<close> states what a machine with shared in-flight calls promises
    and is interpreted on the pool and on the finalisation of graphs.
  \<^item> \<open>Gasp_Storage\<close>, \<open>Gasp_Sync\<close> (\<^verbatim>\<open>gasp-storage.go\<close>, \<^verbatim>\<open>gasp.go\<close>): temporary graphs and the synchroniser. Locale \<open>graph_store\<close>
    is the storage contract of a traversal, interpreted on the engine's storage.
  \<^item> \<open>Engine_Sync\<close> (\<^verbatim>\<open>engine.go\<close>, \<open>SyncAdvertisements\<close> to \<open>syncMerkleProofFromPeers\<close>): advertisements, discovery, the loop over
    the pages of a peer and proofs for invalidated outputs. Locale \<open>receiving_session\<close> derives the effects of
    a page from those of the calls it makes and is interpreted on the engine's storage and peers.

  \<^bold>\<open>Conventions.\<close> A Go call that returns a value and an error is a sum type; every sentinel error is a
  constructor, wrapped and formatted errors are their sentinel, and a run-time panic is a
  constructor too. Log output is dropped. Machine integers are words; Go's \<^verbatim>\<open>int\<close> is written with its
  wrap-around where it can occur; a \<^verbatim>\<open>float64\<close> is its IEEE bits. A Go map is an association list, and each
  range over it is a permutation picked by a seed of the outside, so that theorems hold for every
  order. Everything outside (storage, topic managers, lookup services, the network) is one opaque
  state that the interface functions transform; a ghost log records each call with an effect and is never
  read. The SDK (BEEF parsing, transaction ids, Merkle path roots) is a record of functions. No
  theorem assumes that SHA-256 is collision free: the binding theorems return the collision.
  Sequential models of concurrent code (the page of traversals in \<open>Gasp_Sync\<close>) are paired with
  the interleaved machine of the same code in \<open>Gasp_Pool\<close>.

  \<^bold>\<open>Bounds.\<close> Recursions that follow data of the outside carry a fuel whose exhaustion is an error of
  its own. \<open>deleteUTXODeep\<close>, \<open>GetUTXOHistory\<close> and \<open>HandleNewMerkleProof\<close> need no more than the rank of an acyclic history,
  \<open>hydrator\<close> and \<open>emit_loop\<close> no more than the nodes of the graph, \<open>processUTXO\<close> one more than the outputs of the peer
  not yet seen, and the pages of a session are bounded by the number of scores. The termination theorems show that these are enough and that more
  gives the same run.
\<close>

section \<open>Not modelled\<close>

text \<open>
  \<^item> \<^verbatim>\<open>pkg/storage/mongodb\<close>: transactions, documents and indexes of a MongoDB deployment; its behaviour is that of
    the driver and the server. The engine's storage interface is a parameter with stated laws.
  \<^item> \<^verbatim>\<open>pkg/server\<close>: HTTP routing, middleware, generated OpenAPI code, configuration loading and thin
    services that call one engine function.
  \<^item> \<^verbatim>\<open>gasp-remote.go\<close> and \<^verbatim>\<open>lookup_resolver.go\<close>: HTTP clients; the peer and the resolver are parameters.
  \<^item> \<^verbatim>\<open>basm/json.go\<close> and the JSON half of \<^verbatim>\<open>protocol.go\<close>: field tables for \<^verbatim>\<open>encoding/json\<close>.
  \<^item> \<^verbatim>\<open>pkg/topics/identity\<close>, \<^verbatim>\<open>examples\<close>, test fixtures and mocks.
\<close>

end
